(* ===== verification/Prelude.thy ===== *)
theory Prelude
  imports Main "HOL-Library.List_Lexorder" "HOL-Library.Char_ord" "HOL-Library.Multiset"
begin

text \<open>
  Shared vocabulary of the rivers development: the lemma collections the component
  theories fill, the string and number formatting the Rust code gets from its standard
  library (\<open>join\<close>, \<open>split\<close>, \<open>split_once\<close>, \<open>format!\<close>), the bounds of
  \<open>usize\<close> and \<open>u32\<close>, the order Rust puts on \<open>Option\<close>, first-occurrence
  deduplication, and the generic facts about stable sorting, folds and maps that the
  component proofs use. Strings are compared byte by byte, which is what the
  lexicographic order on \<open>string\<close> does.
\<close>

named_theorems key_simps \<open>partition keys\<close>
named_theorems sel_simps \<open>partition selections and the sets they denote\<close>
named_theorems cond_simps \<open>condition trees\<close>
named_theorems plan_simps \<open>execution plans\<close>
named_theorems queue_simps \<open>run queue and concurrency\<close>

section \<open>Machine bounds\<close>

definition usize_max :: nat where
  "usize_max = 2 ^ 64 - 1"

definition u32_max :: nat where
  "u32_max = 2 ^ 32 - 1"

definition saturating_mul :: "nat \<Rightarrow> nat \<Rightarrow> nat" where
  "saturating_mul a b = min usize_max (a * b)"

definition wrapping_add_usize :: "nat \<Rightarrow> nat \<Rightarrow> nat" where
  "wrapping_add_usize a b = (a + b) mod 2 ^ 64"

lemma saturating_mul_min: "saturating_mul (min usize_max a) b = min usize_max (a * b)"
proof (cases "b = 0")
  case True
  then show ?thesis by (simp add: saturating_mul_def)
next
  case False
  then have le: "a \<le> a * b" and "usize_max \<le> usize_max * b" by simp_all
  then have "usize_max \<le> a * b" if "usize_max \<le> a"
    using that le by linarith
  with \<open>usize_max \<le> usize_max * b\<close> show ?thesis
    by (cases "a \<le> usize_max") (simp_all add: saturating_mul_def)
qed

lemma fold_saturating_mul:
  "foldl saturating_mul (min usize_max a) ns = min usize_max (a * prod_list ns)"
  by (induction ns arbitrary: a) (simp_all add: saturating_mul_min mult.assoc)

lemma foldl_wrapping_add:
  assumes "a + sum_list ns < 2 ^ 64"
  shows "foldl wrapping_add_usize a ns = a + sum_list ns"
  using assms by (induction ns arbitrary: a) (auto simp: wrapping_add_usize_def)

section \<open>Options\<close>

text \<open>Rust orders \<open>None\<close> below every \<open>Some\<close>; \<open>Option::max\<close> follows that order.\<close>

fun opt_max :: "'a::linorder option \<Rightarrow> 'a option \<Rightarrow> 'a option" where
  "opt_max None b = b"
| "opt_max a None = a"
| "opt_max (Some a) (Some b) = Some (max a b)"

lemma opt_max_None_iff [simp]: "opt_max a b = None \<longleftrightarrow> a = None \<and> b = None"
  by (cases a; cases b) auto

section \<open>Strings\<close>

fun join :: "string \<Rightarrow> string list \<Rightarrow> string" where
  "join sep [] = []"
| "join sep [s] = s"
| "join sep (s # t # ss) = s @ sep @ join sep (t # ss)"

text \<open>\<open>str::split\<close> on one character: always at least one piece.\<close>

fun split_char :: "char \<Rightarrow> string \<Rightarrow> string list" where
  "split_char c [] = [[]]"
| "split_char c (x # xs) =
     (if x = c then [] # split_char c xs
      else (case split_char c xs of p # ps \<Rightarrow> (x # p) # ps | [] \<Rightarrow> [[x]]))"

text \<open>\<open>str::split_once\<close> on one character.\<close>

fun split_once :: "char \<Rightarrow> string \<Rightarrow> (string \<times> string) option" where
  "split_once c [] = None"
| "split_once c (x # xs) =
     (if x = c then Some ([], xs)
      else map_option (\<lambda>(a, b). (x # a, b)) (split_once c xs))"

lemma split_char_not_Nil [simp]: "split_char c s \<noteq> []"
  by (induction s) (auto split: list.splits)

lemma split_char_free: "c \<notin> set s \<Longrightarrow> split_char c s = [s]"
  by (induction s) auto

lemma split_char_append:
  "c \<notin> set s \<Longrightarrow> split_char c (s @ c # t) = s # split_char c t"
  by (induction s) auto

lemma split_char_join:
  "ss \<noteq> [] \<Longrightarrow> \<forall>s\<in>set ss. c \<notin> set s \<Longrightarrow> split_char c (join [c] ss) = ss"
proof (induction ss)
  case Nil
  then show ?case by simp
next
  case (Cons s ss)
  then show ?case by (cases ss) (auto simp: split_char_free split_char_append)
qed

lemma split_once_append:
  "c \<notin> set s \<Longrightarrow> split_once c (s @ c # t) = Some (s, t)"
  by (induction s) auto

lemma set_join: "set (join sep ss) \<subseteq> \<Union> (set ` set ss) \<union> set sep"
  by (induction sep ss rule: join.induct) auto

text \<open>Decimal rendering of unsigned integers (\<open>Display\<close> of \<open>u32\<close> and \<open>usize\<close>).\<close>

definition digit_char :: "nat \<Rightarrow> char" where
  "digit_char d = char_of (48 + d)"

fun show_nat :: "nat \<Rightarrow> string" where
  "show_nat n = (if n < 10 then [digit_char n] else show_nat (n div 10) @ [digit_char (n mod 10)])"

declare show_nat.simps [simp del]

section \<open>Lists\<close>

lemma concat_map_Nil [simp]: "concat (map (\<lambda>x. []) xs) = []"
  by (induction xs) auto

lemma elem_le_sum_list_map: "x \<in> set xs \<Longrightarrow> f x \<le> (\<Sum>y\<leftarrow>xs. f y :: nat)"
  by (induction xs) auto

text \<open>
  Keeping the elements whose insertion into an initially empty \<open>HashSet\<close> returns
  \<open>true\<close>: the first occurrence of each.
\<close>

fun dedup_from :: "'a set \<Rightarrow> 'a list \<Rightarrow> 'a list" where
  "dedup_from seen [] = []"
| "dedup_from seen (x # xs) =
     (if x \<in> seen then dedup_from seen xs else x # dedup_from (insert x seen) xs)"

abbreviation dedup :: "'a list \<Rightarrow> 'a list" where
  "dedup \<equiv> dedup_from {}"

lemma set_dedup_from: "set (dedup_from seen xs) = set xs - seen"
  by (induction xs arbitrary: seen) auto

lemma distinct_dedup_from: "distinct (dedup_from seen xs)"
  by (induction xs arbitrary: seen) (auto simp: set_dedup_from)

lemma dedup_from_id: "distinct xs \<Longrightarrow> set xs \<inter> seen = {} \<Longrightarrow> dedup_from seen xs = xs"
  by (induction xs arbitrary: seen) auto

text \<open>Stable sorting: two permutations of distinct-keyed entries sort to the same list.\<close>

lemma sort_key_perm_eq:
  assumes "mset xs = mset ys" and "distinct (map f xs)"
  shows "sort_key f xs = sort_key f ys"
proof (rule map_sorted_distinct_set_unique)
  have eq: "set xs = set ys" using assms(1) by (metis set_mset_mset)
  show "inj_on f (set (sort_key f xs) \<union> set (sort_key f ys))"
    using assms(2) eq by (simp add: distinct_map)
  have "mset (map f xs) = mset (map f ys)" using assms(1) by simp
  then have "distinct (map f ys)" using assms(2) by (metis mset_eq_imp_distinct_iff)
  then show "distinct (map f (sort_key f ys))" and "distinct (map f (sort_key f xs))"
    using assms(2) by (simp_all add: distinct_map)
qed (use assms(1) in \<open>auto dest: mset_eq_setD\<close>)

end
