(* ===== verification/Partition_Keys.thy ===== *)
theory Partition_Keys
  imports Prelude
begin

text \<open>
  Partition keys (\<open>rivers-core/src/storage/partition_key.rs\<close>): the key datatype, the
  expansion of a batched key into its members, the number of members, the display
  encoding and its inverse, the JSON encoding, and the equality that ignores the order of
  dimensions. \<open>HashSet<PartitionKey>\<close> hashes and compares keys through the form with
  sorted dimensions, so everywhere in the development a hash set of keys is a set of
  keys in that canonical form: \<open>canon\<close> computes it, and \<open>pk_eq_iff_canon\<close> shows
  that the code's equality is equality of canonical forms.
\<close>

datatype partition_key =
    Single "string list"
  | Multi "(string \<times> string list) list"
  | KeySet "partition_key list"

section \<open>Expansion into members\<close>

text \<open>
  \<open>dim_combos\<close> is the loop over the sorted dimensions; after each dimension only the
  first \<open>limit\<close> combinations are kept.
\<close>

definition extend_combos ::
  "nat \<Rightarrow> (string \<times> string list) list list \<Rightarrow> string \<times> string list \<Rightarrow> (string \<times> string list) list list" where
  "extend_combos limit combos d =
     take limit (concat (map (\<lambda>combo. map (\<lambda>v. combo @ [(fst d, [v])]) (snd d)) combos))"

definition dim_combos :: "nat \<Rightarrow> (string \<times> string list) list \<Rightarrow> (string \<times> string list) list list" where
  "dim_combos limit dims = foldl (extend_combos limit) [[]] dims"

text \<open>The inner loop over one member's expansion: push, and stop at the limit.\<close>

fun push_until :: "nat \<Rightarrow> 'a list \<Rightarrow> 'a list \<Rightarrow> 'a list \<times> bool" where
  "push_until limit out [] = (out, False)"
| "push_until limit out (m # ms) =
     (let out' = out @ [m]
      in if limit \<le> length out' then (out', True) else push_until limit out' ms)"

fun members_preview :: "partition_key \<Rightarrow> nat \<Rightarrow> partition_key list"
  and members_loop :: "partition_key list \<Rightarrow> nat \<Rightarrow> partition_key list \<Rightarrow> partition_key list" where
  "members_preview (Single ks) limit =
     (if limit = 0 then [] else map (\<lambda>k. Single [k]) (take limit ks))"
| "members_preview (Multi dims) limit =
     (if limit = 0 then [] else map Multi (dim_combos limit (sort_key fst dims)))"
| "members_preview (KeySet ks) limit =
     (if limit = 0 then [] else members_loop ks limit [])"
| "members_loop [] limit out = out"
| "members_loop (k # ks) limit out =
     (let (out', full) = push_until limit out (members_preview k (limit - length out))
      in if full then out' else members_loop ks limit out')"

definition members :: "partition_key \<Rightarrow> partition_key list" where
  "members k = members_preview k usize_max"

fun member_count :: "partition_key \<Rightarrow> nat" where
  "member_count (Single ks) = length ks"
| "member_count (Multi dims) = foldl saturating_mul 1 (map (\<lambda>d. length (snd d)) dims)"
| "member_count (KeySet ks) = foldl wrapping_add_usize 0 (map member_count ks)"

section \<open>Display encoding\<close>

definition display_dim :: "string \<times> string list \<Rightarrow> string" where
  "display_dim d = fst d @ ''='' @ join '','' (snd d)"

fun to_display :: "partition_key \<Rightarrow> string" where
  "to_display (Single ks) = join '','' ks"
| "to_display (Multi dims) = join ''|'' (map display_dim (sort_key fst dims))"
| "to_display (KeySet ks) = join '', '' (map to_display ks)"

definition reserved_display_char :: "string \<Rightarrow> char option" where
  "reserved_display_char key = find (\<lambda>c. c \<in> set key) [CHR ''|'', CHR '','']"

fun parse_dims :: "string list \<Rightarrow> (string \<times> string list) list option" where
  "parse_dims [] = Some []"
| "parse_dims (part # parts) =
     (case split_once (CHR ''='') part of
        Some (name, vals) \<Rightarrow>
          (if name \<noteq> [] then map_option ((#) (name, split_char (CHR '','') vals)) (parse_dims parts)
           else None)
      | None \<Rightarrow> None)"

definition display_candidates :: "string \<Rightarrow> partition_key list" where
  "display_candidates display =
     Single [display] #
     (if CHR ''='' \<in> set display
      then (case parse_dims (split_char (CHR ''|'') display) of
              Some dims \<Rightarrow> if dims \<noteq> [] then [Multi dims] else []
            | None \<Rightarrow> [])
      else [])"

section \<open>Equality and the canonical form\<close>

fun pk_eq :: "partition_key \<Rightarrow> partition_key \<Rightarrow> bool"
  and pks_eq :: "partition_key list \<Rightarrow> partition_key list \<Rightarrow> bool" where
  "pk_eq (Single a) (Single b) = (a = b)"
| "pk_eq (Multi a) (Multi b) = (length a = length b \<and> sort_key fst a = sort_key fst b)"
| "pk_eq (KeySet a) (KeySet b) = pks_eq a b"
| "pk_eq _ _ = False"
| "pks_eq [] [] = True"
| "pks_eq (a # as) (b # bs) = (pk_eq a b \<and> pks_eq as bs)"
| "pks_eq _ _ = False"

fun canon :: "partition_key \<Rightarrow> partition_key" where
  "canon (Single ks) = Single ks"
| "canon (Multi dims) = Multi (sort_key fst dims)"
| "canon (KeySet ks) = KeySet (map canon ks)"

section \<open>JSON encoding\<close>

text \<open>
  The values \<open>serde_json\<close> builds for a key. Rendering a value to text and parsing text
  back are \<open>serde_json\<close>'s: they are the parameters \<open>render\<close> and \<open>parse\<close>, over an
  arbitrary type of texts.
\<close>

datatype json = JStr string | JArr "json list" | JObj "(string \<times> json) list"

datatype json_error = InvalidJson | InvalidSingle | InvalidMulti | InvalidSet | NoVariant

text \<open>Collecting into a \<open>BTreeMap\<close>: keys in order, the last value of a repeated key.\<close>

definition btree_of :: "(string \<times> 'v) list \<Rightarrow> (string \<times> 'v) list" where
  "btree_of kvs = map (\<lambda>k. (k, the (map_of (rev kvs) k))) (sorted_list_of_set (fst ` set kvs))"

definition json_strs :: "string list \<Rightarrow> json" where
  "json_strs ss = JArr (map JStr ss)"

fun to_json :: "(json \<Rightarrow> 't) \<Rightarrow> ('t \<Rightarrow> json option) \<Rightarrow> partition_key \<Rightarrow> 't" where
  "to_json render parse (Single ks) = render (JObj [(''single'', json_strs ks)])"
| "to_json render parse (Multi dims) =
     render (JObj [(''multi'', JObj (map (\<lambda>(k, v). (k, json_strs v)) (btree_of dims)))])"
| "to_json render parse (KeySet ks) =
     render (JObj [(''set'',
       JArr (concat (map (\<lambda>k. case parse (to_json render parse k) of None \<Rightarrow> [] | Some v \<Rightarrow> [v]) ks)))])"

fun json_str :: "json \<Rightarrow> string option" where
  "json_str (JStr s) = Some s"
| "json_str _ = None"

fun traverse_opt :: "('a \<Rightarrow> 'b option) \<Rightarrow> 'a list \<Rightarrow> 'b list option" where
  "traverse_opt f [] = Some []"
| "traverse_opt f (x # xs) =
     (case f x of None \<Rightarrow> None | Some y \<Rightarrow> map_option ((#) y) (traverse_opt f xs))"

fun json_string_list :: "json \<Rightarrow> string list option" where
  "json_string_list (JArr vs) = traverse_opt json_str vs"
| "json_string_list _ = None"

fun json_get :: "json \<Rightarrow> string \<Rightarrow> json option" where
  "json_get (JObj kvs) k = map_of kvs k"
| "json_get _ k = None"

fun json_dims :: "json \<Rightarrow> (string \<times> string list) list option" where
  "json_dims (JObj kvs) =
     map_option btree_of (traverse_opt (\<lambda>(k, v). map_option (Pair k) (json_string_list v)) kvs)"
| "json_dims _ = None"

text \<open>
  \<open>from_json\<close> reads the three variants in the order the code tests them. A member of a
  set is rendered again and parsed by a recursive call, so the recursion is on text;
  \<open>fuel\<close> bounds it (\<open>None\<close> is running out) and \<open>key_depth\<close> of it is enough.
\<close>

fun collect_results :: "('e + 'a) option list \<Rightarrow> ('e + 'a list) option" where
  "collect_results [] = Some (Inr [])"
| "collect_results (r # rs) =
     (case r of
        None \<Rightarrow> None
      | Some (Inl e) \<Rightarrow> Some (Inl e)
      | Some (Inr x) \<Rightarrow>
          (case collect_results rs of
             None \<Rightarrow> None
           | Some (Inl e) \<Rightarrow> Some (Inl e)
           | Some (Inr xs) \<Rightarrow> Some (Inr (x # xs))))"

fun from_json ::
  "nat \<Rightarrow> (json \<Rightarrow> 't) \<Rightarrow> ('t \<Rightarrow> json option) \<Rightarrow> 't \<Rightarrow> (json_error + partition_key) option" where
  "from_json 0 render parse t = None"
| "from_json (Suc fuel) render parse t =
     (case parse t of
        None \<Rightarrow> Some (Inl InvalidJson)
      | Some v \<Rightarrow>
         (case json_get v ''single'' of
            Some keys \<Rightarrow>
              (case json_string_list keys of
                 None \<Rightarrow> Some (Inl InvalidSingle)
               | Some ks \<Rightarrow> Some (Inr (Single ks)))
          | None \<Rightarrow>
         (case json_get v ''multi'' of
            Some multi \<Rightarrow>
              (case json_dims multi of
                 None \<Rightarrow> Some (Inl InvalidMulti)
               | Some dims \<Rightarrow> Some (Inr (Multi dims)))
          | None \<Rightarrow>
         (case json_get v ''set'' of
            Some (JArr arr) \<Rightarrow>
              (case collect_results (map (\<lambda>m. from_json fuel render parse (render m)) arr) of
                 None \<Rightarrow> None
               | Some (Inl e) \<Rightarrow> Some (Inl e)
               | Some (Inr ks) \<Rightarrow> Some (Inr (KeySet ks)))
          | Some _ \<Rightarrow> Some (Inl InvalidSet)
          | None \<Rightarrow> Some (Inl NoVariant)))))"

section \<open>The reference expansion\<close>

text \<open>What a key expands to, with no limit: the cartesian product over the sorted dimensions.\<close>

fun combos_of :: "(string \<times> string list) list \<Rightarrow> (string \<times> string list) list list" where
  "combos_of [] = [[]]"
| "combos_of (d # ds) = concat (map (\<lambda>v. map ((#) (fst d, [v])) (combos_of ds)) (snd d))"

fun all_members :: "partition_key \<Rightarrow> partition_key list" where
  "all_members (Single ks) = map (\<lambda>k. Single [k]) ks"
| "all_members (Multi dims) = map Multi (combos_of (sort_key fst dims))"
| "all_members (KeySet ks) = concat (map all_members ks)"

fun key_depth :: "partition_key \<Rightarrow> nat" where
  "key_depth (KeySet ks) = Suc (foldr max (map key_depth ks) 0)"
| "key_depth _ = 1"

section \<open>Correctness of the expansion\<close>

lemma take_concat_take:
  "take n (concat (map f (take n xs))) = take n (concat (map f xs))"
  if "\<And>x. x \<in> set xs \<Longrightarrow> f x \<noteq> []"
  using that
proof (induction xs arbitrary: n)
  case (Cons x xs)
  show ?case
  proof (cases n)
    case (Suc m)
    have ne: "length (f x) \<ge> 1" using Cons.prems [of x] by (cases "f x") auto
    then have le: "Suc m - length (f x) \<le> m" by arith
    have "take (Suc m - length (f x)) (concat (map f (take m xs))) =
          take (Suc m - length (f x)) (take m (concat (map f (take m xs))))"
      using le by (simp add: min_def)
    also have "\<dots> = take (Suc m - length (f x)) (take m (concat (map f xs)))"
      using Cons by simp
    finally show ?thesis using Suc le by (simp add: min_def)
  qed simp
qed simp

lemma extend_combos_take:
  "extend_combos n (take n cs) d = take n (concat (map (\<lambda>c. map (\<lambda>v. c @ [(fst d, [v])]) (snd d)) cs))"
proof (cases "snd d = []")
  case True
  then show ?thesis by (simp add: extend_combos_def)
next
  case False
  then show ?thesis by (simp add: extend_combos_def take_concat_take)
qed

lemma append_section: "(@) (c @ [y]) = (\<lambda>z. c @ y # z)" "(@) [] = (\<lambda>z. z)"
  by auto

lemma foldl_extend_combos:
  "foldl (extend_combos n) (take n cs) dims =
   take n (concat (map (\<lambda>c. map ((@) c) (combos_of dims)) cs))"
proof (induction dims arbitrary: cs)
  case Nil
  have "concat (map (\<lambda>c. [c]) cs) = cs" by (induction cs) auto
  then show ?case by simp
next
  case (Cons d ds)
  let ?ext = "\<lambda>c. map (\<lambda>v. c @ [(fst d, [v])]) (snd d)"
  have step: "concat (map (\<lambda>c. map ((@) c) (combos_of ds)) (?ext c)) = map ((@) c) (combos_of (d # ds))" for c
    by (simp add: map_concat comp_def append_section)
  have "concat (map (\<lambda>c. map ((@) c) (combos_of ds)) (concat (map ?ext cs))) =
        concat (map (\<lambda>c. map ((@) c) (combos_of (d # ds))) cs)"
    by (induction cs) (simp_all add: step [simplified])
  then show ?case by (simp add: extend_combos_take Cons.IH)
qed

lemma dim_combos_take: "0 < n \<Longrightarrow> dim_combos n dims = take n (combos_of dims)"
  using foldl_extend_combos [of n "[[]]" dims]
  by (cases n) (auto simp: dim_combos_def append_section)

lemma push_until_eq:
  "length out < limit \<Longrightarrow>
   push_until limit out ms = (take limit (out @ ms), limit \<le> length (out @ ms))"
  by (induction limit out ms rule: push_until.induct) (auto simp: Let_def take_Cons')

lemma members_preview_take:
  "members_preview k limit = take limit (all_members k)"
  "length out < limit \<Longrightarrow>
   members_loop ks limit out = take limit (out @ concat (map all_members ks))"
proof (induction k limit and ks limit out rule: members_preview_members_loop.induct)
  case (1 ks limit)
  then show ?case by (simp add: take_map)
next
  case (2 dims limit)
  then show ?case by (simp add: dim_combos_take take_map)
next
  case (5 k ks limit out)
  have pre: "members_preview k (limit - length out) = take (limit - length out) (all_members k)"
    by (rule "5.IH"(1))
  show ?case
  proof (cases "limit \<le> length out + length (all_members k)")
    case True
    then show ?thesis using "5.prems" by (simp add: pre push_until_eq)
  next
    case False
    then show ?thesis using "5.prems" "5.IH"(2) by (simp add: pre push_until_eq)
  qed
qed simp_all

text \<open>
  \<open>members_preview\<close> returns exactly the first \<open>limit\<close> members of the full expansion,
  for every kind of key and every limit, although it never builds the rest.
\<close>

theorem members_preview_prefix: "members_preview k limit = take limit (all_members k)"
  by (rule members_preview_take)

lemma length_combos_of: "length (combos_of dims) = prod_list (map (\<lambda>d. length (snd d)) dims)"
  by (induction dims) (simp_all add: length_concat comp_def sum_list_triv)

lemma prod_list_sort_key: "prod_list (map f (sort_key g xs)) = prod_list (map (f :: _ \<Rightarrow> nat) xs)"
  by (metis mset_map mset_sort prod_mset_prod_list)

lemma member_count_Multi:
  "member_count (Multi dims) = min usize_max (length (all_members (Multi dims)))"
  using fold_saturating_mul [of 1 "map (\<lambda>d. length (snd d)) dims"]
  by (simp add: length_combos_of prod_list_sort_key usize_max_def)

lemma member_count_all_members:
  "length (all_members k) \<le> usize_max \<Longrightarrow> member_count k = length (all_members k)"
proof (induction k)
  case (Multi dims)
  then show ?case by (simp only: member_count_Multi min.absorb2)
next
  case (KeySet ks)
  have len: "length (all_members (KeySet ks)) = (\<Sum>k\<leftarrow>ks. length (all_members k))"
    by (simp add: length_concat comp_def)
  have "member_count k = length (all_members k)" if "k \<in> set ks" for k
    using KeySet len elem_le_sum_list_map [OF that, of "\<lambda>k. length (all_members k)"] that by simp
  then have eq: "map member_count ks = map (\<lambda>k. length (all_members k)) ks" by simp
  show ?case
    using KeySet.prems len
      foldl_wrapping_add [of 0 "map (\<lambda>k. length (all_members k)) ks"]
    unfolding member_count.simps eq by (simp add: usize_max_def)
qed simp

text \<open>
  counting the members of a key without building them agrees with the expansion, as
  long as the expansion has at most \<open>usize::MAX\<close> elements: neither the saturating
  product over dimensions nor the sum over a set is off.
\<close>

theorem member_count_exact:
  assumes "length (all_members k) \<le> usize_max"
  shows "member_count k = length (members k)"
  using assms by (simp add: members_def members_preview_take member_count_all_members)

theorem member_count_exact_witness:
  "member_count (Multi [(''region'', [''us'', ''eu'']), (''date'', [''d1'', ''d2'', ''d3''])]) =
   length (members (Multi [(''region'', [''us'', ''eu'']), (''date'', [''d1'', ''d2'', ''d3''])]))"
proof (rule member_count_exact)
  show "length (all_members (Multi [(''region'', [''us'', ''eu'']), (''date'', [''d1'', ''d2'', ''d3''])])) \<le> usize_max"
    by (simp add: length_combos_of prod_list_sort_key usize_max_def)
qed

section \<open>Equality is equality of canonical forms\<close>

lemma pk_eq_canon:
  "pk_eq a b \<longleftrightarrow> canon a = canon b"
  "pks_eq as bs \<longleftrightarrow> map canon as = map canon bs"
proof (induction a b and as bs rule: pk_eq_pks_eq.induct)
  case (2 a b)
  then show ?case by (auto dest: arg_cong [where f = length])
qed auto

text \<open>
  C33: the code's \<open>PartialEq\<close> on keys, which compares multi-dimensional keys after sorting
  their dimensions, is equality of canonical forms: so it is an equivalence, and hashing
  the sorted form respects it.
\<close>

theorem pk_eq_iff_canon: "pk_eq a b \<longleftrightarrow> canon a = canon b"
  by (rule pk_eq_canon)

lemma canon_idem [simp]: "canon (canon k) = canon k"
  by (induction k) (auto simp: sort_key_id_if_sorted)

lemma canon_members_preview: "m \<in> set (all_members k) \<Longrightarrow> \<exists>n vs. m = Single [n] \<or> m = Multi vs"
  by (induction k) auto

lemma all_members_canon: "all_members (canon k) = all_members k"
  by (induction k) (auto simp: sort_key_id_if_sorted comp_def intro!: arg_cong [where f = concat])

section \<open>Round trips\<close>

text \<open>
  The keys the display encoding is injective on: dimension names are non-empty and free
  of the two separators the parser splits on, values free of the reserved characters
  (\<open>reserved_display_char\<close> rejects them), every dimension has a value.
\<close>

definition displayable_dim :: "string \<times> string list \<Rightarrow> bool" where
  "displayable_dim d \<longleftrightarrow>
     fst d \<noteq> [] \<and> CHR ''='' \<notin> set (fst d) \<and> CHR ''|'' \<notin> set (fst d) \<and>
     snd d \<noteq> [] \<and> (\<forall>v\<in>set (snd d). reserved_display_char v = None)"

lemma reserved_display_char_None:
  "reserved_display_char v = None \<longleftrightarrow> CHR ''|'' \<notin> set v \<and> CHR '','' \<notin> set v"
  by (auto simp: reserved_display_char_def)

lemma display_dim_no_bar: "displayable_dim d \<Longrightarrow> CHR ''|'' \<notin> set (display_dim d)"
  using set_join [of "'',''" "snd d"]
  by (auto simp: displayable_dim_def display_dim_def reserved_display_char_None)

lemma parse_dims_display:
  "\<forall>d\<in>set dims. displayable_dim d \<Longrightarrow> parse_dims (map display_dim dims) = Some dims"
proof (induction dims)
  case (Cons d ds)
  then have d: "displayable_dim d" by simp
  then have "split_once (CHR ''='') (display_dim d) = Some (fst d, join '','' (snd d))"
    by (simp add: displayable_dim_def display_dim_def split_once_append)
  moreover have "split_char (CHR '','') (join '','' (snd d)) = snd d"
    using d by (intro split_char_join) (auto simp: displayable_dim_def reserved_display_char_None)
  ultimately show ?case using Cons d by (simp add: displayable_dim_def)
qed simp



text \<open>Keys whose dimension names are distinct, at every level.\<close>

fun distinct_dims :: "partition_key \<Rightarrow> bool" where
  "distinct_dims (Single ks) = True"
| "distinct_dims (Multi dims) = distinct (map fst dims)"
| "distinct_dims (KeySet ks) = list_all distinct_dims ks"

lemma btree_of_distinct:
  assumes "distinct (map fst kvs)"
  shows "btree_of kvs = sort_key fst kvs"
proof (rule map_sorted_distinct_set_unique)
  let ?g = "\<lambda>k. (k, the (map_of (rev kvs) k))"
  have look: "map_of (rev kvs) (fst kv) = Some (snd kv)" if "kv \<in> set kvs" for kv
    using assms that by (cases kv) (simp add: rev_map [symmetric])
  have fsts: "map fst (btree_of kvs) = sorted_list_of_set (fst ` set kvs)"
    by (simp add: btree_of_def comp_def)
  show "set (btree_of kvs) = set (sort_key fst kvs)"
    using look by (force simp: btree_of_def)
  then show "inj_on fst (set (btree_of kvs) \<union> set (sort_key fst kvs))"
    using assms by (simp add: distinct_map)
  show "sorted (map fst (btree_of kvs))" and "distinct (map fst (btree_of kvs))"
    by (simp_all add: fsts)
  show "distinct (map fst (sort_key fst kvs))"
    using assms by (simp add: distinct_map)
qed simp

lemma traverse_json_str: "traverse_opt json_str (map JStr ss) = Some ss"
  by (induction ss) auto

lemma json_dims_json:
  "json_dims (JObj (map (\<lambda>(k, v). (k, json_strs v)) kvs)) = Some (btree_of kvs)"
proof -
  have "traverse_opt (\<lambda>(k, v). map_option (Pair k) (json_string_list v))
          (map (\<lambda>(k, v). (k, json_strs v)) kvs) = Some kvs"
    by (induction kvs) (auto simp: json_strs_def traverse_json_str)
  then show ?thesis by simp
qed

lemma collect_results_map:
  "(\<And>x. x \<in> set xs \<Longrightarrow> f x = Some (Inr (g x))) \<Longrightarrow> collect_results (map f xs) = Some (Inr (map g xs))"
  by (induction xs) auto

lemma btree_of_sorted: "btree_of (sort_key fst kvs) = sort_key fst kvs" if "distinct (map fst kvs)"
  using that by (subst btree_of_distinct) (simp_all add: distinct_map sort_key_id_if_sorted)

lemma max_key_depth: "k \<in> set ks \<Longrightarrow> key_depth k \<le> foldr max (map key_depth ks) 0"
  by (induction ks) auto

lemma from_json_to_json:
  assumes rt: "\<And>v. parse (render v) = Some v"
  shows "distinct_dims k \<Longrightarrow> key_depth k \<le> fuel \<Longrightarrow>
         from_json fuel render parse (to_json render parse k) = Some (Inr (canon k))"
proof (induction k arbitrary: fuel)
  case (Single ks)
  then show ?case by (cases fuel) (simp_all add: rt json_strs_def traverse_json_str)
next
  case (Multi dims)
  then show ?case
    by (cases fuel) (simp_all add: rt json_dims_json btree_of_distinct btree_of_sorted del: json_dims.simps)
next
  case (KeySet ks)
  then obtain f where f: "fuel = Suc f" by (cases fuel) auto
  have arr: "\<exists>v. to_json render parse k = render v" for k by (cases k) auto
  define val where "val k = the (parse (to_json render parse k))" for k
  have val: "parse (to_json render parse k) = Some (val k)" "render (val k) = to_json render parse k" for k
    using arr [of k] rt by (auto simp: val_def)
  have "concat (map (\<lambda>k. case parse (to_json render parse k) of None \<Rightarrow> [] | Some v \<Rightarrow> [v]) ks) = map val ks"
    by (induction ks) (auto simp: val)
  moreover have "from_json f render parse (to_json render parse k) = Some (Inr (canon k))" if "k \<in> set ks" for k
    using KeySet f that max_key_depth [OF that] by (intro KeySet.IH) (auto simp: list_all_iff)
  then have "collect_results (map (\<lambda>k. from_json f render parse (to_json render parse k)) ks) =
             Some (Inr (map canon ks))"
    by (rule collect_results_map)
  ultimately show ?case by (simp add: f rt val comp_def)
qed

text \<open>
  writing a key to JSON and reading it back gives the same key (with its dimensions
  sorted), for any renderer and parser of JSON values that are inverse to each other.
\<close>

theorem json_roundtrip:
  assumes "\<forall>v. parse (render v) = Some v" and "distinct_dims k" and "key_depth k \<le> fuel"
  shows "\<exists>k'. from_json fuel render parse (to_json render parse k) = Some (Inr k') \<and> pk_eq k' k"
  using from_json_to_json [of parse render k fuel] assms by (auto simp: pk_eq_canon)

theorem json_roundtrip_witness:
  "\<exists>k'. from_json 2 id Some (to_json id Some (KeySet [Single [''a''], Multi [(''r'', [''us'']), (''d'', [''x''])]])) =
      Some (Inr k') \<and> pk_eq k' (KeySet [Single [''a''], Multi [(''r'', [''us'']), (''d'', [''x''])]])"
  by (rule json_roundtrip) simp_all

end
