(* ===== verification/Partition_Selections.thy ===== *)
theory Partition_Selections
  imports Prelude
begin

text \<open>
  Partition selections (\<open>rivers-core/src/condition/partition.rs\<close>): which partitions of an
  asset satisfy a condition. The type is polymorphic in the key, whose equality stands
  for the code's \<open>Eq\<close>. A selection over a universe \<open>U\<close> of valid keys denotes the
  set \<open>sel_set U s\<close>; the operations of the code are shown to implement the set
  operations on it. The locale \<open>selection_algebra\<close> states what the evaluator relies on
  and is interpreted on the model of the code.
\<close>

datatype 'k selection = SelAll | SelEmpty | SelKeys "'k set"

definition from_keys :: "'k set \<Rightarrow> 'k selection" where
  "from_keys ks = (if ks = {} then SelEmpty else SelKeys ks)"

fun sel_union :: "'k selection \<Rightarrow> 'k selection \<Rightarrow> 'k selection" where
  "sel_union SelAll _ = SelAll"
| "sel_union _ SelAll = SelAll"
| "sel_union SelEmpty x = x"
| "sel_union x SelEmpty = x"
| "sel_union (SelKeys a) (SelKeys b) = from_keys (a \<union> b)"

fun sel_intersect :: "'k selection \<Rightarrow> 'k selection \<Rightarrow> 'k selection" where
  "sel_intersect SelEmpty _ = SelEmpty"
| "sel_intersect _ SelEmpty = SelEmpty"
| "sel_intersect SelAll x = x"
| "sel_intersect x SelAll = x"
| "sel_intersect (SelKeys a) (SelKeys b) = from_keys (a \<inter> b)"

fun restrict_to :: "'k set \<Rightarrow> 'k selection \<Rightarrow> 'k selection" where
  "restrict_to all_keys SelAll = SelAll"
| "restrict_to all_keys SelEmpty = SelEmpty"
| "restrict_to all_keys (SelKeys ks) = from_keys (Set.filter (\<lambda>k. k \<in> all_keys) ks)"

fun complement :: "'k set \<Rightarrow> 'k selection \<Rightarrow> 'k selection" where
  "complement all_keys SelAll = SelEmpty"
| "complement all_keys SelEmpty = (if all_keys = {} then SelEmpty else SelKeys all_keys)"
| "complement all_keys (SelKeys ks) = from_keys (all_keys - ks)"

fun sel_difference :: "'k set \<Rightarrow> 'k selection \<Rightarrow> 'k selection \<Rightarrow> 'k selection" where
  "sel_difference all_keys SelEmpty _ = SelEmpty"
| "sel_difference all_keys _ SelAll = SelEmpty"
| "sel_difference all_keys x SelEmpty = x"
| "sel_difference all_keys SelAll (SelKeys b) = complement all_keys (SelKeys b)"
| "sel_difference all_keys (SelKeys a) (SelKeys b) = from_keys (a - b)"

fun sel_is_empty :: "'k selection \<Rightarrow> bool" where
  "sel_is_empty SelEmpty = True"
| "sel_is_empty (SelKeys ks) = (ks = {})"
| "sel_is_empty SelAll = False"

fun sel_is_all :: "'k selection \<Rightarrow> bool" where
  "sel_is_all SelAll = True"
| "sel_is_all _ = False"

definition sel_from_bool :: "bool \<Rightarrow> 'k selection" where
  "sel_from_bool val = (if val then SelAll else SelEmpty)"

fun key_count :: "nat \<Rightarrow> 'k selection \<Rightarrow> nat" where
  "key_count n SelAll = n"
| "key_count n SelEmpty = 0"
| "key_count n (SelKeys ks) = card ks"

definition sel_to_bool :: "'k selection \<Rightarrow> bool" where
  "sel_to_bool s = (\<not> sel_is_empty s)"

fun fires_over :: "'k set \<Rightarrow> 'k selection \<Rightarrow> bool" where
  "fires_over all_keys SelAll = (all_keys \<noteq> {})"
| "fires_over all_keys other = (\<not> sel_is_empty other)"

section \<open>What a selection denotes\<close>

text \<open>
  \<open>sel_set U s\<close> is the set of partitions a selection stands for over the universe \<open>U\<close>;
  \<open>sel_wf\<close> is the invariant of the type: \<open>SelKeys\<close> is never empty (the code normalises
  through \<open>from_keys\<close>); \<open>sel_within U\<close> says that it names no key outside \<open>U\<close>.
\<close>

fun sel_set :: "'k set \<Rightarrow> 'k selection \<Rightarrow> 'k set" where
  "sel_set U SelAll = U"
| "sel_set U SelEmpty = {}"
| "sel_set U (SelKeys ks) = ks"

fun sel_wf :: "'k selection \<Rightarrow> bool" where
  "sel_wf (SelKeys ks) = (ks \<noteq> {})"
| "sel_wf _ = True"

fun sel_within :: "'k set \<Rightarrow> 'k selection \<Rightarrow> bool" where
  "sel_within U (SelKeys ks) = (ks \<subseteq> U)"
| "sel_within U _ = True"

lemma sel_set_from_keys [simp, sel_simps]: "sel_set U (from_keys ks) = ks"
  by (simp add: from_keys_def)

lemma sel_wf_from_keys [simp, sel_simps]: "sel_wf (from_keys ks)"
  by (simp add: from_keys_def)

lemma sel_within_from_keys [simp, sel_simps]: "sel_within U (from_keys ks) = (ks \<subseteq> U)"
  by (auto simp: from_keys_def)

lemma sel_within_subset: "sel_within U s \<Longrightarrow> sel_set U s \<subseteq> U"
  by (cases s) auto

lemma from_keys_is_empty [simp, sel_simps]: "sel_is_empty (from_keys ks) \<longleftrightarrow> ks = {}"
  by (simp add: from_keys_def)

lemma from_keys_not_all [simp, sel_simps]: "\<not> sel_is_all (from_keys ks)"
  by (simp add: from_keys_def)

lemma wf_from_bool [simp, sel_simps]: "sel_wf (sel_from_bool b)" "sel_within U (sel_from_bool b)"
  by (simp_all add: sel_from_bool_def)

lemma set_from_bool [simp, sel_simps]: "sel_set U (sel_from_bool b) = (if b then U else {})"
  by (simp add: sel_from_bool_def)

lemma to_bool_from_bool [simp, sel_simps]: "sel_to_bool (sel_from_bool b) = b"
  by (simp add: sel_from_bool_def sel_to_bool_def)

lemma union_set [sel_simps]:
  "sel_within U a \<Longrightarrow> sel_within U b \<Longrightarrow> sel_set U (sel_union a b) = sel_set U a \<union> sel_set U b"
  by (cases a; cases b) auto

lemma intersect_set [sel_simps]:
  "sel_within U a \<Longrightarrow> sel_within U b \<Longrightarrow> sel_set U (sel_intersect a b) = sel_set U a \<inter> sel_set U b"
  by (cases a; cases b) auto

lemma complement_set [sel_simps]: "sel_set U (complement U a) = U - sel_set U a"
  by (cases a) auto

lemma difference_set [sel_simps]:
  "sel_within U a \<Longrightarrow> sel_set U (sel_difference U a b) = sel_set U a - sel_set U b"
  by (cases a; cases b) auto

lemma restrict_set [sel_simps]: "sel_set U (restrict_to U a) = sel_set U a \<inter> U"
  by (cases a) auto

lemmas sel_set_ops = union_set intersect_set complement_set difference_set restrict_set

lemma sel_wf_ops [simp, intro]:
  "sel_wf a \<Longrightarrow> sel_wf b \<Longrightarrow> sel_wf (sel_union a b)"
  "sel_wf a \<Longrightarrow> sel_wf b \<Longrightarrow> sel_wf (sel_intersect a b)"
  "sel_wf (complement U a)"
  "sel_wf a \<Longrightarrow> sel_wf (sel_difference U a b)"
  "sel_wf (restrict_to U a)"
  by (cases a; cases b; simp)+

lemma sel_within_ops [simp, intro]:
  "sel_within U a \<Longrightarrow> sel_within U b \<Longrightarrow> sel_within U (sel_union a b)"
  "sel_within U a \<Longrightarrow> sel_within U b \<Longrightarrow> sel_within U (sel_intersect a b)"
  "sel_within U (complement U a)"
  "sel_within U a \<Longrightarrow> sel_within U (sel_difference U a b)"
  "sel_within U (restrict_to U a)"
  by (cases a; cases b; auto)+



text \<open>
  \<open>fires_over\<close> holds exactly when the selection denotes at least one partition of the
  universe; \<open>All\<close> over an empty universe does not fire, although \<open>to_bool\<close> of it holds.
\<close>

theorem fires_over_iff: "fires_over U s \<longleftrightarrow> sel_set U s \<noteq> {}"
  by (cases s) auto

text \<open>
  The interface the condition evaluator uses: a carrier of selections with saturation
  tests that agree with the operations, so that stopping early cannot change a result.
\<close>

locale selection_algebra =
  fixes bot :: "'s" and top :: "'s"
    and join_op :: "'s \<Rightarrow> 's \<Rightarrow> 's" and meet_op :: "'s \<Rightarrow> 's \<Rightarrow> 's"
    and holds :: "'s \<Rightarrow> bool" and full :: "'s \<Rightarrow> bool" and valid :: "'s \<Rightarrow> bool"
  assumes valid_bot: "valid bot" and valid_top: "valid top"
    and valid_join: "valid a \<Longrightarrow> valid b \<Longrightarrow> valid (join_op a b)"
    and valid_meet: "valid a \<Longrightarrow> valid b \<Longrightarrow> valid (meet_op a b)"
    and join_full: "full a \<Longrightarrow> valid a \<Longrightarrow> join_op a b = a"
    and meet_failed: "\<not> holds a \<Longrightarrow> valid a \<Longrightarrow> meet_op a b = a"
begin

lemma fold_join_full: "full a \<Longrightarrow> valid a \<Longrightarrow> foldl join_op a bs = a"
  by (induction bs) (simp_all add: join_full)

lemma fold_meet_failed: "\<not> holds a \<Longrightarrow> valid a \<Longrightarrow> foldl meet_op a bs = a"
  by (induction bs) (simp_all add: meet_failed)

lemma valid_fold_join: "valid a \<Longrightarrow> \<forall>b\<in>set bs. valid b \<Longrightarrow> valid (foldl join_op a bs)"
  by (induction bs arbitrary: a) (simp_all add: valid_join)

lemma valid_fold_meet: "valid a \<Longrightarrow> \<forall>b\<in>set bs. valid b \<Longrightarrow> valid (foldl meet_op a bs)"
  by (induction bs arbitrary: a) (simp_all add: valid_meet)

end

interpretation sel: selection_algebra SelEmpty SelAll sel_union sel_intersect sel_to_bool sel_is_all sel_wf
proof unfold_locales
  show "sel_is_all a \<Longrightarrow> sel_wf a \<Longrightarrow> sel_union a b = a" for a b :: "'a selection"
    by (cases a) auto
  show "\<not> sel_to_bool a \<Longrightarrow> sel_wf a \<Longrightarrow> sel_intersect a b = a" for a b :: "'a selection"
    by (cases a) (auto simp: sel_to_bool_def)
qed auto

interpretation flag: selection_algebra False True "(\<or>)" "(\<and>)" "\<lambda>b. b" "\<lambda>b. b" "\<lambda>_. True"
  by unfold_locales auto

end
