(* ===== verification/Time_Grids.thy ===== *)
theory Time_Grids
  imports Prelude
begin

text \<open>
  Time-window grids (\<open>rivers-core/src/timegrid.rs\<close>, and the key parser of
  \<open>util.rs\<close>): the keys of a time-partitioned asset are the starts of its windows, either
  every \<open>interval\<close> from \<open>start\<close> or at the occurrences of a cron schedule.

  A civil datetime is its number of nanoseconds on an arbitrary but fixed time line. The
  calendar and cron libraries (jiff, croner) are the parameters gathered in \<open>time_lib\<close>:
  the range of representable datetimes, formatting, the broken-down-time parser, the cron
  parser, and the finite sequence of occurrences an iterator of a cron schedule yields
  from a datetime, forwards or backwards. The field \<open>tg_interval_ns\<close> is the value of the
  code's \<open>(secs * 1_000_000_000.0) as i64\<close>.
\<close>

record ('b, 'c) time_lib =
  dt_min :: int
  dt_max :: int
  strftime :: "string \<Rightarrow> int \<Rightarrow> string"
  bdt_parse :: "string \<Rightarrow> string \<Rightarrow> 'b option"
  bdt_timestamp :: "'b \<Rightarrow> int option"
  bdt_to_datetime :: "'b \<Rightarrow> int option"
  bdt_month :: "'b \<Rightarrow> nat option"
  bdt_day :: "'b \<Rightarrow> nat option"
  bdt_set_month :: "nat \<Rightarrow> 'b \<Rightarrow> 'b option"
  bdt_set_day :: "nat \<Rightarrow> 'b \<Rightarrow> 'b option"
  cron_parse :: "string \<Rightarrow> 'c option"
  cron_ticks :: "'c \<Rightarrow> int \<Rightarrow> bool \<Rightarrow> int list"
  now_dt :: int

record time_grid =
  tg_cron_schedule :: "string option"
  tg_interval_ns :: "int option"
  tg_start :: int
  tg_end :: "int option"
  tg_fmt :: string

datatype grid_error =
    InvalidKey | NonPositiveInterval | OffsetOverflow | OutOfRange | InvalidCron | NoSchedule

definition fits_i64 :: "int \<Rightarrow> bool" where
  "fits_i64 n \<longleftrightarrow> - (2 ^ 63) \<le> n \<and> n < 2 ^ 63"

definition wrap_i64 :: "int \<Rightarrow> int" where
  "wrap_i64 n = (n + 2 ^ 63) mod 2 ^ 64 - 2 ^ 63"

definition checked_mul_i64 :: "int \<Rightarrow> int \<Rightarrow> int option" where
  "checked_mul_i64 a b = (if fits_i64 (a * b) then Some (a * b) else None)"

definition checked_add_dt :: "('b, 'c) time_lib \<Rightarrow> int \<Rightarrow> int \<Rightarrow> int option" where
  "checked_add_dt L t d = (if dt_min L \<le> t + d \<and> t + d \<le> dt_max L then Some (t + d) else None)"

definition nanos_between :: "int \<Rightarrow> int \<Rightarrow> int option" where
  "nanos_between s t = (if fits_i64 (t - s) then Some (t - s) else None)"

definition end_bound :: "('b, 'c) time_lib \<Rightarrow> time_grid \<Rightarrow> int" where
  "end_bound L g = (case tg_end g of Some e \<Rightarrow> e | None \<Rightarrow> now_dt L)"

text \<open>
  \<open>parse_key_datetime\<close>: a format that pins an instant wins, then a complete date; only
  when the calendar fields are short are month and day defaulted.
\<close>

definition parse_key_datetime :: "('b, 'c) time_lib \<Rightarrow> string \<Rightarrow> string \<Rightarrow> int option" where
  "parse_key_datetime L key fmt =
     (case bdt_parse L fmt key of
        None \<Rightarrow> None
      | Some tm \<Rightarrow>
         (case bdt_timestamp L tm of
            Some ts \<Rightarrow> Some ts
          | None \<Rightarrow>
             (case bdt_to_datetime L tm of
                Some dt \<Rightarrow> Some dt
              | None \<Rightarrow>
                  Option.bind (if bdt_month L tm = None then bdt_set_month L 1 tm else Some tm) (\<lambda>tm1.
                  Option.bind (if bdt_day L tm1 = None then bdt_set_day L 1 tm1 else Some tm1) (\<lambda>tm2.
                  bdt_to_datetime L tm2)))))"

definition cron_tick_civil :: "int \<Rightarrow> int" where
  "cron_tick_civil t = t - t mod 1000000000"

text \<open>The loop that counts occurrences other than the start itself.\<close>

fun nth_other_tick :: "int \<Rightarrow> nat \<Rightarrow> int list \<Rightarrow> int option" where
  "nth_other_tick dt remaining [] = None"
| "nth_other_tick dt remaining (tick # ticks) =
     (if tick = dt then nth_other_tick dt remaining ticks
      else if remaining - 1 = 0 then Some tick
      else nth_other_tick dt (remaining - 1) ticks)"

definition shift_key :: "('b, 'c) time_lib \<Rightarrow> time_grid \<Rightarrow> string \<Rightarrow> int \<Rightarrow> grid_error + string" where
  "shift_key L g key offset =
     (case parse_key_datetime L key (tg_fmt g) of
        None \<Rightarrow> Inl InvalidKey
      | Some dt \<Rightarrow>
         if offset = 0 then Inr key
         else
           let end_dt = end_bound L g;
               shifted =
                 (case tg_interval_ns g of
                    Some interval_ns \<Rightarrow>
                      if interval_ns \<le> 0 then Inl NonPositiveInterval
                      else (case checked_mul_i64 interval_ns offset of
                              None \<Rightarrow> Inl OffsetOverflow
                            | Some total_ns \<Rightarrow>
                                (case checked_add_dt L dt total_ns of
                                   None \<Rightarrow> Inl OutOfRange
                                 | Some t \<Rightarrow> Inr t))
                  | None \<Rightarrow>
                     (case tg_cron_schedule g of
                        Some expr \<Rightarrow>
                          (case cron_parse L expr of
                             None \<Rightarrow> Inl InvalidCron
                           | Some cron \<Rightarrow>
                               (case nth_other_tick dt (nat \<bar>offset\<bar>) (cron_ticks L cron dt (0 < offset)) of
                                  None \<Rightarrow> Inl OutOfRange
                                | Some t \<Rightarrow> Inr t))
                      | None \<Rightarrow> Inl NoSchedule))
           in case shifted of
                Inl e \<Rightarrow> Inl e
              | Inr t \<Rightarrow> if t < tg_start g \<or> end_dt \<le> t then Inl OutOfRange
                         else Inr (strftime L (tg_fmt g) t))"

text \<open>
  The walk over the interval grid: \<open>while t <= to\<close> (inclusive) or \<open>while t < to\<close>,
  stopping when the next datetime is not representable.
\<close>

function grid_walk :: "('b, 'c) time_lib \<Rightarrow> bool \<Rightarrow> int \<Rightarrow> int \<Rightarrow> int \<Rightarrow> int list" where
  "grid_walk L incl step to t =
     (if 0 < step \<and> (if incl then t \<le> to else t < to)
      then t # (case checked_add_dt L t step of
                  Some t' \<Rightarrow> grid_walk L incl step to t'
                | None \<Rightarrow> [])
      else [])"
  by pat_completeness auto
termination
  by (relation "measure (\<lambda>(L, incl, step, to, t). nat (to - t + 1))")
    (auto simp: checked_add_dt_def split: if_splits)

declare grid_walk.simps [simp del]

text \<open>The loop over cron occurrences: skip those before \<open>from\<close>, stop past \<open>to\<close>.\<close>

fun cron_walk :: "bool \<Rightarrow> int \<Rightarrow> int \<Rightarrow> int list \<Rightarrow> int list" where
  "cron_walk incl fro to [] = []"
| "cron_walk incl fro to (tick # ticks) =
     (let t = cron_tick_civil tick
      in if t < fro then cron_walk incl fro to ticks
         else if (if incl then to < t else to \<le> t) then []
         else t # cron_walk incl fro to ticks)"

definition cron_from :: "('b, 'c) time_lib \<Rightarrow> 'c \<Rightarrow> int \<Rightarrow> int list" where
  "cron_from L cron fro =
     cron_ticks L cron (case checked_add_dt L fro (- 1000000000) of Some a \<Rightarrow> a | None \<Rightarrow> fro) True"

text \<open>The first grid point of the inclusive walk: \<open>from\<close> snapped up to the grid.\<close>

definition snap_up :: "('b, 'c) time_lib \<Rightarrow> int \<Rightarrow> int \<Rightarrow> int \<Rightarrow> int option" where
  "snap_up L start interval_ns fro =
     (if fro \<le> start then Some start
      else let offset_ns = (case nanos_between start fro of Some n \<Rightarrow> n | None \<Rightarrow> 0);
               rem = offset_ns mod interval_ns
           in if rem = 0 then Some fro
              else checked_add_dt L start (wrap_i64 (offset_ns - rem + interval_ns)))"

definition keys_in_range :: "('b, 'c) time_lib \<Rightarrow> time_grid \<Rightarrow> int \<Rightarrow> int \<Rightarrow> grid_error + string list" where
  "keys_in_range L g fro to =
     (if to < fro then Inr []
      else case tg_interval_ns g of
        Some interval_ns \<Rightarrow>
          if interval_ns \<le> 0 then Inl NonPositiveInterval
          else (case snap_up L (tg_start g) interval_ns fro of
                  None \<Rightarrow> Inr []
                | Some t \<Rightarrow> Inr (map (strftime L (tg_fmt g)) (grid_walk L True interval_ns to t)))
      | None \<Rightarrow>
         (case tg_cron_schedule g of
            Some expr \<Rightarrow>
              (case cron_parse L expr of
                 None \<Rightarrow> Inl InvalidCron
               | Some cron \<Rightarrow> Inr (map (strftime L (tg_fmt g)) (cron_walk True fro to (cron_from L cron fro))))
          | None \<Rightarrow> Inl NoSchedule))"

definition first_window :: "('b, 'c) time_lib \<Rightarrow> int \<Rightarrow> int \<Rightarrow> int \<Rightarrow> int option" where
  "first_window L start interval_ns fro =
     Option.bind (nanos_between start fro) (\<lambda>offset_ns.
       let first_idx = offset_ns div interval_ns + (if offset_ns mod interval_ns = 0 then 0 else 1)
       in Option.bind (checked_mul_i64 first_idx interval_ns) (checked_add_dt L start))"

definition window_starts_in :: "('b, 'c) time_lib \<Rightarrow> time_grid \<Rightarrow> int \<Rightarrow> int \<Rightarrow> grid_error + string list" where
  "window_starts_in L g from0 to0 =
     (let fro = max from0 (tg_start g); to = min to0 (end_bound L g)
      in if to \<le> fro then Inr []
         else case tg_interval_ns g of
           Some interval_ns \<Rightarrow>
             if interval_ns \<le> 0 then Inl NonPositiveInterval
             else (case first_window L (tg_start g) interval_ns fro of
                     None \<Rightarrow> Inr []
                   | Some t \<Rightarrow> Inr (map (strftime L (tg_fmt g)) (grid_walk L False interval_ns to t)))
         | None \<Rightarrow>
            (case tg_cron_schedule g of
               Some expr \<Rightarrow>
                 (case cron_parse L expr of
                    None \<Rightarrow> Inl InvalidCron
                  | Some cron \<Rightarrow> Inr (map (strftime L (tg_fmt g)) (cron_walk False fro to (cron_from L cron fro))))
             | None \<Rightarrow> Inl NoSchedule))"

definition grid_tick :: "('b, 'c) time_lib \<Rightarrow> int \<Rightarrow> int \<Rightarrow> int \<Rightarrow> int option" where
  "grid_tick L start interval_ns idx =
     Option.bind (checked_mul_i64 idx interval_ns) (checked_add_dt L start)"

definition opt_filter :: "('a \<Rightarrow> bool) \<Rightarrow> 'a option \<Rightarrow> 'a option" where
  "opt_filter P x = (case x of Some a \<Rightarrow> if P a then Some a else None | None \<Rightarrow> None)"

definition nearest_ticks :: "('b, 'c) time_lib \<Rightarrow> time_grid \<Rightarrow> int \<Rightarrow> int option \<times> int option" where
  "nearest_ticks L g dt =
     (let end_dt = end_bound L g
      in case tg_interval_ns g of
        Some interval_ns \<Rightarrow>
          if interval_ns \<le> 0 then (None, None)
          else
            (Option.bind (opt_filter (\<lambda>cap. tg_start g \<le> cap)
                            (map_option (\<lambda>l. min dt l) (checked_add_dt L end_dt (- 1)))) (\<lambda>cap.
             Option.bind (nanos_between (tg_start g) cap) (\<lambda>ns.
             grid_tick L (tg_start g) interval_ns (ns div interval_ns))),
             opt_filter (\<lambda>t. t < end_dt)
               (if dt < tg_start g then Some (tg_start g)
                else Option.bind (nanos_between (tg_start g) dt) (\<lambda>ns.
                     Option.bind (if fits_i64 (ns div interval_ns + 1)
                                  then Some (ns div interval_ns + 1) else None)
                       (grid_tick L (tg_start g) interval_ns))))
      | None \<Rightarrow>
         (case tg_cron_schedule g of
            Some expr \<Rightarrow>
              (case cron_parse L expr of
                 None \<Rightarrow> (None, None)
               | Some cron \<Rightarrow>
                   (opt_filter (\<lambda>t. tg_start g \<le> t)
                      (find (\<lambda>t. t \<le> dt \<and> t < end_dt)
                        (map cron_tick_civil (cron_ticks L cron (min dt end_dt) False))),
                    opt_filter (\<lambda>t. t < end_dt)
                      (find (\<lambda>t. dt < t)
                        (map cron_tick_civil (cron_ticks L cron (max dt (tg_start g)) True)))))
          | None \<Rightarrow> (None, None)))"

definition nearest_keys :: "('b, 'c) time_lib \<Rightarrow> time_grid \<Rightarrow> int \<Rightarrow> string option \<times> string option" where
  "nearest_keys L g dt =
     map_prod (map_option (strftime L (tg_fmt g))) (map_option (strftime L (tg_fmt g))) (nearest_ticks L g dt)"

section \<open>The interval grid\<close>

text \<open>
  The points of an interval grid are \<open>start\<close> and every whole number of intervals after
  it. \<open>wf_interval_grid\<close> collects what the exactness results need: a positive interval,
  a start and an end the calendar can represent, and a range of less than \<open>2 ^ 63\<close>
  nanoseconds (292 years), so that the code's \<open>i64\<close> offsets are exact.
\<close>

definition on_grid :: "int \<Rightarrow> int \<Rightarrow> int \<Rightarrow> bool" where
  "on_grid start i t \<longleftrightarrow> start \<le> t \<and> i dvd (t - start)"

definition wf_interval_grid :: "('b, 'c) time_lib \<Rightarrow> time_grid \<Rightarrow> int \<Rightarrow> bool" where
  "wf_interval_grid L g i \<longleftrightarrow>
     tg_interval_ns g = Some i \<and> 0 < i \<and> dt_min L \<le> tg_start g \<and>
     end_bound L g \<le> dt_max L \<and> fits_i64 (end_bound L g - tg_start g)"

lemma grid_step_split:
  assumes "0 < i"
  shows "(t \<le> u \<and> i dvd (u - t)) \<longleftrightarrow> u = t \<or> (t + i \<le> u \<and> i dvd (u - (t + i) :: int))"
proof -
  have eq: "i dvd (u - (t + i)) \<longleftrightarrow> i dvd (u - t)"
    using dvd_diff_left_iff [of i i "u - t"] by (simp add: algebra_simps)
  have "u = t" if "t \<le> u" "u < t + i" "i dvd (u - t)"
    using that zdvd_imp_le [of i "u - t"] by force
  then show ?thesis
    by (cases "t + i \<le> u") (use assms eq in auto)
qed

lemma grid_walk_spec:
  assumes "0 < i" and "to \<le> dt_max L" and "dt_min L \<le> t"
  shows "sorted_wrt (<) (grid_walk L incl i to t) \<and>
         set (grid_walk L incl i to t) =
           {u. t \<le> u \<and> i dvd (u - t) \<and> (if incl then u \<le> to else u < to)}"
  using assms(3)
proof (induction "nat (to - t + 1)" arbitrary: t rule: less_induct)
  case less
  let ?ok = "\<lambda>u. if incl then u \<le> to else u < to"
  show ?case
  proof (cases "?ok t")
    case False
    then have "grid_walk L incl i to t = []" by (subst grid_walk.simps) simp
    moreover have "\<not> (t \<le> u \<and> ?ok u)" for u using False by (auto split: if_splits)
    ultimately show ?thesis by auto
  next
    case True
    show ?thesis
    proof (cases "t + i \<le> dt_max L")
      case next_ok: True
      then have nxt: "checked_add_dt L t i = Some (t + i)"
        using less.prems assms(1) by (simp add: checked_add_dt_def)
      have walk: "grid_walk L incl i to t = t # grid_walk L incl i to (t + i)"
        using True assms(1) by (subst grid_walk.simps) (simp add: nxt)
      have shrink: "nat (to - (t + i) + 1) < nat (to - t + 1)"
        using True assms(1) by (simp split: if_splits)
      have IH: "sorted_wrt (<) (grid_walk L incl i to (t + i))"
        "set (grid_walk L incl i to (t + i)) = {u. t + i \<le> u \<and> i dvd (u - (t + i)) \<and> ?ok u}"
        using less.hyps [OF shrink] less.prems assms(1) by simp_all
      have "{u. t \<le> u \<and> i dvd (u - t) \<and> ?ok u} =
            insert t {u. t + i \<le> u \<and> i dvd (u - (t + i)) \<and> ?ok u}"
        unfolding set_eq_iff mem_Collect_eq insert_iff
        using grid_step_split [OF assms(1), of t] True by blast
      moreover have "\<forall>u\<in>set (grid_walk L incl i to (t + i)). t < u"
        unfolding IH(2) using assms(1) by simp
      ultimately show ?thesis using IH unfolding walk by simp
    next
      case no_next: False
      then have walk: "grid_walk L incl i to t = [t]"
        using True assms(1) by (subst grid_walk.simps) (simp add: checked_add_dt_def)
      have "\<not> (t + i \<le> u \<and> ?ok u)" for u
        using no_next assms(2) by (auto split: if_splits)
      then have "{u. t \<le> u \<and> i dvd (u - t) \<and> ?ok u} = {t}"
        unfolding set_eq_iff mem_Collect_eq singleton_iff
        using grid_step_split [OF assms(1), of t] True by blast
      then show ?thesis by (simp add: walk)
    qed
  qed
qed

lemma dvd_nonneg: "0 \<le> d" if "i dvd d" "- i < (d :: int)"
  using that zdvd_not_zless [of "- d" i] by force

lemma ceil_mult:
  fixes i off :: int
  assumes "0 < i"
  defines "m \<equiv> (off div i + (if off mod i = 0 then 0 else 1)) * i"
  shows "off \<le> m" and "m < off + i" and "i dvd m"
proof -
  define q r where "q = off div i" and "r = off mod i"
  have off: "off = q * i + r" and r: "0 \<le> r" "r < i"
    using assms(1) by (simp_all add: q_def r_def)
  have m: "m = q * i + (if r = 0 then 0 else i)"
    by (simp add: m_def q_def r_def distrib_right)
  show "off \<le> m" and "m < off + i" unfolding off m using r by auto
qed (simp add: m_def)

lemma first_window_cases:
  assumes "0 < i" "start \<le> fro" "fro < to" "to \<le> dt_max L" "dt_min L \<le> start" "fits_i64 (to - start)"
  shows "case first_window L start i fro of
           Some t \<Rightarrow> fro \<le> t \<and> on_grid start i t \<and> (\<forall>u. on_grid start i u \<and> fro \<le> u \<longrightarrow> t \<le> u)
         | None \<Rightarrow> \<forall>u. \<not> (on_grid start i u \<and> fro \<le> u \<and> u < to)"
proof -
  let ?o = "fro - start"
  let ?m = "(?o div i + (if ?o mod i = 0 then 0 else 1)) * i"
  note m = ceil_mult [OF assms(1), of ?o]
  have fits: "fits_i64 ?o" using assms by (simp add: fits_i64_def)
  have least: "start + ?m \<le> u" if "on_grid start i u" "fro \<le> u" for u
  proof -
    have "i dvd (u - start - ?m)" using that(1) m(3) by (simp add: on_grid_def)
    moreover have "- i < u - start - ?m" using that(2) m(2) by linarith
    ultimately show ?thesis using dvd_nonneg by force
  qed
  have on: "fro \<le> start + ?m" "on_grid start i (start + ?m)"
    using m(1,3) assms(2) by (auto simp: on_grid_def)
  show ?thesis
  proof (cases "fits_i64 ?m \<and> start + ?m \<le> dt_max L")
    case True
    then have "first_window L start i fro = Some (start + ?m)"
      using fits on assms(2,5)
      by (auto simp: first_window_def nanos_between_def checked_mul_i64_def checked_add_dt_def Let_def)
    then show ?thesis using least on by simp
  next
    case False
    have "first_window L start i fro = None"
      using fits False by (auto simp: first_window_def nanos_between_def checked_mul_i64_def checked_add_dt_def Let_def)
    moreover have "to \<le> start + ?m"
    proof (cases "fits_i64 ?m")
      case True
      with False assms(4) show ?thesis by simp
    next
      case False
      with m(1) assms(2,6) show ?thesis by (auto simp: fits_i64_def)
    qed
    ultimately show ?thesis using least by force
  qed
qed

lemma on_grid_shift: "on_grid start i t \<Longrightarrow> (t \<le> u \<and> i dvd (u - t)) \<longleftrightarrow> (t \<le> u \<and> on_grid start i u)"
  using dvd_add_right_iff [of i "t - start" "u - t"] by (auto simp: on_grid_def)

lemma window_starts_spec:
  assumes wf: "wf_interval_grid L g i"
  shows "\<exists>ts. window_starts_in L g a b = Inr (map (strftime L (tg_fmt g)) ts) \<and> sorted_wrt (<) ts \<and>
           set ts = {t. a \<le> t \<and> t < b \<and> on_grid (tg_start g) i t \<and> t < end_bound L g}"
proof -
  let ?fro = "max a (tg_start g)" and ?to = "min b (end_bound L g)"
  let ?S = "{t. a \<le> t \<and> t < b \<and> on_grid (tg_start g) i t \<and> t < end_bound L g}"
  have i: "tg_interval_ns g = Some i" "0 < i" using wf by (auto simp: wf_interval_grid_def)
  have S: "?S = {t. on_grid (tg_start g) i t \<and> ?fro \<le> t \<and> t < ?to}"
    by (auto simp: on_grid_def)
  show ?thesis
  proof (cases "?to \<le> ?fro")
    case True
    then have "window_starts_in L g a b = Inr []" by (simp add: window_starts_in_def Let_def)
    moreover have "?S = {}" unfolding S using True by auto
    ultimately show ?thesis by (intro exI [of _ "[]"]) auto
  next
    case False
    have to: "?to \<le> dt_max L" "fits_i64 (?to - tg_start g)" "dt_min L \<le> tg_start g"
      using wf False by (auto simp: wf_interval_grid_def fits_i64_def)
    have fw: "case first_window L (tg_start g) i ?fro of
        Some t \<Rightarrow> ?fro \<le> t \<and> on_grid (tg_start g) i t \<and> (\<forall>u. on_grid (tg_start g) i u \<and> ?fro \<le> u \<longrightarrow> t \<le> u)
      | None \<Rightarrow> \<forall>u. \<not> (on_grid (tg_start g) i u \<and> ?fro \<le> u \<and> u < ?to)"
      using False to i(2) by (intro first_window_cases) auto
    show ?thesis
    proof (cases "first_window L (tg_start g) i ?fro")
      case None
      then have "window_starts_in L g a b = Inr []"
        using False i by (simp add: window_starts_in_def Let_def)
      moreover have "?S = {}" unfolding S using fw None by auto
      ultimately show ?thesis by (intro exI [of _ "[]"]) auto
    next
      case (Some t)
      let ?ts = "grid_walk L False i ?to t"
      have "window_starts_in L g a b = Inr (map (strftime L (tg_fmt g)) ?ts)"
        using False i Some by (simp add: window_starts_in_def Let_def)
      moreover have t: "?fro \<le> t" "on_grid (tg_start g) i t" "\<forall>u. on_grid (tg_start g) i u \<and> ?fro \<le> u \<longrightarrow> t \<le> u"
        using fw Some by simp_all
      moreover have "sorted_wrt (<) ?ts" and set_ts: "set ?ts = {u. t \<le> u \<and> i dvd (u - t) \<and> u < ?to}"
        using grid_walk_spec [OF i(2) to(1), of t False] to(3) t(2) by (auto simp: on_grid_def)
      moreover have "set ?ts = ?S"
        unfolding S set_ts using t on_grid_shift [OF t(2)] by (auto intro: order_trans)
      ultimately show ?thesis by blast
    qed
  qed
qed

text \<open>
  A calendar to evaluate on: datetimes are the numbers from 0 to 1000 and a key is written
  in unary.
\<close>

definition unary_lib :: "(int, unit) time_lib" where
  "unary_lib = \<lparr>dt_min = 0, dt_max = 1000, strftime = \<lambda>_ t. replicate (nat t) CHR ''x'',
     bdt_parse = \<lambda>_ k. Some (int (length k)), bdt_timestamp = Some, bdt_to_datetime = \<lambda>_. None,
     bdt_month = \<lambda>_. None, bdt_day = \<lambda>_. None, bdt_set_month = \<lambda>_. Some, bdt_set_day = \<lambda>_. Some,
     cron_parse = \<lambda>_. None, cron_ticks = \<lambda>_ _ _. [], now_dt = 900\<rparr>"

definition unary_grid :: time_grid where
  "unary_grid = \<lparr>tg_cron_schedule = None, tg_interval_ns = Some 2, tg_start = 1, tg_end = Some 10, tg_fmt = ''%x''\<rparr>"

lemma unary_wf: "wf_interval_grid unary_lib unary_grid 2"
  by (simp add: wf_interval_grid_def unary_grid_def unary_lib_def end_bound_def fits_i64_def)

text \<open>
  \<open>window_starts_in\<close> enumerates, in increasing order, exactly the windows of an interval
  grid that start in the half-open range and before the grid's end.
\<close>

theorem window_starts_exact:
  assumes "wf_interval_grid L g i"
  shows "\<exists>ts. window_starts_in L g a b = Inr (map (strftime L (tg_fmt g)) ts) \<and> sorted_wrt (<) ts \<and>
           set ts = {t. a \<le> t \<and> t < b \<and> on_grid (tg_start g) i t \<and> t < end_bound L g}"
  using assms by (rule window_starts_spec)

theorem window_starts_exact_witness:
  "\<exists>ts. window_starts_in unary_lib unary_grid 2 100 =
       Inr (map (strftime unary_lib (tg_fmt unary_grid)) ts) \<and> sorted_wrt (<) ts \<and>
       set ts = {t. 2 \<le> t \<and> t < 100 \<and> on_grid (tg_start unary_grid) 2 t \<and> t < end_bound unary_lib unary_grid}"
  by (rule window_starts_exact) (rule unary_wf)

lemma strict_sorted_append:
  "sorted_wrt (<) xs \<Longrightarrow> sorted_wrt (<) ys \<Longrightarrow> (\<And>x y. x \<in> set xs \<Longrightarrow> y \<in> set ys \<Longrightarrow> x < y) \<Longrightarrow>
   sorted_wrt (<) (xs @ ys)"
  by (auto simp: sorted_wrt_append)

text \<open>
  enumerating a range in two steps gives the same windows, in the same order, as
  enumerating it at once. This is what lets the daemon advance a partition universe from
  the point it had reached on the previous tick.
\<close>

theorem window_starts_split:
  assumes "wf_interval_grid L g i" and "a \<le> b" and "b \<le> c"
  shows "\<exists>xs ys. window_starts_in L g a b = Inr xs \<and> window_starts_in L g b c = Inr ys \<and>
           window_starts_in L g a c = Inr (xs @ ys)"
proof -
  obtain t1 t2 t3 where
    1: "window_starts_in L g a b = Inr (map (strftime L (tg_fmt g)) t1)" "sorted_wrt (<) t1"
      "set t1 = {t. a \<le> t \<and> t < b \<and> on_grid (tg_start g) i t \<and> t < end_bound L g}" and
    2: "window_starts_in L g b c = Inr (map (strftime L (tg_fmt g)) t2)" "sorted_wrt (<) t2"
      "set t2 = {t. b \<le> t \<and> t < c \<and> on_grid (tg_start g) i t \<and> t < end_bound L g}" and
    3: "window_starts_in L g a c = Inr (map (strftime L (tg_fmt g)) t3)" "sorted_wrt (<) t3"
      "set t3 = {t. a \<le> t \<and> t < c \<and> on_grid (tg_start g) i t \<and> t < end_bound L g}"
    using window_starts_spec [OF assms(1), of a b] window_starts_spec [OF assms(1), of b c]
      window_starts_spec [OF assms(1), of a c] by blast
  have "sorted_wrt (<) (t1 @ t2)"
    by (rule strict_sorted_append) (auto simp: 1 2)
  moreover have "set (t1 @ t2) = set t3" using assms(2,3) by (auto simp: 1 2 3)
  ultimately have "t3 = t1 @ t2" using 3(2) by (intro strict_sorted_equal) auto
  then show ?thesis using 1(1) 2(1) 3(1) by auto
qed

theorem window_starts_split_witness:
  "\<exists>xs ys. window_starts_in unary_lib unary_grid 0 4 = Inr xs \<and> window_starts_in unary_lib unary_grid 4 9 = Inr ys \<and>
     window_starts_in unary_lib unary_grid 0 9 = Inr (xs @ ys)"
  by (rule window_starts_split [OF unary_wf]) simp_all

section \<open>The inclusive range\<close>

lemma wrap_i64_id: "fits_i64 n \<Longrightarrow> wrap_i64 n = n"
  by (simp add: fits_i64_def wrap_i64_def)

lemma snap_up_spec:
  assumes "0 < i" and "dt_min L \<le> start" and "to \<le> dt_max L" and "fro \<le> to" and "fits_i64 (to - start + i)"
    and "fro \<le> start \<or> fits_i64 (fro - start)"
  shows "case snap_up L start i fro of
           Some t \<Rightarrow> on_grid start i t \<and> fro \<le> t \<and> (\<forall>u. on_grid start i u \<and> fro \<le> u \<longrightarrow> t \<le> u)
         | None \<Rightarrow> \<forall>u. \<not> (on_grid start i u \<and> fro \<le> u \<and> u \<le> to)"
proof (cases "fro \<le> start")
  case True
  then show ?thesis by (simp add: snap_up_def on_grid_def)
next
  case False
  let ?o = "fro - start"
  let ?m = "(?o div i + (if ?o mod i = 0 then 0 else 1)) * i"
  note m = ceil_mult [OF assms(1), of ?o]
  have o: "nanos_between start fro = Some ?o" using False assms(6) by (simp add: nanos_between_def)
  have eq: "?m = (if ?o mod i = 0 then ?o else ?o - ?o mod i + i)"
    using minus_mod_eq_div_mult [of ?o i] by (simp add: distrib_right)
  have least: "start + ?m \<le> u" if "on_grid start i u" "fro \<le> u" for u
  proof -
    have "i dvd (u - start - ?m)" using that(1) m(3) by (simp add: on_grid_def)
    moreover have "- i < u - start - ?m" using that(2) m(2) by linarith
    ultimately show ?thesis using dvd_nonneg by force
  qed
  have on: "fro \<le> start + ?m" "on_grid start i (start + ?m)"
    using m(1,3) False by (auto simp: on_grid_def)
  have wrap: "wrap_i64 (?o - ?o mod i + i) = ?o - ?o mod i + i"
    using assms(1,4,5) False pos_mod_bound [OF assms(1), of ?o] pos_mod_sign [OF assms(1), of ?o]
    by (intro wrap_i64_id) (auto simp: fits_i64_def)
  show ?thesis
  proof (cases "?o mod i = 0 \<or> start + ?m \<le> dt_max L")
    case True
    then have "snap_up L start i fro = Some (start + ?m)"
      using False assms(2) on(1) eq wrap o
      by (cases "?o mod i = 0") (simp_all add: snap_up_def Let_def checked_add_dt_def)
    then show ?thesis using least on by simp
  next
    case no: False
    then have "snap_up L start i fro = None"
      using False eq wrap o
      by (cases "?o mod i = 0") (simp_all add: snap_up_def Let_def checked_add_dt_def)
    then show ?thesis using least no assms(3) by force
  qed
qed

lemma keys_in_range_spec:
  assumes "tg_interval_ns g = Some i" and "0 < i" and "dt_min L \<le> tg_start g" and "to \<le> dt_max L"
    and "fits_i64 (to - tg_start g + i)"
  shows "\<exists>ts. keys_in_range L g fro to = Inr (map (strftime L (tg_fmt g)) ts) \<and> sorted_wrt (<) ts \<and>
           set ts = {t. fro \<le> t \<and> t \<le> to \<and> on_grid (tg_start g) i t}"
proof (cases "to < fro")
  case True
  then show ?thesis by (intro exI [of _ "[]"]) (auto simp: keys_in_range_def)
next
  case False
  have "fro \<le> tg_start g \<or> fits_i64 (fro - tg_start g)"
    using assms(2,5) False by (auto simp: fits_i64_def)
  then have sn: "case snap_up L (tg_start g) i fro of
      Some t \<Rightarrow> on_grid (tg_start g) i t \<and> fro \<le> t \<and> (\<forall>u. on_grid (tg_start g) i u \<and> fro \<le> u \<longrightarrow> t \<le> u)
    | None \<Rightarrow> \<forall>u. \<not> (on_grid (tg_start g) i u \<and> fro \<le> u \<and> u \<le> to)"
    using False assms by (intro snap_up_spec) auto
  show ?thesis
  proof (cases "snap_up L (tg_start g) i fro")
    case None
    then show ?thesis using sn False assms(1,2) by (intro exI [of _ "[]"]) (auto simp: keys_in_range_def)
  next
    case (Some t)
    let ?ts = "grid_walk L True i to t"
    have t: "on_grid (tg_start g) i t" "fro \<le> t" "\<forall>u. on_grid (tg_start g) i u \<and> fro \<le> u \<longrightarrow> t \<le> u"
      using sn Some by simp_all
    have walk: "sorted_wrt (<) ?ts" "set ?ts = {u. t \<le> u \<and> i dvd (u - t) \<and> u \<le> to}"
      using grid_walk_spec [OF assms(2,4), of t True] assms(3) t(1) by (auto simp: on_grid_def)
    have "set ?ts = {t. fro \<le> t \<and> t \<le> to \<and> on_grid (tg_start g) i t}"
      unfolding walk(2) using t on_grid_shift [OF t(1)] by (auto intro: order_trans)
    then show ?thesis using Some False assms(1,2) walk(1) by (auto simp: keys_in_range_def)
  qed
qed



section \<open>Nearest windows and shifting\<close>

definition grid_points :: "('b, 'c) time_lib \<Rightarrow> time_grid \<Rightarrow> int \<Rightarrow> int set" where
  "grid_points L g i = {t. on_grid (tg_start g) i t \<and> t < end_bound L g}"

lemma on_grid_diff: "on_grid start i a \<Longrightarrow> on_grid start i b \<Longrightarrow> i dvd (b - a)"
  using dvd_diff [of i "b - start" "a - start"] by (simp add: on_grid_def)

lemma floor_on_grid:
  assumes "0 < i" and "start \<le> c"
  defines "t \<equiv> start + (c - start) div i * i"
  shows "on_grid start i t" and "t \<le> c" and "on_grid start i u \<Longrightarrow> u \<le> c \<Longrightarrow> u \<le> t"
    and "c < t + i"
proof -
  have le: "(c - start) div i * i \<le> c - start" "c - start < (c - start) div i * i + i"
    using minus_mod_eq_div_mult [of "c - start" i] pos_mod_sign [OF assms(1), of "c - start"]
      pos_mod_bound [OF assms(1), of "c - start"] by linarith+
  have "0 \<le> (c - start) div i * i" using assms by (simp add: pos_imp_zdiv_nonneg_iff)
  then show on: "on_grid start i t" by (simp add: on_grid_def t_def)
  show "t \<le> c" and up: "c < t + i" using le by (simp_all add: t_def)
  show "u \<le> t" if "on_grid start i u" "u \<le> c"
  proof -
    have "i dvd (t - u)" using on that(1) by (rule on_grid_diff [rotated])
    moreover have "- i < t - u" using up that(2) by linarith
    ultimately show ?thesis using dvd_nonneg by force
  qed
qed

lemma grid_tick_fits:
  assumes "dt_min L \<le> start" and "fits_i64 (n * i)" and "0 \<le> n * i" and "start + n * i \<le> dt_max L"
  shows "grid_tick L start i n = Some (start + n * i)"
  using assms by (simp add: grid_tick_def checked_mul_i64_def checked_add_dt_def)

lemma nearest_prev:
  assumes wf: "wf_interval_grid L g i"
  shows "fst (nearest_ticks L g dt) = Some t \<longleftrightarrow>
         t \<in> grid_points L g i \<and> t \<le> dt \<and> (\<forall>u\<in>grid_points L g i. u \<le> dt \<longrightarrow> u \<le> t)"
proof -
  let ?cap = "min dt (end_bound L g - 1)"
  have i: "tg_interval_ns g = Some i" "0 < i" "dt_min L \<le> tg_start g" "end_bound L g \<le> dt_max L"
    "fits_i64 (end_bound L g - tg_start g)" using wf by (auto simp: wf_interval_grid_def)
  show ?thesis
  proof (cases "tg_start g \<le> ?cap")
    case True
    let ?n = "(?cap - tg_start g) div i"
    note fl = floor_on_grid [OF i(2) True]
    have t0: "0 \<le> ?n * i" using fl(1) by (simp add: on_grid_def)
    have "fits_i64 (?cap - tg_start g)" using i(5) True by (auto simp: fits_i64_def)
    moreover have "fits_i64 (?n * i)" using i(5) fl(2) t0 by (auto simp: fits_i64_def)
    moreover have "tg_start g + ?n * i \<le> dt_max L" using fl(2) i(4) by linarith
    ultimately have "fst (nearest_ticks L g dt) = Some (tg_start g + ?n * i)"
      using i True t0 grid_tick_fits [of L "tg_start g" ?n i]
      by (simp add: nearest_ticks_def Let_def checked_add_dt_def opt_filter_def nanos_between_def)
    moreover have "tg_start g + ?n * i \<in> grid_points L g i" using fl(1,2) by (simp add: grid_points_def)
    moreover have "u \<le> tg_start g + ?n * i" if "u \<in> grid_points L g i" "u \<le> dt" for u
      using that fl(3) by (simp add: grid_points_def)
    ultimately show ?thesis using fl(2) by (auto intro: antisym)
  next
    case False
    then have "fst (nearest_ticks L g dt) = None"
      using i by (auto simp: nearest_ticks_def Let_def checked_add_dt_def opt_filter_def)
    moreover have "\<not> (u \<in> grid_points L g i \<and> u \<le> dt)" for u
      using False by (auto simp: grid_points_def on_grid_def)
    ultimately show ?thesis by auto
  qed
qed

lemma grid_tick_cases:
  assumes "dt_min L \<le> start" and "0 \<le> n * i"
  shows "grid_tick L start i n =
         (if n * i < 2 ^ 63 \<and> start + n * i \<le> dt_max L then Some (start + n * i) else None)"
  using assms by (auto simp: grid_tick_def checked_mul_i64_def checked_add_dt_def fits_i64_def)

lemma nearest_next:
  assumes wf: "wf_interval_grid L g i"
  shows "snd (nearest_ticks L g dt) = Some t \<longleftrightarrow>
         t \<in> grid_points L g i \<and> dt < t \<and> (\<forall>u\<in>grid_points L g i. dt < u \<longrightarrow> t \<le> u)"
proof (cases "dt < tg_start g")
  case True
  then have "snd (nearest_ticks L g dt) = (if tg_start g < end_bound L g then Some (tg_start g) else None)"
    using wf by (simp add: nearest_ticks_def Let_def opt_filter_def wf_interval_grid_def)
  then show ?thesis
    using True by (auto simp: grid_points_def on_grid_def intro: antisym)
next
  case False
  have i: "tg_interval_ns g = Some i" "0 < i" "dt_min L \<le> tg_start g" "end_bound L g \<le> dt_max L"
    "fits_i64 (end_bound L g - tg_start g)" using wf by (auto simp: wf_interval_grid_def)
  let ?n = "(dt - tg_start g) div i"
  let ?t = "tg_start g + (?n + 1) * i"
  note fl = floor_on_grid [OF i(2), of "tg_start g" dt]
  have on: "on_grid (tg_start g) i ?t" "dt < ?t"
    using fl(1,4) False by (simp_all add: on_grid_def distrib_right)
  have least: "?t \<le> u" if "on_grid (tg_start g) i u" "dt < u" for u
  proof -
    have "i dvd (u - ?t)" using on(1) that(1) by (rule on_grid_diff)
    moreover have "- i < u - ?t" using fl(2) False that(2) by (simp add: distrib_right)
    ultimately show ?thesis using dvd_nonneg by force
  qed
  have pos: "0 \<le> ?n" "0 \<le> (?n + 1) * i" using i(2) False by (simp_all add: pos_imp_zdiv_nonneg_iff)
  have idx: "?n + 1 \<le> (?n + 1) * i" using pos(1) i(2) by simp
  have "snd (nearest_ticks L g dt) = (if ?t < end_bound L g then Some ?t else None)"
  proof (cases "?t < end_bound L g")
    case lt: True
    then have "(?n + 1) * i < 2 ^ 63" "?t \<le> dt_max L" "fits_i64 (dt - tg_start g)" "fits_i64 (?n + 1)"
      using i(4,5) on(2) False idx pos(1) unfolding fits_i64_def by linarith+
    then show ?thesis
      using lt False i(1-3) pos grid_tick_cases [OF i(3) pos(2)]
      by (simp add: nearest_ticks_def Let_def opt_filter_def nanos_between_def)
  next
    case ge: False
    then show ?thesis
      using False i(1-3) grid_tick_cases [OF i(3) pos(2)]
      by (auto simp: nearest_ticks_def Let_def opt_filter_def nanos_between_def)
  qed
  moreover have "?t < end_bound L g" if "u \<in> grid_points L g i" "dt < u" for u
    using that least by (fastforce simp: grid_points_def)
  ultimately show ?thesis using on least by (auto simp: grid_points_def intro: antisym)
qed

text \<open>
  \<open>nearest_keys\<close> of an interval grid names the greatest window start at or before the
  datetime and the least one after it, both inside the grid's bounds, and nothing when
  there is none.
\<close>

theorem nearest_keys_bracket:
  assumes "wf_interval_grid L g i"
  shows "\<exists>p n. nearest_keys L g dt =
      (map_option (strftime L (tg_fmt g)) p, map_option (strftime L (tg_fmt g)) n) \<and>
    (\<forall>t. p = Some t \<longleftrightarrow> t \<in> grid_points L g i \<and> t \<le> dt \<and> (\<forall>u\<in>grid_points L g i. u \<le> dt \<longrightarrow> u \<le> t)) \<and>
    (\<forall>t. n = Some t \<longleftrightarrow> t \<in> grid_points L g i \<and> dt < t \<and> (\<forall>u\<in>grid_points L g i. dt < u \<longrightarrow> t \<le> u))"
  using nearest_prev [OF assms] nearest_next [OF assms]
  by (intro exI [of _ "fst (nearest_ticks L g dt)"] exI [of _ "snd (nearest_ticks L g dt)"])
    (simp add: nearest_keys_def map_prod_def case_prod_beta)

theorem nearest_keys_bracket_witness:
  "\<exists>p n. nearest_keys unary_lib unary_grid 5 =
      (map_option (strftime unary_lib (tg_fmt unary_grid)) p, map_option (strftime unary_lib (tg_fmt unary_grid)) n) \<and>
    (\<forall>t. p = Some t \<longleftrightarrow> t \<in> grid_points unary_lib unary_grid 2 \<and> t \<le> 5 \<and>
        (\<forall>u\<in>grid_points unary_lib unary_grid 2. u \<le> 5 \<longrightarrow> u \<le> t)) \<and>
    (\<forall>t. n = Some t \<longleftrightarrow> t \<in> grid_points unary_lib unary_grid 2 \<and> 5 < t \<and>
        (\<forall>u\<in>grid_points unary_lib unary_grid 2. 5 < u \<longrightarrow> t \<le> u))"
  by (rule nearest_keys_bracket [OF unary_wf])

text \<open>
  shifting a window key of an interval grid by some windows and back returns the key,
  whenever the first shift lands inside the grid and formatting is undone by parsing there.
\<close>

theorem shift_key_back:
  assumes "wf_interval_grid L g i" and "parse_key_datetime L key (tg_fmt g) = Some dt"
    and "strftime L (tg_fmt g) dt = key" and "tg_start g \<le> dt" and "dt < end_bound L g"
    and "shift_key L g key offset = Inr key'"
    and "parse_key_datetime L (strftime L (tg_fmt g) (dt + i * offset)) (tg_fmt g) = Some (dt + i * offset)"
    and "fits_i64 (- (i * offset))"
  shows "shift_key L g key' (- offset) = Inr key"
proof (cases "offset = 0")
  case True
  then show ?thesis using assms(2,6) by (simp add: shift_key_def)
next
  case False
  have i: "tg_interval_ns g = Some i" "0 < i" "dt_min L \<le> tg_start g" "end_bound L g \<le> dt_max L"
    using assms(1) by (auto simp: wf_interval_grid_def)
  have "key' = strftime L (tg_fmt g) (dt + i * offset)"
    using assms(2,6) False i(1,2)
    by (auto simp: shift_key_def Let_def checked_mul_i64_def checked_add_dt_def split: if_splits)
  then show ?thesis
    using False i assms(3-5,7,8) by (simp add: shift_key_def checked_mul_i64_def checked_add_dt_def Let_def)
qed

theorem shift_key_back_witness:
  "shift_key unary_lib unary_grid ''xxxxx'' (- 2) = Inr ''x''"
  by (rule shift_key_back [OF unary_wf, where key = "''x''" and dt = 1 and offset = 2])
    (simp_all add: shift_key_def parse_key_datetime_def unary_lib_def unary_grid_def end_bound_def Let_def
      checked_mul_i64_def checked_add_dt_def fits_i64_def numeral_eq_Suc)

end
