(* ===== verification/Partition_Mappings.thy ===== *)
theory Partition_Mappings
  imports Partition_Keys Partition_Selections Time_Grids
begin

text \<open>
  Partition mappings between connected assets (\<open>rivers-core/src/condition/partition.rs\<close>):
  the mapping kinds, the shift of a selection along a time grid, the image of an upstream
  selection in the downstream key space, and the resolver that looks the mapping of an edge
  up.

  A \<open>HashSet<PartitionKey>\<close> is a set of keys in canonical form. The \<open>HashMap\<close> of a
  \<open>Multi\<close> mapping is the list of its entries in the order the code iterates over them,
  that of a \<open>Static\<close> mapping a list of (downstream, upstream) pairs with distinct first
  components. The vectors of combinations are sets here: their order only determines the
  order in which a hash set is filled.
\<close>

datatype mapping_kind =
    MIdentity
  | MAllPartitions
  | MStatic "(string \<times> string) list"
  | MTimeWindow int "time_grid option"
  | MSpecificPartitions "string list"
  | MMulti "(string \<times> string \<times> mapping_kind) list"
  | MMultiToSingle string mapping_kind
  | MForKeys
  | MSubset

type_synonym key_selection = "partition_key selection"

fun is_single :: "partition_key \<Rightarrow> bool" where
  "is_single (Single _) = True"
| "is_single _ = False"

fun single_values :: "partition_key \<Rightarrow> string list" where
  "single_values (Single vs) = vs"
| "single_values _ = []"

fun shift_one :: "('b, 'c) time_lib \<Rightarrow> int \<Rightarrow> time_grid \<Rightarrow> partition_key \<Rightarrow> partition_key option" where
  "shift_one L offset grid (Single [k]) =
     (case shift_key L grid k offset of Inr s \<Rightarrow> Some (Single [s]) | Inl _ \<Rightarrow> None)"
| "shift_one L offset grid _ = None"

definition shift_selection ::
  "('b, 'c) time_lib \<Rightarrow> key_selection \<Rightarrow> int \<Rightarrow> time_grid option \<Rightarrow> key_selection" where
  "shift_selection L sel offset grid =
     (case grid of
        None \<Rightarrow> sel
      | Some g \<Rightarrow>
          if offset = 0 then sel
          else (case sel of
                  SelKeys ks \<Rightarrow> from_keys (\<Union>k\<in>ks. set_option (shift_one L offset g k))
                | _ \<Rightarrow> sel))"

definition static_downstream :: "(string \<times> string) list \<Rightarrow> key_selection \<Rightarrow> key_selection" where
  "static_downstream mapping sel =
     (case sel of
        SelKeys ks \<Rightarrow>
          from_keys
            ((\<lambda>(k, _). Single [k]) ` set (filter (\<lambda>(_, v). Single [v] \<in> ks) mapping) \<union>
             {uk \<in> ks. case uk of Single [p] \<Rightarrow> map_of mapping p = None | _ \<Rightarrow> False})
      | _ \<Rightarrow> sel)"

text \<open>
  The open constraints of a mapping (wildcard combinations, wanted dimension values) are
  expanded against the downstream universe; without one the image is over-approximated.
\<close>

definition expand_over ::
  "partition_key set option \<Rightarrow> partition_key set \<Rightarrow> 'w set \<Rightarrow> ('w set \<Rightarrow> partition_key \<Rightarrow> bool) \<Rightarrow> key_selection" where
  "expand_over universe mapped ws matches =
     (if ws = {} then from_keys mapped
      else (case universe of
              None \<Rightarrow> SelAll
            | Some U \<Rightarrow> from_keys (mapped \<union> Set.filter (matches ws) U)))"

section \<open>The multi-dimensional mapping\<close>

text \<open>
  A combination fixes the value of each downstream dimension, or leaves it open
  (\<open>None\<close>) when the mapping of that dimension fans out.
\<close>

type_synonym combo = "(string \<times> string list option) list"

fun dim_step :: "combo set \<Rightarrow> string \<Rightarrow> key_selection \<Rightarrow> combo set option" where
  "dim_step combos dd (SelKeys ks) =
     (if ks = {} \<or> (\<exists>k\<in>ks. \<not> is_single k) then None
      else Some (\<Union>c\<in>combos. (\<lambda>k. c @ [(dd, Some (single_values k))]) ` ks))"
| "dim_step combos dd SelAll = Some ((\<lambda>c. c @ [(dd, None)]) ` combos)"
| "dim_step combos dd SelEmpty = None"

fun map_key_dims ::
  "(string \<times> string \<times> (key_selection \<Rightarrow> key_selection)) list \<Rightarrow> (string \<rightharpoonup> string list) \<Rightarrow>
   combo set \<Rightarrow> combo set option" where
  "map_key_dims [] upstream_dims combos = Some combos"
| "map_key_dims ((ud, dd, f) # ms) upstream_dims combos =
     (case upstream_dims ud of
        None \<Rightarrow> None
      | Some val \<Rightarrow>
          (case dim_step combos dd (f (SelKeys {Single val})) of
             None \<Rightarrow> None
           | Some combos' \<Rightarrow> map_key_dims ms upstream_dims combos'))"

fun map_key_downstream ::
  "(string \<times> string \<times> (key_selection \<Rightarrow> key_selection)) list \<Rightarrow> partition_key \<Rightarrow> combo set option" where
  "map_key_downstream ms (Multi dims) = map_key_dims ms (map_of (rev dims)) {[]}"
| "map_key_downstream ms _ = None"

definition combo_exact :: "combo \<Rightarrow> bool" where
  "combo_exact c \<longleftrightarrow> (\<forall>(d, v) \<in> set c. v \<noteq> None)"

definition combo_key :: "combo \<Rightarrow> partition_key" where
  "combo_key c = canon (Multi (map (\<lambda>(d, v). (d, the v)) c))"

fun combo_matches :: "combo \<Rightarrow> partition_key \<Rightarrow> bool" where
  "combo_matches c (Multi dims) =
     (\<forall>(d, want) \<in> set c. case want of None \<Rightarrow> True | Some v \<Rightarrow> (d, v) \<in> set dims)"
| "combo_matches c _ = False"

definition key_combos ::
  "(string \<times> string \<times> (key_selection \<Rightarrow> key_selection)) list \<Rightarrow> partition_key set \<Rightarrow> combo set" where
  "key_combos ms ks = (\<Union>pk\<in>ks. case map_key_downstream ms pk of None \<Rightarrow> {} | Some cs \<Rightarrow> cs)"

definition multi_downstream ::
  "(string \<times> string \<times> (key_selection \<Rightarrow> key_selection)) list \<Rightarrow> partition_key set option \<Rightarrow>
   key_selection \<Rightarrow> key_selection" where
  "multi_downstream ms universe sel =
     (case sel of
        SelKeys ks \<Rightarrow>
          let combos = key_combos ms ks;
              mapped = combo_key ` {c \<in> combos. combo_exact c};
              wildcards = {c \<in> combos. \<not> combo_exact c}
          in expand_over universe mapped wildcards (\<lambda>ws key. \<exists>c\<in>ws. combo_matches c key)
      | _ \<Rightarrow> sel)"

section \<open>One dimension of a multi-dimensional asset\<close>

fun dim_value :: "string \<Rightarrow> partition_key \<Rightarrow> partition_key option" where
  "dim_value name (Multi dims) = map_option (\<lambda>(_, v). Single v) (find (\<lambda>(d, _). d = name) dims)"
| "dim_value name _ = None"

fun sel_keys :: "key_selection \<Rightarrow> partition_key set" where
  "sel_keys (SelKeys ks) = ks"
| "sel_keys _ = {}"

fun key_has_dim :: "string \<Rightarrow> string list set \<Rightarrow> partition_key \<Rightarrow> bool" where
  "key_has_dim name wanted (Multi dims) = (\<exists>(d, v) \<in> set dims. d = name \<and> v \<in> wanted)"
| "key_has_dim name wanted _ = False"

definition multi_to_single_downstream ::
  "string \<Rightarrow> (key_selection \<Rightarrow> key_selection) \<Rightarrow> partition_key set option \<Rightarrow>
   key_selection \<Rightarrow> key_selection" where
  "multi_to_single_downstream name f universe sel =
     (case sel of
        SelKeys ks \<Rightarrow>
          let dim_sels = (\<lambda>v. f (SelKeys {v})) ` (\<Union>k\<in>ks. set_option (dim_value name k));
              single_sels = (\<lambda>k. f (SelKeys {k})) ` Set.filter is_single ks;
              mapped = (\<Union>s\<in>dim_sels. sel_keys s);
              wanted = (\<Union>s\<in>single_sels. single_values ` Set.filter is_single (sel_keys s))
          in if SelAll \<in> dim_sels \<or> SelAll \<in> single_sels then SelAll
             else expand_over universe mapped wanted (key_has_dim name)
      | _ \<Rightarrow> sel)"

section \<open>The image of a selection\<close>

fun map_to_downstream_in ::
  "('b, 'c) time_lib \<Rightarrow> mapping_kind \<Rightarrow> partition_key set option \<Rightarrow> key_selection \<Rightarrow> key_selection" where
  "map_to_downstream_in L MIdentity universe sel = sel"
| "map_to_downstream_in L MSubset universe sel = sel"
| "map_to_downstream_in L MAllPartitions universe sel = (if sel_is_empty sel then SelEmpty else SelAll)"
| "map_to_downstream_in L (MSpecificPartitions _) universe sel = (if sel_is_empty sel then SelEmpty else SelAll)"
| "map_to_downstream_in L MForKeys universe sel = (if sel_is_empty sel then SelEmpty else SelAll)"
| "map_to_downstream_in L (MStatic mapping) universe sel = static_downstream mapping sel"
| "map_to_downstream_in L (MTimeWindow offset grid) universe sel =
     shift_selection L sel (wrap_i64 (- offset)) grid"
| "map_to_downstream_in L (MMulti dms) universe sel =
     multi_downstream (map (\<lambda>(ud, dd, k). (ud, dd, \<lambda>s. map_to_downstream_in L k None s)) dms) universe sel"
| "map_to_downstream_in L (MMultiToSingle name inner) universe sel =
     multi_to_single_downstream name (\<lambda>s. map_to_downstream_in L inner None s) universe sel"

definition map_to_downstream ::
  "('b, 'c) time_lib \<Rightarrow> mapping_kind \<Rightarrow> key_selection \<Rightarrow> key_selection" where
  "map_to_downstream L k sel = map_to_downstream_in L k None sel"

section \<open>The resolver\<close>

text \<open>
  The per-edge mappings, keyed by (downstream, upstream); an edge without one is the
  identity. \<open>upstream_partition_keys\<close> are the valid keys of each upstream asset.
\<close>

record resolver =
  mappings :: "string \<times> string \<rightharpoonup> mapping_kind"
  upstream_partition_keys :: "string \<rightharpoonup> partition_key set"

definition empty_resolver :: resolver where
  "empty_resolver = \<lparr>mappings = Map.empty, upstream_partition_keys = Map.empty\<rparr>"

definition mapping_for :: "resolver \<Rightarrow> string \<Rightarrow> string \<Rightarrow> mapping_kind option" where
  "mapping_for r upstream_asset downstream_asset = mappings r (downstream_asset, upstream_asset)"

definition map_downstream ::
  "('b, 'c) time_lib \<Rightarrow> resolver \<Rightarrow> string \<Rightarrow> string \<Rightarrow> key_selection \<Rightarrow> partition_key set option \<Rightarrow>
   key_selection" where
  "map_downstream L r upstream_asset downstream_asset upstream_keys downstream_universe =
     (case mapping_for r upstream_asset downstream_asset of
        Some m \<Rightarrow> map_to_downstream_in L m downstream_universe upstream_keys
      | None \<Rightarrow> upstream_keys)"

section \<open>Mappings preserve bottom, top and unions\<close>

text \<open>
  A map on selections is \<open>additive\<close> when it sends the empty selection to itself, all to
  all, and a union of selections to the union of their images; it is then determined by its
  value on single keys. Well-formedness of the image is part of the contract.
\<close>

definition additive :: "(key_selection \<Rightarrow> key_selection) \<Rightarrow> bool" where
  "additive f \<longleftrightarrow> f SelEmpty = SelEmpty \<and> f SelAll = SelAll \<and>
     (\<forall>s. sel_wf s \<longrightarrow> sel_wf (f s)) \<and>
     (\<forall>a b. sel_wf a \<longrightarrow> sel_wf b \<longrightarrow> f (sel_union a b) = sel_union (f a) (f b))"

lemma sel_union_from_keys [simp]: "sel_union (from_keys a) (from_keys b) = from_keys (a \<union> b)"
  by (simp add: from_keys_def)

lemma sel_union_all [simp]: "sel_union s SelAll = SelAll" "sel_union SelAll s = SelAll"
  by (cases s; simp)+

lemma sel_union_empty [simp]: "sel_union s SelEmpty = s" "sel_union SelEmpty s = s"
  by (cases s; simp)+

lemma additiveI:
  assumes "f SelEmpty = SelEmpty" and "f SelAll = SelAll" and "\<And>ks. ks \<noteq> {} \<Longrightarrow> sel_wf (f (SelKeys ks))"
    and "\<And>a b. a \<noteq> {} \<Longrightarrow> b \<noteq> {} \<Longrightarrow> f (SelKeys (a \<union> b)) = sel_union (f (SelKeys a)) (f (SelKeys b))"
  shows "additive f"
  unfolding additive_def
proof (intro conjI allI impI)
  show "sel_wf (f s)" if "sel_wf s" for s using that assms(1-3) by (cases s) auto
  show "f (sel_union a b) = sel_union (f a) (f b)" if "sel_wf a" "sel_wf b" for a b
    using that assms by (cases a; cases b) (simp_all add: from_keys_def)
qed (rule assms(1,2))+

lemma additive_id: "additive (\<lambda>s. s)"
  by (rule additiveI) (auto simp: from_keys_def)

lemma additive_fan_out: "additive (\<lambda>s. if sel_is_empty s then SelEmpty else SelAll)"
  by (rule additiveI) auto

lemma additive_shift: "additive (\<lambda>s. shift_selection L s offset grid)"
  by (rule additiveI) (auto simp: shift_selection_def from_keys_def split: option.split)

lemma additive_static: "additive (static_downstream mapping)"
proof (rule additiveI)
  fix a b :: "partition_key set"
  have "{uk \<in> a \<union> b. P uk} = {uk \<in> a. P uk} \<union> {uk \<in> b. P uk}" for P by blast
  moreover have "f ` set (filter (\<lambda>(_, v). Single [v] \<in> a \<union> b) mapping) =
      f ` set (filter (\<lambda>(_, v). Single [v] \<in> a) mapping) \<union> f ` set (filter (\<lambda>(_, v). Single [v] \<in> b) mapping)"
    for f :: "string \<times> string \<Rightarrow> partition_key" by force
  ultimately show "static_downstream mapping (SelKeys (a \<union> b)) =
      sel_union (static_downstream mapping (SelKeys a)) (static_downstream mapping (SelKeys b))"
    unfolding static_downstream_def selection.case sel_union_from_keys
    by (intro arg_cong [where f = from_keys]) (simp add: Un_ac)
qed (simp_all add: static_downstream_def)

lemma key_combos_Un [simp]: "key_combos ms (a \<union> b) = key_combos ms a \<union> key_combos ms b"
  by (simp add: key_combos_def)

lemma expand_over_Un:
  assumes "\<And>v w k. matches (v \<union> w) k \<longleftrightarrow> matches v k \<or> matches w k"
  shows "expand_over universe (m \<union> m') (w \<union> w') matches =
         sel_union (expand_over universe m w matches) (expand_over universe m' w' matches)"
proof -
  have "Set.filter (matches (w \<union> w')) U = Set.filter (matches w) U \<union> Set.filter (matches w') U" for U
    using assms by auto
  then show ?thesis
    by (cases universe; cases "w = {}"; cases "w' = {}") (simp_all add: expand_over_def Un_ac)
qed

lemma sel_wf_expand_over [simp]: "sel_wf (expand_over universe m w matches)"
  by (simp add: expand_over_def split: option.split)

lemma additive_multi: "additive (multi_downstream ms universe)"
proof (rule additiveI)
  fix a b :: "partition_key set"
  have sep: "{c \<in> A \<union> B. P c} = {c \<in> A. P c} \<union> {c \<in> B. P c}" for A B :: "combo set" and P by blast
  show "multi_downstream ms universe (SelKeys (a \<union> b)) =
      sel_union (multi_downstream ms universe (SelKeys a)) (multi_downstream ms universe (SelKeys b))"
    unfolding multi_downstream_def selection.case Let_def key_combos_Un sep image_Un
    by (rule expand_over_Un) blast
qed (simp_all add: multi_downstream_def Let_def)

lemma key_has_dim_Un: "key_has_dim name (v \<union> w) k \<longleftrightarrow> key_has_dim name v k \<or> key_has_dim name w k"
  by (cases k) auto

lemma all_or_expand_Un:
  "(if SelAll \<in> D \<union> D' \<or> SelAll \<in> S \<union> S' then SelAll
    else expand_over universe (m \<union> m') (w \<union> w') (key_has_dim name)) =
   sel_union (if SelAll \<in> D \<or> SelAll \<in> S then SelAll else expand_over universe m w (key_has_dim name))
     (if SelAll \<in> D' \<or> SelAll \<in> S' then SelAll else expand_over universe m' w' (key_has_dim name))"
  by (simp add: expand_over_Un [OF key_has_dim_Un])

lemma additive_multi_to_single: "additive (multi_to_single_downstream name f universe)"
proof (rule additiveI)
  fix a b :: "partition_key set"
  have fil: "Set.filter P (A \<union> B) = Set.filter P A \<union> Set.filter P B" for P and A B :: "partition_key set"
    by auto
  show "multi_to_single_downstream name f universe (SelKeys (a \<union> b)) =
      sel_union (multi_to_single_downstream name f universe (SelKeys a))
        (multi_to_single_downstream name f universe (SelKeys b))"
    unfolding multi_to_single_downstream_def selection.case Let_def fil image_Un Union_Un_distrib
    by (rule all_or_expand_Un)
qed (simp_all add: multi_to_single_downstream_def Let_def)

lemma additive_cong: "(\<And>s. f s = g s) \<Longrightarrow> additive g \<Longrightarrow> additive f"
  by (simp add: additive_def)

lemma mapping_additive: "additive (map_to_downstream_in L k universe)"
  by (cases k)
    (auto intro: additive_cong additive_id additive_fan_out additive_shift additive_static additive_multi
      additive_multi_to_single)

text \<open>
  a partition mapping of any kind is additive: it keeps the empty selection and all,
  keeps selections well-formed, and the image of a union is the union of the images, so
  mapping a batch of updated upstream partitions loses and invents nothing compared with
  mapping them one at a time.
\<close>

theorem map_to_downstream_additive: "additive (map_to_downstream_in L k universe)"
  by (rule mapping_additive)


text \<open>
  a static mapping selects a downstream key exactly when its upstream key is selected:
  the one the mapping names for it, or the key itself when the mapping does not mention it.
\<close>

theorem static_mapping_exact:
  assumes "distinct (map fst mapping)" and "ks \<noteq> {}"
  shows "Single [d] \<in> sel_set {} (map_to_downstream_in L (MStatic mapping) universe (SelKeys ks)) \<longleftrightarrow>
         Single [case map_of mapping d of Some u \<Rightarrow> u | None \<Rightarrow> d] \<in> ks"
proof (cases "map_of mapping d")
  case None
  then have "d \<notin> fst ` set mapping" by (simp add: map_of_eq_None_iff)
  then show ?thesis using None by (force simp: static_downstream_def)
next
  case (Some u)
  then have "(d, v) \<in> set mapping \<longleftrightarrow> v = u" for v
    using assms(1) by (metis map_of_SomeD map_of_eq_Some_iff option.inject)
  then show ?thesis using Some by (force simp: static_downstream_def)
qed

theorem static_mapping_exact_witness:
  "Single [''eu''] \<in> sel_set {} (map_to_downstream_in (unary_lib) (MStatic [(''eu'', ''de'')]) None (SelKeys {Single [''de'']}))"
  using static_mapping_exact [of "[(''eu'', ''de'')]" "{Single [''de'']}" "''eu''" unary_lib None] by simp

lemma map_downstream_wf: "sel_wf s \<Longrightarrow> sel_wf (map_downstream L r up down s U)"
  using mapping_additive by (auto simp: map_downstream_def additive_def split: option.split)

end
