(* ===== verification/Condition_Nodes.thy ===== *)
theory Condition_Nodes
  imports Prelude "HOL-Library.Word"
begin

text \<open>
  Condition trees (\<open>rivers-core/src/condition/node.rs\<close>): the node type, its generic
  traversal \<open>children\<close> and the queries built on it, the builders and presets, tree
  rewriting, labels and descriptions, and the fingerprint. The floating-point lookback of
  \<open>InLatestTimeWindow\<close> is carried as its bits. The hash function, the JSON serializer and
  the printing of floating-point numbers are the parameters of \<open>label_lib\<close>.
\<close>

datatype 'f node =
    Missing
  | InProgress
  | ExecutionFailed
  | NewlyUpdated
  | NewlyRequested
  | CodeVersionChanged
  | CronTickPassed string "string option"
  | InLatestTimeWindow "'f option"
  | InitialEvaluation
  | DataVersionChanged
  | BackfillInProgress
  | LastExecutedWithTags "string list" "(string \<times> string) list"
  | LastRunIncludesTarget
  | WillBeRequested
  | AnyDepsMatch "'f node" "string option"
  | AllDepsMatch "'f node" "string option"
  | CAnd "'f node list"
  | COr "'f node list"
  | CNot "'f node"
  | NewlyTrue "'f node"
  | Since "'f node" "'f node"
  | SinceLastHandled "'f node"
  | HasRunWithTags "string list" "(string \<times> string) list"
  | AllRunsHaveTags "string list" "(string \<times> string) list"
  | AssetMatches "string list" "'f node"

type_synonym f64 = "64 word"
type_synonym condition_node = "f64 node"

section \<open>Traversal\<close>

fun children :: "'f node \<Rightarrow> 'f node list" where
  "children (CAnd cs) = cs"
| "children (COr cs) = cs"
| "children (CNot c) = [c]"
| "children (NewlyTrue c) = [c]"
| "children (SinceLastHandled c) = [c]"
| "children (Since trigger reset) = [trigger, reset]"
| "children (AnyDepsMatch c _) = [c]"
| "children (AllDepsMatch c _) = [c]"
| "children (AssetMatches _ c) = [c]"
| "children _ = []"

lemma size_children [termination_simp]: "c \<in> set (children n) \<Longrightarrow> size c < size n"
  by (cases n rule: children.cases) (auto dest: size_list_estimation' [of _ _ "size c" size])

fun any_node :: "('f node \<Rightarrow> bool) \<Rightarrow> 'f node \<Rightarrow> bool" where
  "any_node p n = (p n \<or> list_ex (any_node p) (children n))"

declare any_node.simps [simp del]

fun has_time_based_conditions :: "'f node \<Rightarrow> bool" where
  "has_time_based_conditions n = any_node (\<lambda>n. case n of CronTickPassed _ _ \<Rightarrow> True | _ \<Rightarrow> False) n"

definition is_stateful :: "'f node \<Rightarrow> bool" where
  "is_stateful n = (case n of Since _ _ \<Rightarrow> True | NewlyTrue _ \<Rightarrow> True | _ \<Rightarrow> False)"

definition has_stateful_nodes :: "'f node \<Rightarrow> bool" where
  "has_stateful_nodes n = any_node is_stateful n"

definition is_dep_aggregate :: "'f node \<Rightarrow> bool" where
  "is_dep_aggregate n =
     (case n of AnyDepsMatch _ _ \<Rightarrow> True | AllDepsMatch _ _ \<Rightarrow> True | AssetMatches _ _ \<Rightarrow> True | _ \<Rightarrow> False)"

definition has_dep_aggregate :: "'f node \<Rightarrow> bool" where
  "has_dep_aggregate n = any_node is_dep_aggregate n"

definition uses_tick_tags :: "'f node \<Rightarrow> bool" where
  "uses_tick_tags n =
     any_node (\<lambda>n. case n of HasRunWithTags _ _ \<Rightarrow> True | AllRunsHaveTags _ _ \<Rightarrow> True | _ \<Rightarrow> False) n"

definition contains_newly_updated :: "'f node \<Rightarrow> bool" where
  "contains_newly_updated n = any_node (\<lambda>n. case n of NewlyUpdated \<Rightarrow> True | _ \<Rightarrow> False) n"

fun has_root_scope_latest_time_window :: "'f node \<Rightarrow> bool" where
  "has_root_scope_latest_time_window n =
     (case n of
        InLatestTimeWindow _ \<Rightarrow> True
      | AnyDepsMatch _ _ \<Rightarrow> False
      | AllDepsMatch _ _ \<Rightarrow> False
      | AssetMatches _ _ \<Rightarrow> False
      | _ \<Rightarrow> list_ex has_root_scope_latest_time_window (children n))"

declare has_root_scope_latest_time_window.simps [simp del]

text \<open>
  \<open>count_nodes\<close> advances the pre-order counter over a subtree; \<open>node_count\<close> is what it adds.
\<close>

fun count_nodes :: "'f node \<Rightarrow> nat \<Rightarrow> nat" where
  "count_nodes n counter = fold count_nodes (children n) (counter + 1)"

declare count_nodes.simps [simp del]

fun node_count :: "'f node \<Rightarrow> nat" where
  "node_count n = 1 + sum_list (map node_count (children n))"

declare node_count.simps [simp del]

section \<open>Operators, builders and presets\<close>

definition node_not :: "'f node \<Rightarrow> 'f node" where
  "node_not n = CNot n"

definition bitand :: "'f node \<Rightarrow> 'f node \<Rightarrow> 'f node" where
  "bitand a b = CAnd ((case a of CAnd c \<Rightarrow> c | _ \<Rightarrow> [a]) @ (case b of CAnd c \<Rightarrow> c | _ \<Rightarrow> [b]))"

definition bitor :: "'f node \<Rightarrow> 'f node \<Rightarrow> 'f node" where
  "bitor a b = COr ((case a of COr c \<Rightarrow> c | _ \<Rightarrow> [a]) @ (case b of COr c \<Rightarrow> c | _ \<Rightarrow> [b]))"

definition since :: "'f node \<Rightarrow> 'f node \<Rightarrow> 'f node" where
  "since trigger reset = Since trigger reset"

definition any_deps_match :: "'f node \<Rightarrow> 'f node" where
  "any_deps_match c = AnyDepsMatch c None"

definition all_deps_match :: "'f node \<Rightarrow> 'f node" where
  "all_deps_match c = AllDepsMatch c None"

definition any_deps_updated :: "'f node" where
  "any_deps_updated =
     AnyDepsMatch (bitor (bitand NewlyUpdated (node_not LastRunIncludesTarget)) WillBeRequested)
       (Some ''any_deps_updated'')"

definition any_deps_missing :: "'f node" where
  "any_deps_missing = AnyDepsMatch (bitand Missing (node_not WillBeRequested)) (Some ''any_deps_missing'')"

definition any_deps_in_progress :: "'f node" where
  "any_deps_in_progress = AnyDepsMatch InProgress (Some ''any_deps_in_progress'')"

definition in_flight :: "'f node" where
  "in_flight = bitor InProgress BackfillInProgress"

definition eager :: "'f node" where
  "eager =
     bitand (bitand (bitand (bitand
       (SinceLastHandled (bitor (NewlyTrue Missing) any_deps_updated))
       (node_not any_deps_missing))
       (node_not any_deps_in_progress))
       (node_not in_flight))
       (node_not ExecutionFailed)"

definition all_deps_updated_since_cron :: "string \<Rightarrow> string option \<Rightarrow> 'f node" where
  "all_deps_updated_since_cron cron_schedule timezone =
     AllDepsMatch (bitor (since NewlyUpdated (CronTickPassed cron_schedule timezone)) WillBeRequested)
       (Some ''all_deps_updated_since_cron'')"

definition on_cron :: "string \<Rightarrow> string option \<Rightarrow> 'f node" where
  "on_cron cron_schedule timezone =
     (let cron_tick = CronTickPassed cron_schedule timezone
      in bitand (bitand
           (since cron_tick (bitand (bitor NewlyRequested NewlyUpdated) (node_not cron_tick)))
           (all_deps_updated_since_cron cron_schedule timezone))
           (node_not in_flight))"

definition on_missing :: "'f node" where
  "on_missing =
     bitand (bitand (SinceLastHandled (NewlyTrue Missing)) (node_not any_deps_missing))
       (node_not ExecutionFailed)"

section \<open>Rewriting\<close>

fun map_children :: "('f node \<Rightarrow> 'f node) \<Rightarrow> 'f node \<Rightarrow> 'f node" where
  "map_children f (CAnd cs) = CAnd (map f cs)"
| "map_children f (COr cs) = COr (map f cs)"
| "map_children f (CNot c) = CNot (f c)"
| "map_children f (NewlyTrue c) = NewlyTrue (f c)"
| "map_children f (SinceLastHandled c) = SinceLastHandled (f c)"
| "map_children f (Since t r) = Since (f t) (f r)"
| "map_children f (AnyDepsMatch c l) = AnyDepsMatch (f c) l"
| "map_children f (AllDepsMatch c l) = AllDepsMatch (f c) l"
| "map_children f (AssetMatches ks c) = AssetMatches ks (f c)"
| "map_children f n = n"

lemma map_children_cong [fundef_cong]:
  "n = m \<Longrightarrow> (\<And>c. c \<in> set (children m) \<Longrightarrow> f c = g c) \<Longrightarrow> map_children f n = map_children g m"
  by (cases m rule: children.cases) auto

fun replace_inner :: "('f node \<Rightarrow> bool) \<Rightarrow> 'f node \<Rightarrow> 'f node \<Rightarrow> 'f node" where
  "replace_inner matches replacement n =
     (if matches n then replacement else map_children (replace_inner matches replacement) n)"

declare replace_inner.simps [simp del]

definition replace_matching :: "('f node \<Rightarrow> bool) \<Rightarrow> 'f node \<Rightarrow> 'f node \<Rightarrow> 'f node" where
  "replace_matching p replacement n = replace_inner p replacement n"

text \<open>Structural equality compares lookbacks with the floating-point equality \<open>feq\<close>.\<close>

definition replace_by_node :: "('f \<Rightarrow> 'f \<Rightarrow> bool) \<Rightarrow> 'f node \<Rightarrow> 'f node \<Rightarrow> 'f node \<Rightarrow> 'f node" where
  "replace_by_node feq old replacement n = replace_inner (\<lambda>m. rel_node feq m old) replacement n"

fun without_matching :: "('f node \<Rightarrow> bool) \<Rightarrow> 'f node \<Rightarrow> 'f node" where
  "without_matching p (CAnd cs) = CAnd (filter (\<lambda>c. \<not> p c) cs)"
| "without_matching p n = n"

section \<open>Labels and fingerprint\<close>

record label_lib =
  json_of :: "condition_node \<Rightarrow> string"
  sip_hash :: "string \<Rightarrow> 64 word"
  f64_display :: "f64 \<Rightarrow> string"

definition hex_digit :: "nat \<Rightarrow> char" where
  "hex_digit n = (if n < 10 then digit_char n else char_of (87 + n))"

fun hex_digits :: "nat \<Rightarrow> nat \<Rightarrow> string" where
  "hex_digits 0 n = []"
| "hex_digits (Suc w) n = hex_digits w (n div 16) @ [hex_digit (n mod 16)]"

definition fingerprint :: "label_lib \<Rightarrow> condition_node \<Rightarrow> 64 word" where
  "fingerprint P n = sip_hash P (json_of P n)"

definition fingerprint_hex :: "label_lib \<Rightarrow> condition_node \<Rightarrow> string" where
  "fingerprint_hex P n = hex_digits 16 (unat (fingerprint P n))"

definition format_tag_label :: "string \<Rightarrow> string list \<Rightarrow> (string \<times> string) list \<Rightarrow> string" where
  "format_tag_label name tag_keys tag_values =
     name @ ''('' @ join '', '' (tag_keys @ map (\<lambda>(k, v). k @ ''='' @ v) tag_values) @ '')''"

definition quoted :: "string \<Rightarrow> string" where
  "quoted k = CHR 0x27 # k @ [CHR 0x27]"

definition keys_label :: "string list \<Rightarrow> string" where
  "keys_label keys =
     (case keys of
        [k] \<Rightarrow> quoted k
      | _ \<Rightarrow> ''['' @ join '', '' (map quoted keys) @ '']'')"

fun node_label :: "label_lib \<Rightarrow> condition_node \<Rightarrow> string" where
  "node_label P Missing = ''missing''"
| "node_label P InProgress = ''in_progress''"
| "node_label P ExecutionFailed = ''execution_failed''"
| "node_label P NewlyUpdated = ''newly_updated''"
| "node_label P NewlyRequested = ''newly_requested''"
| "node_label P CodeVersionChanged = ''code_version_changed''"
| "node_label P (CronTickPassed cron_schedule timezone) =
     (case timezone of
        Some tz \<Rightarrow> ''cron_tick_passed('' @ quoted cron_schedule @ '', tz='' @ quoted tz @ '')''
      | None \<Rightarrow> ''cron_tick_passed('' @ quoted cron_schedule @ '')'')"
| "node_label P (InLatestTimeWindow lookback_delta) =
     (case lookback_delta of
        Some d \<Rightarrow> ''in_latest_time_window(lookback='' @ f64_display P d @ '')''
      | None \<Rightarrow> ''in_latest_time_window'')"
| "node_label P InitialEvaluation = ''initial_evaluation''"
| "node_label P DataVersionChanged = ''data_version_changed''"
| "node_label P BackfillInProgress = ''backfill_in_progress''"
| "node_label P (LastExecutedWithTags ks vs) = format_tag_label ''last_executed_with_tags'' ks vs"
| "node_label P LastRunIncludesTarget = ''last_run_includes_target''"
| "node_label P WillBeRequested = ''will_be_requested''"
| "node_label P (HasRunWithTags ks vs) = format_tag_label ''has_run_with_tags'' ks vs"
| "node_label P (AllRunsHaveTags ks vs) = format_tag_label ''all_runs_have_tags'' ks vs"
| "node_label P (AnyDepsMatch c label) =
     (case label of Some l \<Rightarrow> l | None \<Rightarrow> ''any_deps_match('' @ fingerprint_hex P c @ '')'')"
| "node_label P (AllDepsMatch c label) =
     (case label of Some l \<Rightarrow> l | None \<Rightarrow> ''all_deps_match('' @ fingerprint_hex P c @ '')'')"
| "node_label P (AssetMatches keys c) =
     ''asset_matches('' @ keys_label keys @ '', '' @ fingerprint_hex P c @ '')''"
| "node_label P (CAnd _) = ''All of''"
| "node_label P (COr _) = ''Any of''"
| "node_label P (CNot _) = ''Not''"
| "node_label P (NewlyTrue _) = ''newly_true''"
| "node_label P (Since _ _) = ''since''"
| "node_label P (SinceLastHandled _) = ''since_last_handled''"

fun describe :: "label_lib \<Rightarrow> condition_node \<Rightarrow> string" where
  "describe P (CAnd cs) = ''('' @ join '' & '' (map (describe P) cs) @ '')''"
| "describe P (COr cs) = ''('' @ join '' | '' (map (describe P) cs) @ '')''"
| "describe P (CNot c) = ''~'' @ describe P c"
| "describe P (NewlyTrue c) = describe P c @ ''.newly_true()''"
| "describe P (Since trigger reset) = describe P trigger @ ''.since('' @ describe P reset @ '')''"
| "describe P (SinceLastHandled c) = describe P c @ ''.since_last_handled()''"
| "describe P (AnyDepsMatch c label) =
     (case label of Some l \<Rightarrow> l | None \<Rightarrow> ''any_deps_match('' @ describe P c @ '')'')"
| "describe P (AllDepsMatch c label) =
     (case label of Some l \<Rightarrow> l | None \<Rightarrow> ''all_deps_match('' @ describe P c @ '')'')"
| "describe P (AssetMatches keys c) = ''asset_matches('' @ keys_label keys @ '', '' @ describe P c @ '')''"
| "describe P n = node_label P n"

definition display_label :: "label_lib \<Rightarrow> condition_node \<Rightarrow> string" where
  "display_label P n = (if is_dep_aggregate n then describe P n else node_label P n)"

definition replace_by_label :: "label_lib \<Rightarrow> string \<Rightarrow> condition_node \<Rightarrow> condition_node \<Rightarrow> condition_node" where
  "replace_by_label P old_label replacement n = replace_inner (\<lambda>m. node_label P m = old_label) replacement n"

fun node_type_str :: "'f node \<Rightarrow> string" where
  "node_type_str (CAnd _) = ''And''"
| "node_type_str (COr _) = ''Or''"
| "node_type_str (CNot _) = ''Not''"
| "node_type_str (NewlyTrue _) = ''NewlyTrue''"
| "node_type_str (Since _ _) = ''Since''"
| "node_type_str (SinceLastHandled _) = ''SinceLastHandled''"
| "node_type_str (AnyDepsMatch _ _) = ''AnyDepsMatch''"
| "node_type_str (AllDepsMatch _ _) = ''AllDepsMatch''"
| "node_type_str (AssetMatches _ _) = ''AssetMatches''"
| "node_type_str _ = ''Leaf''"

section \<open>Facts about traversal\<close>

lemma node_induct [case_names node]:
  assumes "\<And>n. (\<And>c. c \<in> set (children n) \<Longrightarrow> P c) \<Longrightarrow> P n"
  shows "P n"
  by (induction n rule: measure_induct_rule [where f = size]) (blast intro: assms size_children)

lemma fold_count: "(\<And>c k. c \<in> set cs \<Longrightarrow> f c k = k + g c) \<Longrightarrow> fold f cs k = k + sum_list (map g cs)"
  by (induction cs arbitrary: k) (simp_all add: add.assoc)

lemma count_nodes_node_count [cond_simps]: "count_nodes n k = k + node_count n"
proof (induction n arbitrary: k rule: node_induct)
  case (node n)
  then show ?case by (simp add: count_nodes.simps [of n] node_count.simps [of n] fold_count)
qed

lemmas node_count_simps [simp] = node_count.simps [of "CAnd cs"] node_count.simps [of "COr cs"]
  node_count.simps [of "CNot c"] node_count.simps [of "NewlyTrue c"] node_count.simps [of "Since t r"]
  node_count.simps [of "SinceLastHandled c"] node_count.simps [of "AnyDepsMatch c l"]
  node_count.simps [of "AllDepsMatch c l"] node_count.simps [of "AssetMatches ks c"] for cs c t r l ks

lemma node_count_leaf [simp]: "children n = [] \<Longrightarrow> node_count n = 1"
  by (simp add: node_count.simps [of n])

lemma has_stateful_children:
  "\<not> has_stateful_nodes n \<longleftrightarrow> \<not> is_stateful n \<and> (\<forall>c\<in>set (children n). \<not> has_stateful_nodes c)"
  by (simp add: has_stateful_nodes_def any_node.simps [of _ n] list_ex_iff)

lemma has_dep_aggregate_children:
  "\<not> has_dep_aggregate n \<longleftrightarrow> \<not> is_dep_aggregate n \<and> (\<forall>c\<in>set (children n). \<not> has_dep_aggregate c)"
  by (simp add: has_dep_aggregate_def any_node.simps [of _ n] list_ex_iff)

lemmas stateful_simps = has_stateful_children [of "CAnd cs"]
  has_stateful_children [of "COr cs"]
  has_stateful_children [of "CNot c"]
  has_stateful_children [of "NewlyTrue c"]
  has_stateful_children [of "Since t r"]
  has_stateful_children [of "SinceLastHandled c"]
  has_stateful_children [of "AnyDepsMatch c l"]
  has_stateful_children [of "AllDepsMatch c l"]
  has_stateful_children [of "AssetMatches ks c"] for cs c t r l ks

lemmas aggregate_simps = has_dep_aggregate_children [of "CAnd cs"]
  has_dep_aggregate_children [of "COr cs"]
  has_dep_aggregate_children [of "CNot c"]
  has_dep_aggregate_children [of "NewlyTrue c"]
  has_dep_aggregate_children [of "Since t r"]
  has_dep_aggregate_children [of "SinceLastHandled c"]
  has_dep_aggregate_children [of "AnyDepsMatch c l"]
  has_dep_aggregate_children [of "AllDepsMatch c l"]
  has_dep_aggregate_children [of "AssetMatches ks c"] for cs c t r l ks

lemma map_children_id: "(\<And>c. c \<in> set (children n) \<Longrightarrow> f c = c) \<Longrightarrow> map_children f n = n"
  by (cases n rule: children.cases) (auto simp: map_idI)

lemma replace_inner_id: "\<not> any_node p n \<Longrightarrow> replace_inner p r n = n"
proof (induction n rule: node_induct)
  case (node n)
  then have "\<not> p n" "\<And>c. c \<in> set (children n) \<Longrightarrow> replace_inner p r c = c"
    by (auto simp: any_node.simps [of p n] list_ex_iff)
  then show ?case by (simp add: replace_inner.simps [of p r n] map_children_id)
qed

lemma length_hex_digits [simp]: "length (hex_digits w n) = w"
  by (induction w arbitrary: n) simp_all

lemma of_char_hex_digit: "a < 16 \<Longrightarrow> (of_char (hex_digit a) :: nat) = (if a < 10 then 48 + a else 87 + a)"
  by (simp add: hex_digit_def digit_char_def of_char_of)

lemma hex_digit_inj:
  assumes "a < 16" and "b < 16" and "hex_digit a = hex_digit b"
  shows "a = b"
proof -
  have "(if a < 10 then 48 + a else 87 + a) = (if b < 10 then 48 + b else 87 + b)"
    using assms(3) of_char_hex_digit [OF assms(1)] of_char_hex_digit [OF assms(2)] by metis
  then show ?thesis using assms(1,2) by (simp split: if_splits)
qed

lemma div_mod_eqI: "a div k = b div k \<Longrightarrow> a mod k = b mod k \<Longrightarrow> a = (b :: nat)"
  using div_mult_mod_eq [of a k] div_mult_mod_eq [of b k] by metis

lemma hex_digits_inj: "a < 16 ^ w \<Longrightarrow> b < 16 ^ w \<Longrightarrow> hex_digits w a = hex_digits w b \<Longrightarrow> a = b"
proof (induction w arbitrary: a b)
  case (Suc w)
  have "a div 16 < 16 ^ w" "b div 16 < 16 ^ w" using Suc.prems(1,2) by (simp_all add: div_less_iff_less_mult)
  then have "a div 16 = b div 16" using Suc.prems(3) by (intro Suc.IH) simp_all
  moreover have "a mod 16 = b mod 16" using Suc.prems(3) by (intro hex_digit_inj) simp_all
  ultimately show ?case by (rule div_mod_eqI)
qed simp

text \<open>
  the stored fingerprint is sixteen hexadecimal digits and loses nothing of the 64-bit
  hash: two condition trees have the same stored fingerprint exactly when they have the same
  hash.
\<close>

theorem fingerprint_hex_faithful:
  "length (fingerprint_hex P n) = 16 \<and>
   (fingerprint_hex P n = fingerprint_hex P m \<longleftrightarrow> fingerprint P n = fingerprint P m)"
proof -
  have "unat w < 16 ^ 16" for w :: "64 word"
  proof -
    have "unat w < 2 ^ 64" using unsigned_less [of w, where 'a = nat] by simp
    then show ?thesis by simp
  qed
  then have "fingerprint_hex P n = fingerprint_hex P m \<Longrightarrow> unat (fingerprint P n) = unat (fingerprint P m)"
    unfolding fingerprint_hex_def by (intro hex_digits_inj)
  then show ?thesis by (auto simp: fingerprint_hex_def intro: word_unat_eq_iff [THEN iffD2])
qed

end
