(* ===== verification/Condition_State.thy ===== *)
theory Condition_State
  imports Partition_Mappings Condition_Nodes
begin

text \<open>
  The data the condition engine reads and persists
  (\<open>rivers-core/src/condition/state.rs\<close>, \<open>condition/partition.rs\<close>,
  \<open>condition/cache/types.rs\<close>, \<open>storage/asset.rs\<close>): asset records, the cache and run-tag
  snapshots, per-asset and per-partition state, the context of one evaluation and its
  result, and the state updates after a tick. Hash maps are partial maps; a hash map keyed
  by node index is a map from \<open>nat\<close>. Timestamps are integers.

  The evaluation context carries, besides the fields of the code's \<open>EvalContext\<close>, the two
  environment functions the evaluator calls: the label parameters and the cron test of
  \<open>condition/eval/cron.rs\<close>. The time-window resolver is its method \<open>keys_for\<close>.
\<close>

section \<open>Records and snapshots\<close>

record asset_record =
  code_location_id :: string
  asset_key :: string
  asset_tags :: "string list"
  asset_kinds :: "string list"
  asset_group :: "string option"
  code_version :: "string option"
  last_event_id :: "string option"
  last_run_id :: "string option"
  last_timestamp :: "int option"
  last_data_version :: "string option"
  last_materialization_code_version :: "string option"
  last_input_data_versions :: "(string \<times> string) list"
  asset_pool :: "(string \<times> nat) list"

type_synonym run_tags = "(string \<times> string) list"
type_synonym 'v slot_map = "string \<rightharpoonup> (partition_key option \<rightharpoonup> 'v)"
type_synonym 'v latches = "nat \<rightharpoonup> 'v"
type_synonym 'v dep_latches = "string \<rightharpoonup> 'v latches"

record partition_status =
  ps_in_progress :: "partition_key set"
  ps_failed :: "partition_key set"
  ps_failed_timestamps :: "partition_key \<rightharpoonup> int"
  ps_timestamps :: "partition_key \<rightharpoonup> int"

definition empty_partition_status :: partition_status where
  "empty_partition_status =
     \<lparr>ps_in_progress = {}, ps_failed = {}, ps_failed_timestamps = Map.empty, ps_timestamps = Map.empty\<rparr>"

record backfill_state =
  bf_assets :: "string \<rightharpoonup> string list"
  bf_partition_keys :: "string \<rightharpoonup> partition_key list"

record cache_snapshot =
  records :: "string \<rightharpoonup> asset_record"
  upstream_deps :: "string \<rightharpoonup> string list"
  in_progress_assets :: "string set"
  failed_assets :: "string set"
  failed_asset_timestamps :: "string \<rightharpoonup> int"
  backfill :: backfill_state

record run_tag_snapshot =
  last_run_tags :: "run_tags slot_map"
  tick_materialization_tags :: "run_tags list slot_map"
  last_run_asset_names :: "string list slot_map"

section \<open>Persisted state\<close>

record dep_baseline =
  db_timestamp :: "int option"
  db_data_version :: "string option"

record partition_state =
  previous_selections :: "key_selection latches"
  pst_timestamps :: "partition_key \<rightharpoonup> int"
  pst_handled :: "partition_key set"
  dep_previous_selections :: "key_selection dep_latches"

definition default_partition_state :: partition_state where
  "default_partition_state =
     \<lparr>previous_selections = Map.empty, pst_timestamps = Map.empty, pst_handled = {},
      dep_previous_selections = Map.empty\<rparr>"

record asset_state =
  previous_results :: "bool latches"
  dep_previous_results :: "bool dep_latches"
  dep_baselines :: "string \<rightharpoonup> dep_baseline"
  last_handled_timestamp :: "int option"
  last_materialized_timestamp :: "int option"
  seen_data_version :: "string option"
  last_tick_timestamp :: "int option"
  condition_fingerprint :: string
  asset_is_initial :: bool
  partition_state :: "partition_state option"

definition default_asset_state :: asset_state where
  "default_asset_state =
     \<lparr>previous_results = Map.empty, dep_previous_results = Map.empty, dep_baselines = Map.empty,
      last_handled_timestamp = None, last_materialized_timestamp = None, seen_data_version = None,
      last_tick_timestamp = None, condition_fingerprint = [], asset_is_initial = False,
      partition_state = None\<rparr>"

definition reset_for_new_tree :: "string \<Rightarrow> asset_state \<Rightarrow> asset_state" where
  "reset_for_new_tree new_fingerprint s =
     s\<lparr>previous_results := Map.empty, dep_previous_results := Map.empty,
       last_handled_timestamp := None, last_tick_timestamp := None,
       condition_fingerprint := new_fingerprint, asset_is_initial := True, partition_state := None\<rparr>"

definition scalar_clone :: "asset_state \<Rightarrow> asset_state" where
  "scalar_clone s = s\<lparr>partition_state := None\<rparr>"

record pending_entry =
  pe_asset_key :: string
  pe_run_ids :: "string list"
  pe_backfill_ids :: "string list"
  pe_committed :: asset_state
  pe_dispatched_keys :: "partition_key list"

record pending_dispatch =
  pd_tick_timestamp :: int
  pd_entries :: "pending_entry list"

record eval_state =
  schema_version :: nat
  es_assets :: "string \<rightharpoonup> asset_state"
  es_is_initial :: bool
  es_failed_assets :: "string \<rightharpoonup> int"

definition EVAL_STATE_SCHEMA_VERSION :: nat where
  "EVAL_STATE_SCHEMA_VERSION = 1"

definition default_eval_state :: eval_state where
  "default_eval_state =
     \<lparr>schema_version = EVAL_STATE_SCHEMA_VERSION, es_assets = Map.empty, es_is_initial = False,
      es_failed_assets = Map.empty\<rparr>"

definition migrate_loaded :: "eval_state \<Rightarrow> eval_state" where
  "migrate_loaded s = s\<lparr>schema_version := EVAL_STATE_SCHEMA_VERSION\<rparr>"

section \<open>Evaluation context and result\<close>

type_synonym window_fn = "string \<Rightarrow> partition_key set \<Rightarrow> f64 option \<Rightarrow> partition_key set option"

record partition_context =
  all_keys :: "partition_key set"
  pc_in_progress :: "partition_key set"
  pc_failed :: "partition_key set"
  pc_timestamps :: "partition_key \<rightharpoonup> int"
  pc_resolver :: resolver
  time_windows :: "window_fn option"
  all_partition_statuses :: "string \<rightharpoonup> partition_status"
  dep_root_floor :: "(partition_key \<rightharpoonup> int option) option"

record eval_env =
  env_labels :: label_lib
  env_cron :: "string \<Rightarrow> int \<Rightarrow> int \<Rightarrow> string option \<Rightarrow> bool"

record eval_context =
  target_key :: string
  root_key :: string
  target_record :: asset_record
  cache :: cache_snapshot
  tags :: run_tag_snapshot
  prev_state :: asset_state
  all_asset_states :: "string \<rightharpoonup> asset_state"
  requested_this_tick :: "string \<rightharpoonup> key_selection"
  now :: int
  is_initial :: bool
  partitions :: "partition_context option"
  root_partition_floor :: "int option option"
  env :: eval_env

record eval_result =
  fired :: bool
  sub_results :: "bool latches"
  result_selection :: "key_selection option"
  sub_selections :: "key_selection latches option"
  dep_sub_results :: "bool dep_latches"
  dep_sub_selections :: "key_selection dep_latches option"

datatype node_status = STrue | SFalse | SSkipped

fun status_from_bool :: "bool \<Rightarrow> node_status" where
  "status_from_bool v = (if v then STrue else SFalse)"

text \<open>Index, label, type tag, status, children, number of partitions.\<close>

datatype eval_tree = ENode nat string string node_status "eval_tree list" "nat option"

definition new_tree ::
  "label_lib \<Rightarrow> condition_node \<Rightarrow> nat \<Rightarrow> node_status \<Rightarrow> eval_tree list \<Rightarrow> nat option \<Rightarrow> eval_tree" where
  "new_tree P node idx status ts num = ENode idx (display_label P node) (node_type_str node) status ts num"

section \<open>State updates after a tick\<close>

record update_context =
  uc_record_timestamp :: "int option"
  uc_data_version :: "string option"
  uc_now :: int
  uc_is_initial :: bool
  uc_partition_timestamps :: "(partition_key \<rightharpoonup> int) option"

definition from_eval_context :: "eval_context \<Rightarrow> update_context" where
  "from_eval_context ctx =
     \<lparr>uc_record_timestamp = last_timestamp (target_record ctx),
      uc_data_version = last_data_version (target_record ctx),
      uc_now = now ctx, uc_is_initial = is_initial ctx,
      uc_partition_timestamps = map_option pc_timestamps (partitions ctx)\<rparr>"

text \<open>
  Retaining the keys of the new timestamps and then overwriting or inserting each of them
  leaves the new timestamps.
\<close>

definition merge_timestamps :: "(partition_key \<rightharpoonup> int) \<Rightarrow> (partition_key \<rightharpoonup> int) \<Rightarrow> (partition_key \<rightharpoonup> int)" where
  "merge_timestamps old new = (\<lambda>k. if new k = None then None else (old ++ new) k)"

definition update_partition_state ::
  "(partition_key \<rightharpoonup> int) \<Rightarrow> key_selection latches \<Rightarrow> key_selection dep_latches option \<Rightarrow>
   partition_state option \<Rightarrow> partition_state" where
  "update_partition_state timestamps sub dep ps0 =
     (let ps = (case ps0 of Some p \<Rightarrow> p | None \<Rightarrow> default_partition_state)
      in ps\<lparr>previous_selections := sub,
            dep_previous_selections := (case dep of Some d \<Rightarrow> d | None \<Rightarrow> dep_previous_selections ps),
            pst_timestamps := merge_timestamps (pst_timestamps ps) timestamps,
            pst_handled := {}\<rparr>)"

definition update_condition_state :: "update_context \<Rightarrow> eval_result \<Rightarrow> asset_state \<Rightarrow> asset_state" where
  "update_condition_state uc result s =
     s\<lparr>asset_is_initial := False,
       last_materialized_timestamp := uc_record_timestamp uc,
       seen_data_version := uc_data_version uc,
       last_tick_timestamp := Some (uc_now uc),
       previous_results := sub_results result,
       dep_previous_results := dep_sub_results result,
       partition_state :=
         (case sub_selections result of
            None \<Rightarrow> None
          | Some sub \<Rightarrow>
              (case uc_partition_timestamps uc of
                 None \<Rightarrow> partition_state s
               | Some timestamps \<Rightarrow>
                   Some (update_partition_state timestamps sub (dep_sub_selections result) (partition_state s))))\<rparr>"

section \<open>Dependency baselines\<close>

definition eligible_deps :: "(string \<rightharpoonup> string list) \<Rightarrow> string set \<Rightarrow> string \<Rightarrow> string list" where
  "eligible_deps deps_of conditioned root =
     (case deps_of root of None \<Rightarrow> [] | Some ds \<Rightarrow> filter (\<lambda>d. d \<notin> conditioned) ds)"

definition record_baseline :: "(string \<rightharpoonup> asset_record) \<Rightarrow> string \<Rightarrow> dep_baseline" where
  "record_baseline recs dep =
     \<lparr>db_timestamp = Option.bind (recs dep) last_timestamp,
      db_data_version = Option.bind (recs dep) last_data_version\<rparr>"

definition set_root_baselines ::
  "(string \<rightharpoonup> string list) \<Rightarrow> string set \<Rightarrow> (string \<rightharpoonup> asset_record) \<Rightarrow> string \<Rightarrow>
   (string \<rightharpoonup> asset_state) \<Rightarrow> (string \<rightharpoonup> asset_state)" where
  "set_root_baselines deps_of conditioned recs root states =
     (case states root of
        None \<Rightarrow> states
      | Some s \<Rightarrow>
          states(root \<mapsto>
            s\<lparr>dep_baselines :=
               fold (\<lambda>dep m. m(dep \<mapsto> record_baseline recs dep)) (eligible_deps deps_of conditioned root)
                 (dep_baselines s)\<rparr>))"

definition touch_dep ::
  "(string \<rightharpoonup> asset_record) \<Rightarrow> (string \<rightharpoonup> partition_status) \<Rightarrow> string \<Rightarrow> asset_state option \<Rightarrow> asset_state" where
  "touch_dep recs statuses dep entry =
     (let s = (case entry of Some s \<Rightarrow> s | None \<Rightarrow> default_asset_state)
      in s\<lparr>last_materialized_timestamp := Option.bind (recs dep) last_timestamp,
           seen_data_version := Option.bind (recs dep) last_data_version,
           partition_state :=
             (case statuses dep of
                None \<Rightarrow> partition_state s
              | Some e \<Rightarrow>
                  Some ((case partition_state s of Some p \<Rightarrow> p | None \<Rightarrow> default_partition_state)
                          \<lparr>pst_timestamps := ps_timestamps e\<rparr>))\<rparr>)"

definition touched_deps :: "(string \<rightharpoonup> string list) \<Rightarrow> string set \<Rightarrow> string list \<Rightarrow> string set" where
  "touched_deps deps_of conditioned roots = (\<Union>r\<in>set roots. set (eligible_deps deps_of conditioned r))"

definition update_dep_baselines ::
  "string list \<Rightarrow> (string \<rightharpoonup> string list) \<Rightarrow> string set \<Rightarrow> (string \<rightharpoonup> partition_status) \<Rightarrow>
   (string \<rightharpoonup> asset_record) \<Rightarrow> (string \<rightharpoonup> asset_state) \<Rightarrow> (string \<rightharpoonup> asset_state)" where
  "update_dep_baselines fired_or_initial deps_of conditioned statuses recs states =
     (let states1 = fold (set_root_baselines deps_of conditioned recs) fired_or_initial states
      in (\<lambda>k. if k \<in> touched_deps deps_of conditioned fired_or_initial
              then Some (touch_dep recs statuses k (states1 k)) else states1 k))"

section \<open>What the updates keep\<close>

lemma merge_timestamps_new [simp]: "merge_timestamps old new = new"
  by (auto simp: merge_timestamps_def map_add_def split: option.split)

end
