(* ===== verification/Condition_Eval.thy ===== *)
theory Condition_Eval
  imports Condition_State
begin

text \<open>
  The condition evaluator (\<open>rivers-core/src/condition/eval/mod.rs\<close>, \<open>support.rs\<close>,
  \<open>domain.rs\<close>). The evaluator is generic over a domain of results: booleans for an
  unpartitioned asset, partition selections for a partitioned one. The trait
  \<open>EvalDomain\<close> is the record \<open>eval_domain\<close> of its functions, passed to the evaluator, and
  its two implementations are those of the theory \<open>Condition_Domains\<close>.

  The evaluator threads the pre-order node counter, the latches \<open>sub\<close> of the stateful
  nodes and the scope of the per-dependency latches. Evaluating a subtree against a
  dependency re-enters the evaluator: the domain's \<open>pivot_into_dep\<close> receives the
  evaluator of the subtree as a function. The counter is a natural number; a tree of
  \<open>2 ^ 32\<close> nodes does not exist.
\<close>

section \<open>Domains\<close>

record 'v dep_scope =
  sc_prev :: "'v dep_latches"
  sc_acc :: "'v dep_latches"
  sc_cur :: "'v latches option"
  sc_bridged :: "string \<rightharpoonup> nat set"

type_synonym 'v est = "nat \<times> 'v latches \<times> 'v dep_scope"
type_synonym 'v evaluator =
  "eval_context \<Rightarrow> 'v est \<Rightarrow> bool \<Rightarrow> ('v \<times> eval_tree option) \<times> 'v est"
type_synonym 'v pivot =
  "'v evaluator \<Rightarrow> string \<Rightarrow> condition_node \<Rightarrow> eval_context \<Rightarrow> nat \<Rightarrow> 'v dep_scope \<Rightarrow>
   'v \<times> nat \<times> 'v dep_scope"

record 'v eval_domain =
  d_is_true :: "'v \<Rightarrow> bool"
  d_is_all :: "'v \<Rightarrow> bool"
  d_num_partitions :: "'v \<Rightarrow> nat \<Rightarrow> nat option"
  d_all :: 'v
  d_empty :: 'v
  d_from_bool :: "bool \<Rightarrow> 'v"
  d_and :: "'v \<Rightarrow> 'v \<Rightarrow> 'v"
  d_or :: "'v \<Rightarrow> 'v \<Rightarrow> 'v"
  d_not :: "eval_context \<Rightarrow> 'v \<Rightarrow> 'v"
  d_difference :: "eval_context \<Rightarrow> 'v \<Rightarrow> 'v \<Rightarrow> 'v"
  d_restrict :: "eval_context \<Rightarrow> 'v \<Rightarrow> 'v"
  d_missing :: "eval_context \<Rightarrow> 'v"
  d_in_progress :: "eval_context \<Rightarrow> 'v"
  d_failed :: "eval_context \<Rightarrow> 'v"
  d_newly_updated :: "eval_context \<Rightarrow> 'v"
  d_newly_requested :: "eval_context \<Rightarrow> 'v"
  d_in_latest_window :: "eval_context \<Rightarrow> f64 option \<Rightarrow> 'v"
  d_backfill_in_progress :: "eval_context \<Rightarrow> 'v"
  d_last_executed_with_tags :: "eval_context \<Rightarrow> string list \<Rightarrow> run_tags \<Rightarrow> 'v"
  d_update_tags :: "eval_context \<Rightarrow> string list \<Rightarrow> run_tags \<Rightarrow> bool \<Rightarrow> 'v"
  d_last_run_includes_target :: "eval_context \<Rightarrow> 'v"
  d_will_be_requested :: "eval_context \<Rightarrow> 'v"
  d_prev_latch :: "'v dep_scope \<Rightarrow> eval_context \<Rightarrow> nat \<Rightarrow> 'v"
  d_since_last_handled :: "eval_context \<Rightarrow> 'v \<Rightarrow> 'v"
  d_pivot :: "'v pivot"
  d_root_dep_prev :: "eval_context \<Rightarrow> 'v dep_latches"
  d_assemble :: "'v \<Rightarrow> eval_context \<Rightarrow> 'v latches \<Rightarrow> 'v dep_latches \<Rightarrow> eval_result"

datatype quantifier = QAny | QAll

fun q_init :: "'v eval_domain \<Rightarrow> quantifier \<Rightarrow> 'v" where
  "q_init D QAny = d_empty D"
| "q_init D QAll = d_all D"

fun q_combine :: "'v eval_domain \<Rightarrow> quantifier \<Rightarrow> 'v \<Rightarrow> 'v \<Rightarrow> 'v" where
  "q_combine D QAny = d_or D"
| "q_combine D QAll = d_and D"

fun q_saturated :: "'v eval_domain \<Rightarrow> quantifier \<Rightarrow> 'v \<Rightarrow> bool" where
  "q_saturated D QAny v = d_is_all D v"
| "q_saturated D QAll v = (\<not> d_is_true D v)"

section \<open>Support functions\<close>

definition data_version_baseline :: "eval_context \<Rightarrow> string option \<times> int option" where
  "data_version_baseline ctx =
     (case (if target_key ctx \<noteq> root_key ctx
            then Option.bind (all_asset_states ctx (root_key ctx)) (\<lambda>s. dep_baselines s (target_key ctx))
            else None) of
        Some b \<Rightarrow> (db_data_version b, db_timestamp b)
      | None \<Rightarrow> (seen_data_version (prev_state ctx), last_materialized_timestamp (prev_state ctx)))"

definition root_last_tick :: "eval_context \<Rightarrow> int option" where
  "root_last_tick ctx =
     (case Option.bind (all_asset_states ctx (root_key ctx)) last_tick_timestamp of
        Some t \<Rightarrow> Some t
      | None \<Rightarrow> if target_key ctx = root_key ctx then last_tick_timestamp (prev_state ctx) else None)"

definition root_handled_state :: "eval_context \<Rightarrow> int option \<times> int option" where
  "root_handled_state ctx =
     (case all_asset_states ctx (root_key ctx) of
        Some s \<Rightarrow> (last_handled_timestamp s, last_tick_timestamp s)
      | None \<Rightarrow>
          if target_key ctx = root_key ctx
          then (last_handled_timestamp (prev_state ctx), last_tick_timestamp (prev_state ctx))
          else (None, None))"

definition requested_last_tick :: "eval_context \<Rightarrow> bool" where
  "requested_last_tick ctx \<longleftrightarrow>
     last_handled_timestamp (prev_state ctx) \<noteq> None \<and>
     last_handled_timestamp (prev_state ctx) = last_tick_timestamp (prev_state ctx)"

definition collect_dep_latch :: "string \<Rightarrow> 'v latches \<Rightarrow> 'v dep_scope \<Rightarrow> 'v dep_scope" where
  "collect_dep_latch dep_key local scope =
     (if local = Map.empty then scope
      else scope\<lparr>sc_bridged :=
                   (case sc_bridged scope dep_key of
                      None \<Rightarrow> sc_bridged scope
                    | Some marks \<Rightarrow> (sc_bridged scope)(dep_key \<mapsto> marks - dom local)),
                 sc_acc :=
                   (sc_acc scope)(dep_key \<mapsto>
                      (case sc_acc scope dep_key of None \<Rightarrow> Map.empty | Some m \<Rightarrow> m) ++ local)\<rparr>)"

text \<open>One entry of a bridged latch map: fill a vacant slot, widen a slot a bridge filled.\<close>

definition bridge_slot :: "key_selection latches \<Rightarrow> nat set \<Rightarrow> key_selection latches \<Rightarrow> key_selection latches" where
  "bridge_slot slot marks local = (\<lambda>idx.
     case local idx of
       None \<Rightarrow> slot idx
     | Some sel \<Rightarrow>
         (case slot idx of
            None \<Rightarrow> Some sel
          | Some e \<Rightarrow> if idx \<in> marks then Some (sel_union e sel) else Some e))"

definition collect_bridged_latch ::
  "string \<Rightarrow> key_selection latches \<Rightarrow> key_selection dep_scope \<Rightarrow> key_selection dep_scope" where
  "collect_bridged_latch dep_key local scope =
     (if local = Map.empty then scope
      else let slot = (case sc_acc scope dep_key of None \<Rightarrow> Map.empty | Some m \<Rightarrow> m);
               marks = (case sc_bridged scope dep_key of None \<Rightarrow> {} | Some s \<Rightarrow> s)
           in scope\<lparr>sc_acc := (sc_acc scope)(dep_key \<mapsto> bridge_slot slot marks local),
                    sc_bridged := (sc_bridged scope)(dep_key \<mapsto> marks \<union> (dom local - dom slot))\<rparr>)"

text \<open>
  The loop over the accumulator of a bridged evaluation: its keys are distinct, and each
  iteration touches the entry of its own key only.
\<close>

definition collect_bridged_all ::
  "key_selection dep_latches \<Rightarrow> key_selection dep_scope \<Rightarrow> key_selection dep_scope" where
  "collect_bridged_all nested scope =
     scope\<lparr>sc_acc := (\<lambda>k. case nested k of
                            None \<Rightarrow> sc_acc scope k
                          | Some local \<Rightarrow> sc_acc (collect_bridged_latch k local scope) k),
           sc_bridged := (\<lambda>k. case nested k of
                            None \<Rightarrow> sc_bridged scope k
                          | Some local \<Rightarrow> sc_bridged (collect_bridged_latch k local scope) k)\<rparr>"

definition select_in_universe :: "partition_key set \<Rightarrow> partition_context \<Rightarrow> key_selection" where
  "select_in_universe ks pctx = from_keys (Set.filter (\<lambda>k. k \<in> all_keys pctx) ks)"

definition prev_partition_latch :: "key_selection dep_scope \<Rightarrow> eval_context \<Rightarrow> nat \<Rightarrow> key_selection" where
  "prev_partition_latch scope ctx my_idx =
     (case (case sc_cur scope of
              Some m \<Rightarrow> m my_idx
            | None \<Rightarrow> Option.bind (partition_state (prev_state ctx)) (\<lambda>ps. previous_selections ps my_idx)) of
        Some s \<Rightarrow> s
      | None \<Rightarrow> SelEmpty)"

fun build_skipped_subtree :: "label_lib \<Rightarrow> condition_node \<Rightarrow> nat \<Rightarrow> eval_tree \<times> nat" where
  "build_skipped_subtree P n counter =
     (let (ts, counter') =
            fold (\<lambda>c (ts, k). let (t, k') = build_skipped_subtree P c k in (ts @ [t], k'))
              (children n) ([], counter + 1)
      in (new_tree P n counter SSkipped (if is_dep_aggregate n then [] else ts) None, counter'))"

declare build_skipped_subtree.simps [simp del]

text \<open>The loop over an asset's active backfills; one without partition keys targets everything.\<close>

fun backfill_loop ::
  "(string \<rightharpoonup> partition_key list) \<Rightarrow> partition_key set \<Rightarrow> string list \<Rightarrow> partition_key set \<Rightarrow> key_selection" where
  "backfill_loop keys_of universe [] targeted = from_keys targeted"
| "backfill_loop keys_of universe (b # bs) targeted =
     (case keys_of b of
        Some ks \<Rightarrow> if ks \<noteq> [] then backfill_loop keys_of universe bs (targeted \<union> (universe \<inter> set ks)) else SelAll
      | None \<Rightarrow> SelAll)"

definition eval_backfill_in_progress_partitioned :: "eval_context \<Rightarrow> partition_context \<Rightarrow> key_selection" where
  "eval_backfill_in_progress_partitioned ctx pctx =
     (case bf_assets (backfill (cache ctx)) (target_key ctx) of
        None \<Rightarrow> SelEmpty
      | Some ids \<Rightarrow> backfill_loop (bf_partition_keys (backfill (cache ctx))) (all_keys pctx) ids {})"

definition partition_filter_select ::
  "(partition_key option \<rightharpoonup> 'v) option \<Rightarrow> partition_context \<Rightarrow> ('v \<Rightarrow> bool) \<Rightarrow> key_selection" where
  "partition_filter_select slots pctx pred =
     (case slots of
        None \<Rightarrow> SelEmpty
      | Some d \<Rightarrow> from_keys (Set.filter (\<lambda>k. case d (Some k) of Some v \<Rightarrow> pred v | None \<Rightarrow> False) (all_keys pctx)))"

definition run_tags_match :: "run_tags \<Rightarrow> string list \<Rightarrow> run_tags \<Rightarrow> bool" where
  "run_tags_match rt tag_keys tag_values \<longleftrightarrow>
     list_all (\<lambda>k. list_ex (\<lambda>(rk, _). rk = k) rt) tag_keys \<and> list_all (\<lambda>t. List.member rt t) tag_values"

definition tag_sets_match :: "run_tags list \<Rightarrow> string list \<Rightarrow> run_tags \<Rightarrow> bool \<Rightarrow> bool" where
  "tag_sets_match tag_sets tag_keys tag_values require_all \<longleftrightarrow>
     tag_sets \<noteq> [] \<and>
     (if require_all then list_all (\<lambda>ts. run_tags_match ts tag_keys tag_values) tag_sets
      else list_ex (\<lambda>ts. run_tags_match ts tag_keys tag_values) tag_sets)"

definition eval_new_update_tags :: "eval_context \<Rightarrow> string list \<Rightarrow> run_tags \<Rightarrow> bool \<Rightarrow> bool" where
  "eval_new_update_tags ctx tag_keys tag_values require_all =
     (case Option.bind (tick_materialization_tags (tags ctx) (target_key ctx)) (\<lambda>slots. slots None) of
        Some tag_sets \<Rightarrow> tag_sets_match tag_sets tag_keys tag_values require_all
      | None \<Rightarrow> False)"

definition eval_new_update_tags_partitioned ::
  "eval_context \<Rightarrow> partition_context \<Rightarrow> string list \<Rightarrow> run_tags \<Rightarrow> bool \<Rightarrow> key_selection" where
  "eval_new_update_tags_partitioned ctx pctx tag_keys tag_values require_all =
     partition_filter_select (tick_materialization_tags (tags ctx) (target_key ctx)) pctx
       (\<lambda>tag_sets. tag_sets_match tag_sets tag_keys tag_values require_all)"

definition dep_newer_than_floor :: "int \<Rightarrow> int option \<Rightarrow> bool" where
  "dep_newer_than_floor dep_ts floor = (case floor of None \<Rightarrow> True | Some f \<Rightarrow> f < dep_ts)"

definition effective_attempt_ts :: "partition_status \<Rightarrow> partition_key \<Rightarrow> int option" where
  "effective_attempt_ts status k = opt_max (ps_timestamps status k) (ps_failed_timestamps status k)"

text \<open>
  The two staleness floors iterate over a set of keys in no particular order; a minimum
  does not depend on it.
\<close>

definition root_floor_over :: "partition_key set \<Rightarrow> partition_status \<Rightarrow> int option" where
  "root_floor_over ks status =
     (if ks = {} \<or> (\<exists>k\<in>ks. effective_attempt_ts status k = None) then None
      else Some (Min ((\<lambda>k. the (effective_attempt_ts status k)) ` ks)))"

definition root_floor_over_attempted :: "partition_key set \<Rightarrow> partition_status \<Rightarrow> int option" where
  "root_floor_over_attempted ks status =
     (let attempted = Set.filter (\<lambda>k. effective_attempt_ts status k \<noteq> None) ks
      in if attempted = {} then None
         else Some (Min ((\<lambda>k. the (effective_attempt_ts status k)) ` attempted)))"

section \<open>The evaluator\<close>

fun deps_loop ::
  "'v eval_domain \<Rightarrow> 'v evaluator \<Rightarrow> condition_node \<Rightarrow> eval_context \<Rightarrow> nat \<Rightarrow> quantifier \<Rightarrow>
   string list \<Rightarrow> 'v \<Rightarrow> 'v dep_scope \<Rightarrow> 'v \<times> 'v dep_scope" where
  "deps_loop D ev condition ctx base quant [] result scope = (result, scope)"
| "deps_loop D ev condition ctx base quant (dep # deps) result scope =
     (let (dep_val, _, scope') = d_pivot D ev dep condition ctx base scope;
          result' = q_combine D quant result dep_val
      in if q_saturated D quant result' \<and> \<not> has_stateful_nodes condition then (result', scope')
         else deps_loop D ev condition ctx base quant deps result' scope')"

definition finalize_dep_counter :: "nat \<Rightarrow> condition_node \<Rightarrow> nat" where
  "finalize_dep_counter base condition = count_nodes condition base"

definition fold_deps ::
  "'v eval_domain \<Rightarrow> 'v evaluator \<Rightarrow> string list \<Rightarrow> condition_node \<Rightarrow> eval_context \<Rightarrow> nat \<Rightarrow>
   'v dep_scope \<Rightarrow> quantifier \<Rightarrow> 'v \<times> nat \<times> 'v dep_scope" where
  "fold_deps D ev deps condition ctx counter scope quant =
     (let (result, scope') = deps_loop D ev condition ctx counter quant deps (q_init D quant) scope
      in (result, finalize_dep_counter counter condition, scope'))"

fun comb_loop ::
  "'v eval_domain \<Rightarrow> eval_context \<Rightarrow> bool \<Rightarrow> quantifier \<Rightarrow> (condition_node \<times> 'v evaluator) list \<Rightarrow>
   'v \<Rightarrow> eval_tree list \<Rightarrow> 'v est \<Rightarrow> ('v \<times> eval_tree list) \<times> 'v est" where
  "comb_loop D ctx bt quant [] result parts st = ((result, parts), st)"
| "comb_loop D ctx bt quant ((child, ev) # cs) result parts (counter, sub, scope) =
     (let sat = q_saturated D quant result
      in if sat \<and> \<not> has_stateful_nodes child
         then if bt
              then let (t, counter') = build_skipped_subtree (env_labels (env ctx)) child counter
                   in comb_loop D ctx bt quant cs result (parts @ [t]) (counter', sub, scope)
              else comb_loop D ctx bt quant cs result parts (count_nodes child counter, sub, scope)
         else let ((child_sel, child_tree), st') = ev ctx (counter, sub, scope) bt;
                  result' = (if sat then result else q_combine D quant result child_sel)
              in comb_loop D ctx bt quant cs result' (parts @ (case child_tree of Some t \<Rightarrow> [t] | None \<Rightarrow> [])) st')"

definition fold_combinator ::
  "'v eval_domain \<Rightarrow> (condition_node \<times> 'v evaluator) list \<Rightarrow> eval_context \<Rightarrow> 'v est \<Rightarrow> bool \<Rightarrow> quantifier \<Rightarrow>
   ('v \<times> eval_tree list) \<times> 'v est" where
  "fold_combinator D cs ctx st bt quant = comb_loop D ctx bt quant cs (q_init D quant) [] st"

text \<open>
  \<open>finish\<close> attaches the tree node of the evaluated \<open>node\<close> when a tree is built.
\<close>

definition finish ::
  "'v eval_domain \<Rightarrow> condition_node \<Rightarrow> eval_context \<Rightarrow> nat \<Rightarrow> bool \<Rightarrow> 'v \<Rightarrow> eval_tree list \<Rightarrow> 'v \<times> eval_tree option" where
  "finish D node ctx my_idx bt sel ts =
     (sel, if bt
           then let n = (case partitions ctx of None \<Rightarrow> 0 | Some p \<Rightarrow> card (all_keys p))
                in Some (new_tree (env_labels (env ctx)) node my_idx (status_from_bool (d_is_true D sel)) ts
                          (d_num_partitions D sel n))
           else None)"

fun opt_list :: "'a option \<Rightarrow> 'a list" where
  "opt_list None = []"
| "opt_list (Some x) = [x]"

text \<open>The leaves, and the predicates on scalars that both domains share.\<close>

definition code_version_changed :: "eval_context \<Rightarrow> bool" where
  "code_version_changed ctx \<longleftrightarrow>
     code_version (target_record ctx) \<noteq> None \<and>
     code_version (target_record ctx) \<noteq> last_materialization_code_version (target_record ctx)"

definition data_version_changed :: "eval_context \<Rightarrow> bool" where
  "data_version_changed ctx =
     (let (prev_dv, prev_ts) = data_version_baseline ctx
      in case last_data_version (target_record ctx) of
           None \<Rightarrow> False
         | Some current \<Rightarrow>
             (case prev_dv of
                Some prev \<Rightarrow> current \<noteq> prev
              | None \<Rightarrow> \<not> is_initial ctx \<and> prev_ts \<noteq> last_timestamp (target_record ctx)))"

definition cron_tick_passed :: "eval_context \<Rightarrow> string \<Rightarrow> string option \<Rightarrow> bool" where
  "cron_tick_passed ctx cron_schedule timezone =
     (let prev_ts = (case root_last_tick ctx of Some t \<Rightarrow> t | None \<Rightarrow> now ctx)
      in env_cron (env ctx) cron_schedule prev_ts (now ctx) timezone)"

fun eval_leaf :: "'v eval_domain \<Rightarrow> condition_node \<Rightarrow> eval_context \<Rightarrow> 'v" where
  "eval_leaf D Missing ctx = d_missing D ctx"
| "eval_leaf D InProgress ctx = d_in_progress D ctx"
| "eval_leaf D ExecutionFailed ctx = d_failed D ctx"
| "eval_leaf D NewlyUpdated ctx = d_newly_updated D ctx"
| "eval_leaf D NewlyRequested ctx = d_newly_requested D ctx"
| "eval_leaf D (InLatestTimeWindow lookback) ctx = d_in_latest_window D ctx lookback"
| "eval_leaf D BackfillInProgress ctx = d_backfill_in_progress D ctx"
| "eval_leaf D (LastExecutedWithTags ks vs) ctx = d_last_executed_with_tags D ctx ks vs"
| "eval_leaf D LastRunIncludesTarget ctx = d_last_run_includes_target D ctx"
| "eval_leaf D WillBeRequested ctx = d_will_be_requested D ctx"
| "eval_leaf D (HasRunWithTags ks vs) ctx = d_update_tags D ctx ks vs False"
| "eval_leaf D (AllRunsHaveTags ks vs) ctx = d_update_tags D ctx ks vs True"
| "eval_leaf D CodeVersionChanged ctx = d_from_bool D (code_version_changed ctx)"
| "eval_leaf D DataVersionChanged ctx = d_from_bool D (data_version_changed ctx)"
| "eval_leaf D InitialEvaluation ctx = d_from_bool D (is_initial ctx)"
| "eval_leaf D (CronTickPassed cron_schedule timezone) ctx = d_from_bool D (cron_tick_passed ctx cron_schedule timezone)"
| "eval_leaf D _ ctx = d_empty D"

definition target_deps :: "eval_context \<Rightarrow> string list" where
  "target_deps ctx = (case upstream_deps (cache ctx) (target_key ctx) of Some ds \<Rightarrow> ds | None \<Rightarrow> [])"

definition eval_deps ::
  "'v eval_domain \<Rightarrow> 'v evaluator \<Rightarrow> condition_node \<Rightarrow> condition_node \<Rightarrow> (eval_context \<Rightarrow> string list) \<Rightarrow>
   quantifier \<Rightarrow> 'v evaluator" where
  "eval_deps D ev node condition deps quant ctx st bt =
     (let (my_idx, sub, scope) = st;
          (result, counter', scope') = fold_deps D ev (deps ctx) condition ctx (my_idx + 1) scope quant
      in (finish D node ctx my_idx bt result [], (counter', sub, scope')))"

definition eval_comb ::
  "'v eval_domain \<Rightarrow> condition_node \<Rightarrow> (condition_node \<times> 'v evaluator) list \<Rightarrow> quantifier \<Rightarrow> 'v evaluator" where
  "eval_comb D node cs quant ctx st bt =
     (let (my_idx, sub, scope) = st;
          ((result, parts), st') = fold_combinator D cs ctx (my_idx + 1, sub, scope) bt quant
      in (finish D node ctx my_idx bt result parts, st'))"

definition eval_not :: "'v eval_domain \<Rightarrow> condition_node \<Rightarrow> 'v evaluator \<Rightarrow> 'v evaluator" where
  "eval_not D node ev ctx st bt =
     (let (my_idx, sub, scope) = st;
          ((child_sel, child_tree), st') = ev ctx (my_idx + 1, sub, scope) bt
      in (finish D node ctx my_idx bt (d_not D ctx child_sel) (opt_list child_tree), st'))"

definition eval_newly_true :: "'v eval_domain \<Rightarrow> condition_node \<Rightarrow> 'v evaluator \<Rightarrow> 'v evaluator" where
  "eval_newly_true D node ev ctx st bt =
     (let (my_idx, sub, scope) = st;
          ((current, child_tree), (counter', sub', scope')) = ev ctx (my_idx + 1, sub, scope) bt;
          previous = d_prev_latch D scope' ctx my_idx;
          result = d_difference D ctx current previous
      in (finish D node ctx my_idx bt result (opt_list child_tree), (counter', sub'(my_idx \<mapsto> current), scope')))"

definition eval_since :: "'v eval_domain \<Rightarrow> condition_node \<Rightarrow> 'v evaluator \<Rightarrow> 'v evaluator \<Rightarrow> 'v evaluator" where
  "eval_since D node ev_trigger ev_reset ctx st bt =
     (let (my_idx, sub, scope) = st;
          ((trigger_sel, trigger_tree), st1) = ev_trigger ctx (my_idx + 1, sub, scope) bt;
          ((reset_sel, reset_tree), (counter', sub', scope')) = ev_reset ctx st1 bt;
          prev = d_prev_latch D scope' ctx my_idx;
          result = d_restrict D ctx (d_difference D ctx (d_or D prev trigger_sel) reset_sel)
      in (finish D node ctx my_idx bt result (opt_list trigger_tree @ opt_list reset_tree),
          (counter', sub'(my_idx \<mapsto> result), scope')))"

definition eval_since_last_handled :: "'v eval_domain \<Rightarrow> condition_node \<Rightarrow> 'v evaluator \<Rightarrow> 'v evaluator" where
  "eval_since_last_handled D node ev ctx st bt =
     (let (my_idx, sub, scope) = st;
          ((current, child_tree), st') = ev ctx (my_idx + 1, sub, scope) bt
      in (finish D node ctx my_idx bt (d_since_last_handled D ctx current) (opt_list child_tree), st'))"

definition eval_leaf_at :: "'v eval_domain \<Rightarrow> condition_node \<Rightarrow> 'v evaluator" where
  "eval_leaf_at D leaf ctx st bt =
     (let (my_idx, sub, scope) = st
      in (finish D leaf ctx my_idx bt (eval_leaf D leaf ctx) [], (my_idx + 1, sub, scope)))"

fun eval :: "'v eval_domain \<Rightarrow> condition_node \<Rightarrow> 'v evaluator" where
  "eval D (AnyDepsMatch c l) = eval_deps D (eval D c) (AnyDepsMatch c l) c target_deps QAny"
| "eval D (AllDepsMatch c l) = eval_deps D (eval D c) (AllDepsMatch c l) c target_deps QAll"
| "eval D (AssetMatches ks c) = eval_deps D (eval D c) (AssetMatches ks c) c (\<lambda>_. ks) QAny"
| "eval D (CAnd cs) = eval_comb D (CAnd cs) (map (\<lambda>c. (c, eval D c)) cs) QAll"
| "eval D (COr cs) = eval_comb D (COr cs) (map (\<lambda>c. (c, eval D c)) cs) QAny"
| "eval D (CNot c) = eval_not D (CNot c) (eval D c)"
| "eval D (NewlyTrue c) = eval_newly_true D (NewlyTrue c) (eval D c)"
| "eval D (Since t r) = eval_since D (Since t r) (eval D t) (eval D r)"
| "eval D (SinceLastHandled c) = eval_since_last_handled D (SinceLastHandled c) (eval D c)"
| "eval D leaf = eval_leaf_at D leaf"

section \<open>Node indices\<close>

text \<open>
  Latches are persisted under pre-order node indices, so the counter must advance over a
  subtree by its number of nodes whatever happens in it. \<open>advances n ev\<close> says so of an
  evaluator of \<open>n\<close>.
\<close>

definition advances :: "condition_node \<Rightarrow> 'v evaluator \<Rightarrow> bool" where
  "advances n ev \<longleftrightarrow> (\<forall>ctx st bt. fst (snd (ev ctx st bt)) = fst st + node_count n)"

lemma advancesI: "(\<And>ctx k sub sc bt. fst (snd (ev ctx (k, sub, sc) bt)) = k + node_count n) \<Longrightarrow> advances n ev"
  by (simp add: advances_def)

lemma advancesD: "advances n ev \<Longrightarrow> fst (snd (ev ctx st bt)) = fst st + node_count n"
  unfolding advances_def by blast

lemma skip_list_counter:
  assumes "\<And>c k. c \<in> set cs \<Longrightarrow> snd (f c k) = k + node_count c"
  shows "snd (fold (\<lambda>c (ts, k). let (t, k') = f c k in (ts @ [t], k')) cs (ts, k)) =
         k + sum_list (map node_count cs)"
  using assms
proof (induction cs arbitrary: ts k)
  case (Cons c cs)
  then show ?case by (simp add: case_prod_beta Let_def add.assoc)
qed simp

lemma build_skipped_counter [cond_simps]: "snd (build_skipped_subtree P n k) = k + node_count n"
proof (induction n arbitrary: k rule: node_induct)
  case (node n)
  show ?case
    using skip_list_counter [of "children n" "build_skipped_subtree P" "[]" "k + 1"] node
    by (simp add: build_skipped_subtree.simps [of P n] node_count.simps [of n] case_prod_beta Let_def)
qed

lemma comb_loop_counter:
  assumes "\<forall>x\<in>set cs. advances (fst x) (snd x)"
  shows "fst (snd (comb_loop D ctx bt q cs r ps st)) = fst st + sum_list (map (\<lambda>x. node_count (fst x)) cs)"
  using assms
proof (induction cs arbitrary: r ps st)
  case (Cons x cs)
  obtain c ev where x: "x = (c, ev)" by (cases x)
  obtain k sub sc where st: "st = (k, sub, sc)" by (cases st)
  have ev: "fst (snd (ev ctx (k, sub, sc) bt)) = k + node_count c"
    using Cons.prems x advancesD [of c ev ctx "(k, sub, sc)" bt] by simp
  have IH: "fst (snd (comb_loop D ctx bt q cs r ps st)) = fst st + sum_list (map (\<lambda>x. node_count (fst x)) cs)"
    for r ps st using Cons.IH Cons.prems by simp
  show ?case
    using ev IH unfolding x st by (cases bt) (simp_all add: case_prod_beta Let_def cond_simps)
qed simp

lemma eval_comb_advances:
  assumes "\<And>c. c \<in> set cs \<Longrightarrow> advances c (eval D c)" and "node_count n = 1 + sum_list (map node_count cs)"
  shows "advances n (eval_comb D n (map (\<lambda>c. (c, eval D c)) cs) q)"
proof (rule advancesI)
  fix ctx k sub sc bt
  have "\<forall>x\<in>set (map (\<lambda>c. (c, eval D c)) cs). advances (fst x) (snd x)" using assms(1) by auto
  from comb_loop_counter [OF this, of D ctx bt q "q_init D q" "[]" "(k + 1, sub, sc)"]
  show "fst (snd (eval_comb D n (map (\<lambda>c. (c, eval D c)) cs) q ctx (k, sub, sc) bt)) = k + node_count n"
    using assms(2) by (simp add: eval_comb_def fold_combinator_def case_prod_beta Let_def comp_def)
qed

lemma eval_deps_advances: "node_count n = 1 + node_count c \<Longrightarrow> advances n (eval_deps D ev n c ds q)"
  by (rule advancesI) (simp add: eval_deps_def fold_deps_def finalize_dep_counter_def case_prod_beta Let_def cond_simps)

lemma eval_unary_advances:
  assumes "advances c ev" and "node_count n = 1 + node_count c"
  shows "advances n (eval_not D n ev)" "advances n (eval_newly_true D n ev)"
    "advances n (eval_since_last_handled D n ev)"
  using assms(2)
  by (auto intro!: advancesI
      simp: eval_not_def eval_newly_true_def eval_since_last_handled_def case_prod_beta Let_def advancesD [OF assms(1)])

lemma eval_since_advances:
  assumes "advances t ev" and "advances r ev'"
  shows "advances (Since t r) (eval_since D (Since t r) ev ev')"
  by (auto intro!: advancesI
      simp: eval_since_def case_prod_beta Let_def advancesD [OF assms(1)] advancesD [OF assms(2)])

lemma eval_leaf_advances: "node_count n = 1 \<Longrightarrow> advances n (eval_leaf_at D n)"
  by (rule advancesI) (simp add: eval_leaf_at_def)

lemma eval_advances: "advances n (eval D n)"
  by (induction n)
    (simp_all add: eval_comb_advances eval_deps_advances eval_unary_advances eval_since_advances
      eval_leaf_advances)

text \<open>
  the node counter advances over a condition by exactly its number of nodes, in either
  domain, with or without a tree, and whatever is skipped by short-circuiting or evaluated
  on dependencies. Persisted latches therefore always name the node that wrote them.
\<close>

theorem eval_counter: "fst (snd (eval D n ctx st bt)) = fst st + node_count n"
  by (rule advancesD [OF eval_advances])

section \<open>The tree does not influence the result\<close>

text \<open>An evaluator that is blind to \<open>bt\<close> gives the same value and state in both modes.\<close>

definition blind :: "'v evaluator \<Rightarrow> bool" where
  "blind ev \<longleftrightarrow>
     (\<forall>ctx st bt. fst (fst (ev ctx st bt)) = fst (fst (ev ctx st False)) \<and> snd (ev ctx st bt) = snd (ev ctx st False))"

lemma blindD:
  "blind ev \<Longrightarrow> fst (fst (ev ctx st bt)) = fst (fst (ev ctx st False))"
  "blind ev \<Longrightarrow> snd (ev ctx st bt) = snd (ev ctx st False)"
  unfolding blind_def by blast+

lemma comb_loop_blind:
  assumes "\<forall>x\<in>set cs. blind (snd x)"
  shows "fst (fst (comb_loop D ctx bt q cs r ps st)) = fst (fst (comb_loop D ctx False q cs r ps' st)) \<and>
         snd (comb_loop D ctx bt q cs r ps st) = snd (comb_loop D ctx False q cs r ps' st)"
  using assms
proof (induction cs arbitrary: r ps ps' st)
  case (Cons x cs)
  obtain c ev where x: "x = (c, ev)" by (cases x)
  obtain k sub sc where st: "st = (k, sub, sc)" by (cases st)
  have ev: "fst (fst (ev ctx (k, sub, sc) bt)) = fst (fst (ev ctx (k, sub, sc) False))"
    "snd (ev ctx (k, sub, sc) bt) = snd (ev ctx (k, sub, sc) False)"
    using Cons.prems x blindD [of ev ctx "(k, sub, sc)" bt] by simp_all
  have IH: "fst (fst (comb_loop D ctx bt q cs r ps st)) = fst (fst (comb_loop D ctx False q cs r ps' st))"
    "snd (comb_loop D ctx bt q cs r ps st) = snd (comb_loop D ctx False q cs r ps' st)" for r ps ps' st
    using Cons.IH [of r ps st ps'] Cons.prems by simp_all
  show ?case
  proof (cases "q_saturated D q r \<and> \<not> has_stateful_nodes c")
    case True
    then show ?thesis unfolding x st
      using IH [of r _ _ ps'] by (cases bt) (simp_all add: case_prod_beta Let_def cond_simps)
  next
    case False
    then show ?thesis unfolding x st comb_loop.simps Let_def if_not_P [OF False] case_prod_beta ev
      by (intro conjI IH)
  qed
qed simp

lemma blindI:
  "(\<And>ctx k sub sc bt. fst (fst (ev ctx (k, sub, sc) bt)) = fst (fst (ev ctx (k, sub, sc) False)) \<and>
      snd (ev ctx (k, sub, sc) bt) = snd (ev ctx (k, sub, sc) False)) \<Longrightarrow> blind ev"
  unfolding blind_def by (intro allI) (metis prod_cases3)

lemma fst_finish [simp]: "fst (finish D n ctx k bt v ts) = v"
  by (simp add: finish_def)

lemma eval_comb_blind:
  assumes "\<And>c. c \<in> set cs \<Longrightarrow> blind (eval D c)"
  shows "blind (eval_comb D n (map (\<lambda>c. (c, eval D c)) cs) q)"
proof (rule blindI)
  fix ctx k sub sc bt
  have "\<forall>x\<in>set (map (\<lambda>c. (c, eval D c)) cs). blind (snd x)" using assms by auto
  from comb_loop_blind [OF this, of D ctx bt q "q_init D q" "[]" "(k + 1, sub, sc)" "[]"]
  show "fst (fst (eval_comb D n (map (\<lambda>c. (c, eval D c)) cs) q ctx (k, sub, sc) bt)) =
      fst (fst (eval_comb D n (map (\<lambda>c. (c, eval D c)) cs) q ctx (k, sub, sc) False)) \<and>
    snd (eval_comb D n (map (\<lambda>c. (c, eval D c)) cs) q ctx (k, sub, sc) bt) =
      snd (eval_comb D n (map (\<lambda>c. (c, eval D c)) cs) q ctx (k, sub, sc) False)"
    by (simp add: eval_comb_def fold_combinator_def case_prod_beta Let_def)
qed

lemma eval_deps_blind: "blind (eval_deps D ev n c ds q)"
  by (rule blindI) (simp add: eval_deps_def case_prod_beta Let_def)

lemma blind_cases:
  assumes "\<And>ctx k sub sc. fst (fst (ev ctx (k, sub, sc) True)) = fst (fst (ev ctx (k, sub, sc) False)) \<and>
      snd (ev ctx (k, sub, sc) True) = snd (ev ctx (k, sub, sc) False)"
  shows "blind ev"
proof (rule blindI)
  show "fst (fst (ev ctx (k, sub, sc) bt)) = fst (fst (ev ctx (k, sub, sc) False)) \<and>
      snd (ev ctx (k, sub, sc) bt) = snd (ev ctx (k, sub, sc) False)" for ctx k sub sc bt
    using assms by (cases bt) simp_all
qed

lemmas blind_TrueD = blindD [where bt = True]

lemma eval_unary_blind:
  assumes "blind ev"
  shows "blind (eval_not D n ev)" "blind (eval_newly_true D n ev)" "blind (eval_since_last_handled D n ev)"
  by (rule blind_cases, simp add: eval_not_def eval_newly_true_def eval_since_last_handled_def case_prod_beta
      Let_def blind_TrueD [OF assms])+

lemma eval_since_blind:
  assumes "blind ev" and "blind ev'"
  shows "blind (eval_since D n ev ev')"
  by (rule blind_cases)
    (simp add: eval_since_def case_prod_beta Let_def blind_TrueD [OF assms(1)] blind_TrueD [OF assms(2)])

lemma eval_leaf_blind: "blind (eval_leaf_at D n)"
  by (rule blindI) (simp add: eval_leaf_at_def)

lemma eval_blind: "blind (eval D n)"
  by (induction n)
    (simp_all add: eval_comb_blind eval_deps_blind eval_unary_blind eval_since_blind eval_leaf_blind)

text \<open>
  building the evaluation tree for the user interface changes neither the value of a
  condition nor any latch or counter.
\<close>

theorem eval_build_tree:
  "fst (fst (eval D n ctx st True)) = fst (fst (eval D n ctx st False)) \<and>
   snd (eval D n ctx st True) = snd (eval D n ctx st False)"
  using blindD [OF eval_blind] by blast

section \<open>The tree mirrors the condition\<close>

text \<open>
  \<open>erase\<close> forgets the outcome of an evaluation tree and keeps its indices, labels and
  types: what remains is the tree of a condition skipped as a whole.
\<close>

fun erase :: "eval_tree \<Rightarrow> eval_tree" where
  "erase (ENode i l ty status ts num) = ENode i l ty SSkipped (map erase ts) None"

fun skip_trees :: "label_lib \<Rightarrow> condition_node list \<Rightarrow> nat \<Rightarrow> eval_tree list" where
  "skip_trees P [] k = []"
| "skip_trees P (c # cs) k = fst (build_skipped_subtree P c k) # skip_trees P cs (k + node_count c)"

lemma skip_fold:
  "fst (fold (\<lambda>c (ts, k). let (t, k') = build_skipped_subtree P c k in (ts @ [t], k')) cs (ts, k)) =
   ts @ skip_trees P cs k"
  by (induction cs arbitrary: ts k) (simp_all add: case_prod_beta Let_def cond_simps)

lemma skipped_tree:
  "fst (build_skipped_subtree P n k) =
   new_tree P n k SSkipped (if is_dep_aggregate n then [] else skip_trees P (children n) (k + 1)) None"
  using skip_fold [of P "children n" "[]" "k + 1"]
  by (simp add: build_skipped_subtree.simps [of P n] case_prod_beta Let_def)

lemma map_erase_skip:
  "(\<And>c k. c \<in> set cs \<Longrightarrow> erase (fst (build_skipped_subtree P c k)) = fst (build_skipped_subtree P c k)) \<Longrightarrow>
   map erase (skip_trees P cs k) = skip_trees P cs k"
  by (induction cs arbitrary: k) simp_all

lemma erase_skipped [simp]: "erase (fst (build_skipped_subtree P n k)) = fst (build_skipped_subtree P n k)"
proof (induction n arbitrary: k rule: node_induct)
  case (node n)
  then show ?case by (simp add: skipped_tree [of P n] new_tree_def map_erase_skip)
qed

definition mirrors :: "condition_node \<Rightarrow> 'v evaluator \<Rightarrow> bool" where
  "mirrors n ev \<longleftrightarrow> (\<forall>ctx st. map_option erase (snd (fst (ev ctx st True))) =
     Some (fst (build_skipped_subtree (env_labels (env ctx)) n (fst st))))"

lemma mirrorsD:
  "mirrors n ev \<Longrightarrow> map_option erase (snd (fst (ev ctx st True))) =
     Some (fst (build_skipped_subtree (env_labels (env ctx)) n (fst st)))"
  unfolding mirrors_def by blast

lemma mirrorsD_list:
  "mirrors n ev \<Longrightarrow> map erase (opt_list (snd (fst (ev ctx st True)))) =
     [fst (build_skipped_subtree (env_labels (env ctx)) n (fst st))]"
  using mirrorsD [of n ev ctx st] by (cases "snd (fst (ev ctx st True))") auto

lemma mirrorsI:
  assumes "\<And>ctx k sub sc. \<exists>v ts. fst (ev ctx (k, sub, sc) True) = finish D n ctx k True v ts \<and>
     map erase ts = (if is_dep_aggregate n then [] else skip_trees (env_labels (env ctx)) (children n) (k + 1))"
  shows "mirrors n ev"
  unfolding mirrors_def
proof (intro allI)
  fix ctx :: eval_context and st :: "'a est"
  obtain k sub sc where st: "st = (k, sub, sc)" by (cases st)
  obtain v ts where "fst (ev ctx (k, sub, sc) True) = finish D n ctx k True v ts"
    "map erase ts = (if is_dep_aggregate n then [] else skip_trees (env_labels (env ctx)) (children n) (k + 1))"
    using assms by blast
  then show "map_option erase (snd (fst (ev ctx st True))) =
      Some (fst (build_skipped_subtree (env_labels (env ctx)) n (fst st)))"
    by (simp add: st finish_def Let_def new_tree_def skipped_tree)
qed

lemma opt_list_case: "(case x of None \<Rightarrow> [] | Some t \<Rightarrow> [t]) = opt_list x"
  by (cases x) simp_all

lemma comb_loop_mirrors:
  assumes "\<forall>x\<in>set cs. mirrors (fst x) (snd x) \<and> advances (fst x) (snd x)"
  shows "map erase (snd (fst (comb_loop D ctx True q cs r ps st))) =
         map erase ps @ skip_trees (env_labels (env ctx)) (map fst cs) (fst st)"
  using assms
proof (induction cs arbitrary: r ps st)
  case (Cons x cs)
  obtain c ev where x: "x = (c, ev)" by (cases x)
  obtain k sub sc where st: "st = (k, sub, sc)" by (cases st)
  have ev: "fst (snd (ev ctx (k, sub, sc) True)) = k + node_count c"
    "map erase (opt_list (snd (fst (ev ctx (k, sub, sc) True)))) =
       [fst (build_skipped_subtree (env_labels (env ctx)) c k)]"
    using Cons.prems x advancesD [of c ev ctx "(k, sub, sc)" True] mirrorsD_list [of c ev ctx "(k, sub, sc)"]
    by simp_all
  have IH: "map erase (snd (fst (comb_loop D ctx True q cs r ps st))) =
      map erase ps @ skip_trees (env_labels (env ctx)) (map fst cs) (fst st)" for r ps st
    using Cons.IH Cons.prems by simp
  show ?case
    unfolding x st by (simp add: case_prod_beta Let_def cond_simps IH ev opt_list_case)
qed simp

lemma eval_comb_mirrors:
  assumes "\<And>c. c \<in> set cs \<Longrightarrow> mirrors c (eval D c)" and "children n = cs" and "\<not> is_dep_aggregate n"
  shows "mirrors n (eval_comb D n (map (\<lambda>c. (c, eval D c)) cs) q)"
proof (rule mirrorsI [where D = D])
  fix ctx k sub sc
  have "\<forall>x\<in>set (map (\<lambda>c. (c, eval D c)) cs). mirrors (fst x) (snd x) \<and> advances (fst x) (snd x)"
    using assms(1) eval_advances by auto
  from comb_loop_mirrors [OF this, of D ctx q "q_init D q" "[]" "(k + 1, sub, sc)"]
  show "\<exists>v ts. fst (eval_comb D n (map (\<lambda>c. (c, eval D c)) cs) q ctx (k, sub, sc) True) = finish D n ctx k True v ts \<and>
     map erase ts = (if is_dep_aggregate n then [] else skip_trees (env_labels (env ctx)) (children n) (k + 1))"
    using assms(2,3) by (auto simp: eval_comb_def fold_combinator_def case_prod_beta Let_def comp_def)
qed

lemma eval_deps_mirrors: "is_dep_aggregate n \<Longrightarrow> mirrors n (eval_deps D ev n c ds q)"
  by (rule mirrorsI [where D = D]) (auto simp: eval_deps_def case_prod_beta Let_def)

lemma eval_unary_mirrors:
  assumes "mirrors c ev" and "children n = [c]" and "\<not> is_dep_aggregate n"
  shows "mirrors n (eval_not D n ev)" "mirrors n (eval_newly_true D n ev)"
    "mirrors n (eval_since_last_handled D n ev)"
  using assms(2,3) mirrorsD_list [OF assms(1)]
  by (auto intro!: mirrorsI [where D = D] exI
      simp: eval_not_def eval_newly_true_def eval_since_last_handled_def case_prod_beta Let_def)

lemma eval_since_mirrors:
  assumes "mirrors t ev" and "mirrors r ev'" and "advances t ev"
  shows "mirrors (Since t r) (eval_since D (Since t r) ev ev')"
  by (auto intro!: mirrorsI [where D = D] exI
      simp: eval_since_def case_prod_beta Let_def is_dep_aggregate_def mirrorsD_list [OF assms(1)]
        mirrorsD_list [OF assms(2)] advancesD [OF assms(3)])

lemma eval_leaf_mirrors: "children n = [] \<Longrightarrow> mirrors n (eval_leaf_at D n)"
  by (rule mirrorsI [where D = D]) (auto simp: eval_leaf_at_def)

lemma eval_mirrors: "mirrors n (eval D n)"
  by (induction n)
    (simp_all add: eval_comb_mirrors eval_deps_mirrors eval_unary_mirrors eval_since_mirrors eval_leaf_mirrors
      is_dep_aggregate_def eval_advances)

text \<open>
  an evaluation that builds a tree returns one, and that tree has one node for every node
  of the condition outside its dependency aggregates, with the node's index, label and type,
  exactly as the tree of the skipped condition has.
\<close>

theorem eval_tree_shape:
  "map_option erase (snd (fst (eval D n ctx st True))) =
   Some (fst (build_skipped_subtree (env_labels (env ctx)) n (fst st)))"
  by (rule mirrorsD [OF eval_mirrors])

end
