(* ===== verification/Condition_Domains.thy ===== *)
theory Condition_Domains
  imports Condition_Eval
begin

text \<open>
  The two domains of the condition evaluator (\<open>rivers-core/src/condition/eval/domain.rs\<close>)
  and the functions that evaluate a subtree against a dependency and enter the evaluator
  (\<open>condition/eval/mod.rs\<close>). A partitioned asset that reads an unpartitioned dependency
  bridges into the boolean evaluator. \<open>partition_domain\<close> is used on contexts with a
  partition context only; there the code's \<open>require_pctx\<close> does not panic.
\<close>

section \<open>Evaluating on a dependency\<close>

definition dep_eval_context ::
  "eval_context \<Rightarrow> string \<Rightarrow> asset_record \<Rightarrow> partition_context option \<Rightarrow> int option option \<Rightarrow> eval_context" where
  "dep_eval_context ctx dep_key dep_record pctx floor =
     ctx\<lparr>target_key := dep_key, target_record := dep_record,
         prev_state := (case all_asset_states ctx dep_key of Some s \<Rightarrow> s | None \<Rightarrow> default_asset_state),
         partitions := pctx, root_partition_floor := floor\<rparr>"

definition latch_of :: "'v dep_latches \<Rightarrow> string \<Rightarrow> 'v latches" where
  "latch_of m dep_key = (case m dep_key of Some l \<Rightarrow> l | None \<Rightarrow> Map.empty)"

definition eval_on_dep :: "bool pivot" where
  "eval_on_dep ev dep_key condition ctx counter scope =
     (case records (cache ctx) dep_key of
        None \<Rightarrow> (False, counter, scope)
      | Some dep_record \<Rightarrow>
          let dep_ctx = dep_eval_context ctx dep_key dep_record None (root_partition_floor ctx);
              ((val, _), (counter', local, scope')) =
                ev dep_ctx (counter, Map.empty, scope\<lparr>sc_cur := Some (latch_of (sc_prev scope) dep_key)\<rparr>) False
          in (val, counter', collect_dep_latch dep_key local (scope'\<lparr>sc_cur := sc_cur scope\<rparr>)))"

section \<open>The boolean domain\<close>

definition bool_newly_updated :: "eval_context \<Rightarrow> bool" where
  "bool_newly_updated ctx =
     (if target_key ctx \<noteq> root_key ctx
      then (case last_timestamp (target_record ctx) of
              None \<Rightarrow> False
            | Some dep_ts \<Rightarrow>
                dep_newer_than_floor dep_ts
                  (case root_partition_floor ctx of
                     Some f \<Rightarrow> f
                   | None \<Rightarrow> opt_max (Option.bind (records (cache ctx) (root_key ctx)) last_timestamp)
                               (failed_asset_timestamps (cache ctx) (root_key ctx))))
      else (case last_timestamp (target_record ctx) of
              None \<Rightarrow> False
            | Some current \<Rightarrow>
                (case last_materialized_timestamp (prev_state ctx) of
                   Some prev \<Rightarrow> prev < current
                 | None \<Rightarrow> \<not> is_initial ctx)))"

definition bool_last_executed_with_tags :: "eval_context \<Rightarrow> string list \<Rightarrow> run_tags \<Rightarrow> bool" where
  "bool_last_executed_with_tags ctx tag_keys tag_values =
     (case Option.bind (last_run_tags (tags ctx) (target_key ctx)) (\<lambda>slots. slots None) of
        Some rt \<Rightarrow> run_tags_match rt tag_keys tag_values
      | None \<Rightarrow> False)"

definition bool_last_run_includes_target :: "eval_context \<Rightarrow> bool" where
  "bool_last_run_includes_target ctx =
     (if target_key ctx = root_key ctx then False
      else (case Option.bind (last_run_asset_names (tags ctx) (target_key ctx)) (\<lambda>slots. slots None) of
              Some names \<Rightarrow> List.member names (root_key ctx)
            | None \<Rightarrow> False))"

definition bool_prev_latch :: "bool dep_scope \<Rightarrow> eval_context \<Rightarrow> nat \<Rightarrow> bool" where
  "bool_prev_latch scope ctx idx =
     (case (case sc_cur scope of Some m \<Rightarrow> m | None \<Rightarrow> previous_results (prev_state ctx)) idx of
        Some b \<Rightarrow> b
      | None \<Rightarrow> False)"

definition bool_since_last_handled :: "eval_context \<Rightarrow> bool \<Rightarrow> bool" where
  "bool_since_last_handled ctx current =
     (if \<not> current then False
      else let (last_handled, last_tick) = root_handled_state ctx
           in case last_handled of
                None \<Rightarrow> True
              | Some handled \<Rightarrow> (case last_tick of None \<Rightarrow> True | Some lt \<Rightarrow> handled < lt))"

definition bool_assemble :: "bool \<Rightarrow> eval_context \<Rightarrow> bool latches \<Rightarrow> bool dep_latches \<Rightarrow> eval_result" where
  "bool_assemble top_sel ctx sub dep =
     \<lparr>fired = top_sel, sub_results = sub, result_selection = None, sub_selections = None,
      dep_sub_results = dep, dep_sub_selections = None\<rparr>"

definition bool_domain :: "bool eval_domain" where
  "bool_domain =
     \<lparr>d_is_true = (\<lambda>b. b), d_is_all = (\<lambda>b. b), d_num_partitions = (\<lambda>_ _. None),
      d_all = True, d_empty = False, d_from_bool = (\<lambda>b. b),
      d_and = (\<and>), d_or = (\<or>), d_not = (\<lambda>_ a. \<not> a),
      d_difference = (\<lambda>_ a b. a \<and> \<not> b), d_restrict = (\<lambda>_ a. a),
      d_missing = (\<lambda>ctx. last_run_id (target_record ctx) = None),
      d_in_progress = (\<lambda>ctx. target_key ctx \<in> in_progress_assets (cache ctx)),
      d_failed = (\<lambda>ctx. target_key ctx \<in> failed_assets (cache ctx)),
      d_newly_updated = bool_newly_updated,
      d_newly_requested = requested_last_tick,
      d_in_latest_window = (\<lambda>_ _. True),
      d_backfill_in_progress = (\<lambda>ctx. bf_assets (backfill (cache ctx)) (target_key ctx) \<noteq> None),
      d_last_executed_with_tags = bool_last_executed_with_tags,
      d_update_tags = eval_new_update_tags,
      d_last_run_includes_target = bool_last_run_includes_target,
      d_will_be_requested = (\<lambda>ctx. requested_this_tick ctx (target_key ctx) \<noteq> None),
      d_prev_latch = bool_prev_latch,
      d_since_last_handled = bool_since_last_handled,
      d_pivot = eval_on_dep,
      d_root_dep_prev = (\<lambda>ctx. dep_previous_results (prev_state ctx)),
      d_assemble = bool_assemble\<rparr>"

section \<open>The partition domain\<close>

definition require_pctx :: "eval_context \<Rightarrow> partition_context" where
  "require_pctx ctx = the (partitions ctx)"

definition part_missing :: "eval_context \<Rightarrow> key_selection" where
  "part_missing ctx =
     (let pctx = require_pctx ctx
      in from_keys (Set.filter (\<lambda>k. pc_timestamps pctx k = None) (all_keys pctx)))"

definition part_newly_updated :: "eval_context \<Rightarrow> key_selection" where
  "part_newly_updated ctx =
     (let pctx = require_pctx ctx;
          prev_timestamps = map_option pst_timestamps (partition_state (prev_state ctx))
      in from_keys (Set.filter (\<lambda>k.
           case pc_timestamps pctx k of
             None \<Rightarrow> False
           | Some ts \<Rightarrow>
               (case dep_root_floor pctx of
                  Some floor \<Rightarrow> (case floor k of Some inner \<Rightarrow> dep_newer_than_floor ts inner | None \<Rightarrow> False)
                | None \<Rightarrow>
                    (case Option.bind prev_timestamps (\<lambda>pt. pt k) of
                       Some prev \<Rightarrow> prev < ts
                     | None \<Rightarrow> \<not> is_initial ctx))) (all_keys pctx)))"

definition part_newly_requested :: "eval_context \<Rightarrow> key_selection" where
  "part_newly_requested ctx =
     (if \<not> requested_last_tick ctx then SelEmpty
      else (case partition_state (prev_state ctx) of
              Some ps \<Rightarrow> select_in_universe (pst_handled ps) (require_pctx ctx)
            | None \<Rightarrow> SelEmpty))"

definition part_in_latest_window :: "eval_context \<Rightarrow> f64 option \<Rightarrow> key_selection" where
  "part_in_latest_window ctx lookback =
     (let pctx = require_pctx ctx
      in case Option.bind (time_windows pctx) (\<lambda>tw. tw (target_key ctx) (all_keys pctx) lookback) of
           Some ks \<Rightarrow> from_keys ks
         | None \<Rightarrow> SelEmpty)"

definition part_last_run_includes_target :: "eval_context \<Rightarrow> key_selection" where
  "part_last_run_includes_target ctx =
     (if target_key ctx = root_key ctx then SelEmpty
      else partition_filter_select (last_run_asset_names (tags ctx) (target_key ctx)) (require_pctx ctx)
             (\<lambda>names. List.member names (root_key ctx)))"

definition part_since_last_handled :: "eval_context \<Rightarrow> key_selection \<Rightarrow> key_selection" where
  "part_since_last_handled ctx current =
     (if sel_is_empty current then SelEmpty
      else let (last_handled, last_tick) = root_handled_state ctx;
               was_just_handled = (case (last_handled, last_tick) of (Some h, Some lt) \<Rightarrow> lt \<le> h | _ \<Rightarrow> False)
           in if \<not> was_just_handled then current
              else if target_key ctx \<noteq> root_key ctx then SelEmpty
              else (case map_option pst_handled (partition_state (prev_state ctx)) of
                      None \<Rightarrow> current
                    | Some handled_set \<Rightarrow>
                        sel_difference (all_keys (require_pctx ctx)) current (from_keys handled_set)))"

definition part_assemble ::
  "key_selection \<Rightarrow> eval_context \<Rightarrow> key_selection latches \<Rightarrow> key_selection dep_latches \<Rightarrow> eval_result" where
  "part_assemble top_sel ctx sub dep =
     \<lparr>fired = fires_over (all_keys (require_pctx ctx)) top_sel, sub_results = Map.empty,
      result_selection = Some top_sel, sub_selections = Some sub,
      dep_sub_results = Map.empty, dep_sub_selections = Some dep\<rparr>"

definition root_dep_selections :: "eval_context \<Rightarrow> key_selection dep_latches" where
  "root_dep_selections ctx =
     (case partition_state (prev_state ctx) of Some ps \<Rightarrow> dep_previous_selections ps | None \<Rightarrow> Map.empty)"

subsection \<open>Evaluating on a partitioned or bridged dependency\<close>

definition bridge_floor :: "eval_context \<Rightarrow> partition_context \<Rightarrow> int option" where
  "bridge_floor ctx pctx =
     (case root_partition_floor ctx of
        Some f \<Rightarrow> f
      | None \<Rightarrow> Option.bind (all_partition_statuses pctx (root_key ctx)) (root_floor_over_attempted (all_keys pctx)))"

definition lift_latches :: "('a \<Rightarrow> 'b) \<Rightarrow> 'a latches \<Rightarrow> 'b latches" where
  "lift_latches f m = (\<lambda>idx. map_option f (m idx))"

definition lift_dep_latches :: "('a \<Rightarrow> 'b) \<Rightarrow> 'a dep_latches \<Rightarrow> 'b dep_latches" where
  "lift_dep_latches f m = (\<lambda>k. map_option (lift_latches f) (m k))"

definition eval_bridged ::
  "string \<Rightarrow> asset_record \<Rightarrow> condition_node \<Rightarrow> eval_context \<Rightarrow> partition_context \<Rightarrow> nat \<Rightarrow>
   key_selection dep_scope \<Rightarrow> key_selection \<times> nat \<times> key_selection dep_scope" where
  "eval_bridged dep_key dep_record condition ctx pctx counter scope =
     (let dep_ctx = dep_eval_context ctx dep_key dep_record None (Some (bridge_floor ctx pctx));
          nested_prev = lift_dep_latches sel_to_bool (sc_prev scope);
          bool_scope = \<lparr>sc_prev = nested_prev, sc_acc = Map.empty,
                        sc_cur = Some (latch_of nested_prev dep_key), sc_bridged = Map.empty\<rparr>;
          ((val, _), (counter', local, bool_scope')) =
            eval bool_domain condition dep_ctx (counter, Map.empty, bool_scope) False
      in (sel_from_bool val, counter',
          collect_bridged_all (lift_dep_latches sel_from_bool (sc_acc bool_scope'))
            (collect_bridged_latch dep_key (lift_latches sel_from_bool local) scope)))"

definition is_identity_mapping :: "mapping_kind option \<Rightarrow> bool" where
  "is_identity_mapping m = (case m of None \<Rightarrow> True | Some MIdentity \<Rightarrow> True | _ \<Rightarrow> False)"

definition key_floor ::
  "('b, 'c) time_lib \<Rightarrow> bool \<Rightarrow> string \<Rightarrow> eval_context \<Rightarrow> partition_context \<Rightarrow> partition_status \<Rightarrow>
   partition_key \<Rightarrow> int option option" where
  "key_floor L is_identity dep_key ctx pctx root_status uk =
     (if is_identity
      then (if uk \<in> all_keys pctx then Some (effective_attempt_ts root_status uk) else None)
      else (case map_downstream L (pc_resolver pctx) dep_key (target_key ctx) (SelKeys {uk}) (Some (all_keys pctx)) of
              SelEmpty \<Rightarrow> None
            | SelAll \<Rightarrow> Some (root_floor_over_attempted (all_keys pctx) root_status)
            | SelKeys ks \<Rightarrow>
                let in_universe = Set.filter (\<lambda>k. k \<in> all_keys pctx) ks
                in if in_universe = {} then None else Some (root_floor_over in_universe root_status)))"

definition upstream_context ::
  "('b, 'c) time_lib \<Rightarrow> bool \<Rightarrow> string \<Rightarrow> condition_node \<Rightarrow> eval_context \<Rightarrow> partition_context \<Rightarrow>
   partition_key set \<Rightarrow> partition_context" where
  "upstream_context L is_identity dep_key condition ctx pctx upstream_all_keys =
     (let upstream_status = (case all_partition_statuses pctx dep_key of
                               Some st \<Rightarrow> st | None \<Rightarrow> empty_partition_status)
      in \<lparr>all_keys = upstream_all_keys,
          pc_in_progress = ps_in_progress upstream_status,
          pc_failed = ps_failed upstream_status,
          pc_timestamps = ps_timestamps upstream_status,
          pc_resolver = empty_resolver,
          time_windows = time_windows pctx,
          all_partition_statuses = all_partition_statuses pctx,
          dep_root_floor =
            (if contains_newly_updated condition
             then map_option (\<lambda>root_status uk.
                    if ps_timestamps upstream_status uk = None then None
                    else key_floor L is_identity dep_key ctx pctx root_status uk)
                    (all_partition_statuses pctx (root_key ctx))
             else None)\<rparr>)"

definition eval_partitioned_on_dep :: "('b, 'c) time_lib \<Rightarrow> key_selection pivot" where
  "eval_partitioned_on_dep L ev dep_key condition ctx counter scope =
     (let pctx = require_pctx ctx
      in case records (cache ctx) dep_key of
           None \<Rightarrow> (SelEmpty, counter, scope)
         | Some dep_record \<Rightarrow>
             (case upstream_partition_keys (pc_resolver pctx) dep_key of
                None \<Rightarrow> eval_bridged dep_key dep_record condition ctx pctx counter scope
              | Some upstream_all_keys \<Rightarrow>
                  let is_identity = is_identity_mapping (mapping_for (pc_resolver pctx) dep_key (target_key ctx));
                      upstream_pctx = upstream_context L is_identity dep_key condition ctx pctx upstream_all_keys;
                      floor = (if has_dep_aggregate condition then Some (bridge_floor ctx pctx) else None);
                      dep_ctx = dep_eval_context ctx dep_key dep_record (Some upstream_pctx) floor;
                      ((upstream_result, _), (counter', local, scope')) =
                        ev dep_ctx
                          (counter, Map.empty, scope\<lparr>sc_cur := Some (latch_of (sc_prev scope) dep_key)\<rparr>) False;
                      scope'' = collect_dep_latch dep_key local (scope'\<lparr>sc_cur := sc_cur scope\<rparr>)
                  in (if is_identity then upstream_result
                      else map_downstream L (pc_resolver pctx) dep_key (target_key ctx) upstream_result
                             (Some (all_keys pctx)),
                      counter', scope'')))"

definition partition_domain :: "('b, 'c) time_lib \<Rightarrow> key_selection eval_domain" where
  "partition_domain L =
     \<lparr>d_is_true = sel_to_bool, d_is_all = sel_is_all, d_num_partitions = (\<lambda>s n. Some (key_count n s)),
      d_all = SelAll, d_empty = SelEmpty, d_from_bool = sel_from_bool,
      d_and = sel_intersect, d_or = sel_union,
      d_not = (\<lambda>ctx a. complement (all_keys (require_pctx ctx)) a),
      d_difference = (\<lambda>ctx a b. sel_difference (all_keys (require_pctx ctx)) a b),
      d_restrict = (\<lambda>ctx a. restrict_to (all_keys (require_pctx ctx)) a),
      d_missing = part_missing,
      d_in_progress = (\<lambda>ctx. select_in_universe (pc_in_progress (require_pctx ctx)) (require_pctx ctx)),
      d_failed = (\<lambda>ctx. select_in_universe (pc_failed (require_pctx ctx)) (require_pctx ctx)),
      d_newly_updated = part_newly_updated,
      d_newly_requested = part_newly_requested,
      d_in_latest_window = part_in_latest_window,
      d_backfill_in_progress = (\<lambda>ctx. eval_backfill_in_progress_partitioned ctx (require_pctx ctx)),
      d_last_executed_with_tags = (\<lambda>ctx ks vs.
        partition_filter_select (last_run_tags (tags ctx) (target_key ctx)) (require_pctx ctx)
          (\<lambda>rt. run_tags_match rt ks vs)),
      d_update_tags = (\<lambda>ctx ks vs all. eval_new_update_tags_partitioned ctx (require_pctx ctx) ks vs all),
      d_last_run_includes_target = part_last_run_includes_target,
      d_will_be_requested = (\<lambda>ctx. case requested_this_tick ctx (target_key ctx) of Some s \<Rightarrow> s | None \<Rightarrow> SelEmpty),
      d_prev_latch = prev_partition_latch,
      d_since_last_handled = part_since_last_handled,
      d_pivot = eval_partitioned_on_dep L,
      d_root_dep_prev = root_dep_selections,
      d_assemble = part_assemble\<rparr>"

lemma bool_fields:
  "d_not bool_domain ctx a = (\<not> a)" "d_difference bool_domain ctx a b = (a \<and> \<not> b)"
  "d_restrict bool_domain ctx a = a" "d_or bool_domain a b = (a \<or> b)"
  "d_prev_latch bool_domain = bool_prev_latch" "d_since_last_handled bool_domain = bool_since_last_handled"
  by (simp_all add: bool_domain_def)

lemma part_fields:
  "d_not (partition_domain L) ctx a = complement (all_keys (require_pctx ctx)) a"
  "d_difference (partition_domain L) ctx a b = sel_difference (all_keys (require_pctx ctx)) a b"
  "d_restrict (partition_domain L) ctx a = restrict_to (all_keys (require_pctx ctx)) a"
  "d_or (partition_domain L) a b = sel_union a b"
  "d_prev_latch (partition_domain L) = prev_partition_latch"
  "d_since_last_handled (partition_domain L) = part_since_last_handled"
  by (simp_all add: partition_domain_def)

section \<open>Entry points\<close>

definition root_scope :: "'v eval_domain \<Rightarrow> eval_context \<Rightarrow> 'v dep_scope" where
  "root_scope D ctx =
     \<lparr>sc_prev = d_root_dep_prev D ctx, sc_acc = Map.empty, sc_cur = None, sc_bridged = Map.empty\<rparr>"

definition run :: "'v eval_domain \<Rightarrow> condition_node \<Rightarrow> eval_context \<Rightarrow> bool \<Rightarrow> eval_result \<times> eval_tree option" where
  "run D node ctx bt =
     (let ((top_sel, tree), (_, sub, scope)) = eval D node ctx (0, Map.empty, root_scope D ctx) bt
      in (d_assemble D top_sel ctx sub (sc_acc scope), tree))"

definition evaluate :: "('b, 'c) time_lib \<Rightarrow> condition_node \<Rightarrow> eval_context \<Rightarrow> eval_result" where
  "evaluate L node ctx =
     (if partitions ctx \<noteq> None then fst (run (partition_domain L) node ctx False)
      else fst (run bool_domain node ctx False))"

definition evaluate_with_tree ::
  "('b, 'c) time_lib \<Rightarrow> condition_node \<Rightarrow> eval_context \<Rightarrow> eval_result \<times> eval_tree option" where
  "evaluate_with_tree L node ctx =
     (if partitions ctx \<noteq> None then run (partition_domain L) node ctx True
      else run bool_domain node ctx True)"

section \<open>A sample context\<close>

text \<open>A partitioned asset with two partitions, one of them materialized, on which properties are exercised.\<close>

definition sample_record :: "string \<Rightarrow> asset_record" where
  "sample_record name =
     \<lparr>code_location_id = ''cl'', asset_key = name, asset_tags = [], asset_kinds = [], asset_group = None,
      code_version = None, last_event_id = None, last_run_id = None, last_timestamp = None,
      last_data_version = None, last_materialization_code_version = None, last_input_data_versions = [],
      asset_pool = []\<rparr>"

definition sample_cache :: cache_snapshot where
  "sample_cache =
     \<lparr>records = Map.empty, upstream_deps = Map.empty, in_progress_assets = {}, failed_assets = {},
      failed_asset_timestamps = Map.empty,
      backfill = \<lparr>bf_assets = Map.empty, bf_partition_keys = Map.empty\<rparr>\<rparr>"

definition sample_partitions :: partition_context where
  "sample_partitions =
     \<lparr>all_keys = {Single [''a''], Single [''b'']}, pc_in_progress = {}, pc_failed = {},
      pc_timestamps = [Single [''a''] \<mapsto> 5], pc_resolver = empty_resolver, time_windows = None,
      all_partition_statuses = Map.empty, dep_root_floor = None\<rparr>"

definition sample_env :: eval_env where
  "sample_env =
     \<lparr>env_labels = \<lparr>json_of = (\<lambda>_. ''{}''), sip_hash = (\<lambda>_. 0), f64_display = (\<lambda>_. ''0'')\<rparr>,
      env_cron = (\<lambda>_ prev t _. prev < t)\<rparr>"

definition sample_context :: eval_context where
  "sample_context =
     \<lparr>target_key = ''x'', root_key = ''x'', target_record = sample_record ''x'', cache = sample_cache,
      tags = \<lparr>last_run_tags = Map.empty, tick_materialization_tags = Map.empty, last_run_asset_names = Map.empty\<rparr>,
      prev_state = default_asset_state, all_asset_states = Map.empty, requested_this_tick = Map.empty,
      now = 10, is_initial = False, partitions = Some sample_partitions, root_partition_floor = None,
      env = sample_env\<rparr>"

end
