(* ===== verification/Condition_Laws.thy ===== *)
theory Condition_Laws
  imports Condition_Domains
begin

text \<open>
  What the evaluator relies on in a domain, as the locale \<open>eval_laws\<close>, and what follows
  from it: short-circuiting is sound. \<open>eval_full\<close> is the reference evaluator that
  evaluates every child and every dependency and combines all results; under the laws the
  evaluator of the code returns the same value and records the same latches, and keeps
  every value and latch well-formed. The locale is interpreted on the two domains of the
  code.
\<close>

section \<open>The reference evaluator\<close>

type_synonym 'v full_evaluator = "eval_context \<Rightarrow> 'v est \<Rightarrow> 'v \<times> 'v est"

definition as_evaluator :: "'v full_evaluator \<Rightarrow> 'v evaluator" where
  "as_evaluator f ctx st bt = ((fst (f ctx st), None), snd (f ctx st))"

fun deps_full ::
  "'v eval_domain \<Rightarrow> 'v evaluator \<Rightarrow> condition_node \<Rightarrow> eval_context \<Rightarrow> nat \<Rightarrow> quantifier \<Rightarrow>
   string list \<Rightarrow> 'v \<Rightarrow> 'v dep_scope \<Rightarrow> 'v \<times> 'v dep_scope" where
  "deps_full D ev condition ctx base q [] r sc = (r, sc)"
| "deps_full D ev condition ctx base q (dep # deps) r sc =
     (let (v, _, sc') = d_pivot D ev dep condition ctx base sc
      in deps_full D ev condition ctx base q deps (q_combine D q r v) sc')"

fun comb_full ::
  "'v eval_domain \<Rightarrow> eval_context \<Rightarrow> quantifier \<Rightarrow> 'v full_evaluator list \<Rightarrow> 'v \<Rightarrow> 'v est \<Rightarrow> 'v \<times> 'v est" where
  "comb_full D ctx q [] r st = (r, st)"
| "comb_full D ctx q (f # fs) r st = (let (v, st') = f ctx st in comb_full D ctx q fs (q_combine D q r v) st')"

definition full_deps ::
  "'v eval_domain \<Rightarrow> 'v full_evaluator \<Rightarrow> condition_node \<Rightarrow> (eval_context \<Rightarrow> string list) \<Rightarrow> quantifier \<Rightarrow>
   'v full_evaluator" where
  "full_deps D f c deps q ctx st =
     (let (k, sub, sc) = st;
          (r, sc') = deps_full D (as_evaluator f) c ctx (k + 1) q (deps ctx) (q_init D q) sc
      in (r, (k + 1 + node_count c, sub, sc')))"

definition full_leaf :: "'v eval_domain \<Rightarrow> condition_node \<Rightarrow> 'v full_evaluator" where
  "full_leaf D leaf ctx st = (let (k, sub, sc) = st in (eval_leaf D leaf ctx, (k + 1, sub, sc)))"

fun eval_full :: "'v eval_domain \<Rightarrow> condition_node \<Rightarrow> 'v full_evaluator" where
  "eval_full D (AnyDepsMatch c l) = full_deps D (eval_full D c) c target_deps QAny"
| "eval_full D (AllDepsMatch c l) = full_deps D (eval_full D c) c target_deps QAll"
| "eval_full D (AssetMatches ks c) = full_deps D (eval_full D c) c (\<lambda>_. ks) QAny"
| "eval_full D (CAnd cs) = (\<lambda>ctx (k, sub, sc). comb_full D ctx QAll (map (eval_full D) cs) (d_all D) (k + 1, sub, sc))"
| "eval_full D (COr cs) = (\<lambda>ctx (k, sub, sc). comb_full D ctx QAny (map (eval_full D) cs) (d_empty D) (k + 1, sub, sc))"
| "eval_full D (CNot c) = (\<lambda>ctx (k, sub, sc).
     let (v, st') = eval_full D c ctx (k + 1, sub, sc) in (d_not D ctx v, st'))"
| "eval_full D (NewlyTrue c) = (\<lambda>ctx (k, sub, sc).
     let (v, (k', sub', sc')) = eval_full D c ctx (k + 1, sub, sc)
     in (d_difference D ctx v (d_prev_latch D sc' ctx k), (k', sub'(k \<mapsto> v), sc')))"
| "eval_full D (Since t r) = (\<lambda>ctx (k, sub, sc).
     let (vt, st1) = eval_full D t ctx (k + 1, sub, sc);
         (vr, (k', sub', sc')) = eval_full D r ctx st1;
         v = d_restrict D ctx (d_difference D ctx (d_or D (d_prev_latch D sc' ctx k) vt) vr)
     in (v, (k', sub'(k \<mapsto> v), sc')))"
| "eval_full D (SinceLastHandled c) = (\<lambda>ctx (k, sub, sc).
     let (v, st') = eval_full D c ctx (k + 1, sub, sc) in (d_since_last_handled D ctx v, st'))"
| "eval_full D leaf = full_leaf D leaf"

section \<open>Well-formed scopes and states\<close>

definition latches_ok :: "('v \<Rightarrow> bool) \<Rightarrow> 'v latches \<Rightarrow> bool" where
  "latches_ok ok m \<longleftrightarrow> (\<forall>i v. m i = Some v \<longrightarrow> ok v)"

definition dep_latches_ok :: "('v \<Rightarrow> bool) \<Rightarrow> 'v dep_latches \<Rightarrow> bool" where
  "dep_latches_ok ok m \<longleftrightarrow> (\<forall>k l. m k = Some l \<longrightarrow> latches_ok ok l)"

definition scope_ok :: "('v \<Rightarrow> bool) \<Rightarrow> 'v dep_scope \<Rightarrow> bool" where
  "scope_ok ok sc \<longleftrightarrow>
     dep_latches_ok ok (sc_prev sc) \<and> dep_latches_ok ok (sc_acc sc) \<and> (\<forall>m. sc_cur sc = Some m \<longrightarrow> latches_ok ok m)"

definition st_ok :: "('v \<Rightarrow> bool) \<Rightarrow> 'v est \<Rightarrow> bool" where
  "st_ok ok st \<longleftrightarrow> latches_ok ok (fst (snd st)) \<and> scope_ok ok (snd (snd st))"

lemma latches_ok_simps [simp]:
  "latches_ok ok Map.empty" "dep_latches_ok ok Map.empty"
  "latches_ok ok m \<Longrightarrow> ok v \<Longrightarrow> latches_ok ok (m(i \<mapsto> v))"
  "dep_latches_ok ok d \<Longrightarrow> latches_ok ok m \<Longrightarrow> dep_latches_ok ok (d(k \<mapsto> m))"
  by (auto simp: latches_ok_def dep_latches_ok_def)

lemma latches_ok_add: "latches_ok ok m \<Longrightarrow> latches_ok ok m' \<Longrightarrow> latches_ok ok (m ++ m')"
  by (auto simp: latches_ok_def map_add_Some_iff)

lemma latch_of_ok [simp]: "dep_latches_ok ok d \<Longrightarrow> latches_ok ok (latch_of d k)"
  by (auto simp: latch_of_def dep_latches_ok_def split: option.split)

lemma scope_ok_cur [simp]:
  "scope_ok ok sc \<Longrightarrow> scope_ok ok (sc\<lparr>sc_cur := Some (latch_of (sc_prev sc) k)\<rparr>)"
  "scope_ok ok sc \<Longrightarrow> scope_ok ok sc' \<Longrightarrow> scope_ok ok (sc'\<lparr>sc_cur := sc_cur sc\<rparr>)"
  by (simp_all add: scope_ok_def)

lemma collect_dep_latch_ok:
  assumes "scope_ok ok sc" and "latches_ok ok local"
  shows "scope_ok ok (collect_dep_latch k local sc)"
proof -
  have "latches_ok ok ((case sc_acc sc k of None \<Rightarrow> Map.empty | Some m \<Rightarrow> m) ++ local)"
    using assms by (auto intro!: latches_ok_add simp: scope_ok_def dep_latches_ok_def split: option.split)
  then show ?thesis using assms(1) by (auto simp: collect_dep_latch_def scope_ok_def)
qed

text \<open>A pure evaluator touches neither latches nor scope.\<close>

definition pure_ev :: "'v evaluator \<Rightarrow> bool" where
  "pure_ev ev \<longleftrightarrow> (\<forall>ctx st bt. snd (snd (ev ctx st bt)) = snd st)"

lemma pure_evD: "pure_ev ev \<Longrightarrow> snd (snd (ev ctx st bt)) = snd st"
  unfolding pure_ev_def by blast

lemma pure_evI: "(\<And>ctx k sub sc bt. snd (snd (ev ctx (k, sub, sc) bt)) = (sub, sc)) \<Longrightarrow> pure_ev ev"
  unfolding pure_ev_def by (metis prod.collapse snd_conv)

definition agree :: "('v \<Rightarrow> bool) \<Rightarrow> (eval_context \<Rightarrow> bool) \<Rightarrow> 'v evaluator \<Rightarrow> 'v evaluator \<Rightarrow> bool" where
  "agree ok ctx_ok ev ev' \<longleftrightarrow>
     (\<forall>ctx st. ctx_ok ctx \<longrightarrow> st_ok ok st \<longrightarrow>
        fst (fst (ev ctx st False)) = fst (fst (ev' ctx st False)) \<and>
        snd (ev ctx st False) = snd (ev' ctx st False) \<and>
        ok (fst (fst (ev ctx st False))) \<and> st_ok ok (snd (ev ctx st False)))"

lemma agreeD:
  assumes "agree ok ctx_ok ev ev'" and "ctx_ok ctx" and "st_ok ok st"
  shows "fst (fst (ev ctx st False)) = fst (fst (ev' ctx st False))"
    and "snd (ev ctx st False) = snd (ev' ctx st False)"
    and "ok (fst (fst (ev ctx st False)))" and "st_ok ok (snd (ev ctx st False))"
  using assms unfolding agree_def by blast+

section \<open>The contract of a domain\<close>

locale eval_laws =
  fixes D :: "'v eval_domain" and ok :: "'v \<Rightarrow> bool" and ctx_ok :: "eval_context \<Rightarrow> bool"
  assumes ok_all: "ok (d_all D)" and ok_empty: "ok (d_empty D)"
    and ok_and: "ok a \<Longrightarrow> ok b \<Longrightarrow> ok (d_and D a b)"
    and ok_or: "ok a \<Longrightarrow> ok b \<Longrightarrow> ok (d_or D a b)"
    and ok_not: "ctx_ok ctx \<Longrightarrow> ok a \<Longrightarrow> ok (d_not D ctx a)"
    and ok_difference: "ctx_ok ctx \<Longrightarrow> ok a \<Longrightarrow> ok b \<Longrightarrow> ok (d_difference D ctx a b)"
    and ok_restrict: "ctx_ok ctx \<Longrightarrow> ok a \<Longrightarrow> ok (d_restrict D ctx a)"
    and ok_leaf: "ctx_ok ctx \<Longrightarrow> ok (eval_leaf D n ctx)"
    and ok_latch: "ctx_ok ctx \<Longrightarrow> scope_ok ok sc \<Longrightarrow> ok (d_prev_latch D sc ctx i)"
    and ok_handled: "ctx_ok ctx \<Longrightarrow> ok a \<Longrightarrow> ok (d_since_last_handled D ctx a)"
    and and_saturated: "ok a \<Longrightarrow> \<not> d_is_true D a \<Longrightarrow> d_and D a b = a"
    and or_saturated: "ok a \<Longrightarrow> d_is_all D a \<Longrightarrow> d_or D a b = a"
    and pivot_pure: "pure_ev ev \<Longrightarrow> \<not> has_stateful_nodes c \<Longrightarrow> snd (snd (d_pivot D ev dep c ctx k sc)) = sc"
    and pivot_agree: "agree ok ctx_ok ev ev' \<Longrightarrow> ctx_ok ctx \<Longrightarrow> scope_ok ok sc \<Longrightarrow>
          d_pivot D ev dep c ctx k sc = d_pivot D ev' dep c ctx k sc \<and>
          ok (fst (d_pivot D ev dep c ctx k sc)) \<and> scope_ok ok (snd (snd (d_pivot D ev dep c ctx k sc)))"
begin

lemma q_ok: "ok r \<Longrightarrow> ok v \<Longrightarrow> ok (q_combine D q r v)"
  by (cases q) (simp_all add: ok_and ok_or)

lemma q_init_ok: "ok (q_init D q)"
  by (cases q) (simp_all add: ok_all ok_empty)

lemma q_sat: "ok r \<Longrightarrow> q_saturated D q r \<Longrightarrow> q_combine D q r v = r"
  by (cases q) (simp_all add: and_saturated or_saturated)

lemma deps_loop_pure:
  "pure_ev ev \<Longrightarrow> \<not> has_stateful_nodes c \<Longrightarrow> snd (deps_loop D ev c ctx k q ds r sc) = sc"
  by (induction ds arbitrary: r) (simp_all add: case_prod_beta Let_def pivot_pure)

lemma deps_loop_saturated: "ok r \<Longrightarrow> q_saturated D q r \<Longrightarrow> fst (deps_loop D ev c ctx k q ds r sc) = r"
  by (induction ds arbitrary: sc) (simp_all add: case_prod_beta Let_def q_sat)

lemma comb_loop_pure:
  assumes "\<forall>x\<in>set cs. pure_ev (snd x)"
  shows "snd (snd (comb_loop D ctx bt q cs r ps (k, sub, sc))) = (sub, sc)"
  using assms
proof (induction cs arbitrary: r ps k)
  case (Cons x cs)
  obtain c ev where x: "x = (c, ev)" by (cases x)
  obtain k' where ev: "snd (ev ctx (k, sub, sc) bt) = (k', sub, sc)"
    using Cons.prems pure_evD [of ev ctx "(k, sub, sc)" bt] unfolding x by (cases "snd (ev ctx (k, sub, sc) bt)") auto
  have IH: "snd (snd (comb_loop D ctx bt q cs r ps (k, sub, sc))) = (sub, sc)" for r ps k
    using Cons.IH Cons.prems by simp
  show ?case unfolding x using IH ev by (cases bt) (simp_all add: case_prod_beta Let_def)
qed simp

lemma eval_comb_pure:
  assumes "\<And>c. c \<in> set cs \<Longrightarrow> pure_ev (eval D c)"
  shows "pure_ev (eval_comb D n (map (\<lambda>c. (c, eval D c)) cs) q)"
proof (rule pure_evI)
  fix ctx k sub sc bt
  have "\<forall>x\<in>set (map (\<lambda>c. (c, eval D c)) cs). pure_ev (snd x)" using assms by auto
  from comb_loop_pure [OF this]
  show "snd (snd (eval_comb D n (map (\<lambda>c. (c, eval D c)) cs) q ctx (k, sub, sc) bt)) = (sub, sc)"
    by (simp add: eval_comb_def fold_combinator_def case_prod_beta Let_def)
qed

lemma eval_deps_pure: "pure_ev ev \<Longrightarrow> \<not> has_stateful_nodes c \<Longrightarrow> pure_ev (eval_deps D ev n c ds q)"
  by (rule pure_evI) (simp add: eval_deps_def fold_deps_def case_prod_beta Let_def deps_loop_pure)

lemma eval_unary_pure:
  assumes "pure_ev ev"
  shows "pure_ev (eval_not D n ev)" "pure_ev (eval_since_last_handled D n ev)"
  by (rule pure_evI, simp add: eval_not_def eval_since_last_handled_def case_prod_beta Let_def pure_evD [OF assms])+

lemma eval_leaf_pure: "pure_ev (eval_leaf_at D n)"
  by (rule pure_evI) (simp add: eval_leaf_at_def)

lemma stateless_pure: "\<not> has_stateful_nodes n \<Longrightarrow> pure_ev (eval D n)"
  by (induction n)
    (simp_all add: stateful_simps eval_comb_pure eval_deps_pure eval_unary_pure eval_leaf_pure is_stateful_def)

lemma deps_loop_full:
  assumes ev: "agree ok ctx_ok ev ev'" and st: "has_stateful_nodes c \<or> pure_ev ev"
    and ctx: "ctx_ok ctx" and "ok r" "scope_ok ok sc"
  shows "deps_loop D ev c ctx k q ds r sc = deps_full D ev' c ctx k q ds r sc \<and>
         ok (fst (deps_full D ev' c ctx k q ds r sc)) \<and> scope_ok ok (snd (deps_full D ev' c ctx k q ds r sc))"
  using assms(4,5)
proof (induction ds arbitrary: r sc)
  case (Cons d ds)
  let ?p = "d_pivot D ev d c ctx k sc"
  have p: "?p = d_pivot D ev' d c ctx k sc" "ok (fst ?p)" "scope_ok ok (snd (snd ?p))"
    using pivot_agree [OF ev ctx Cons.prems(2)] by blast+
  have r: "ok (q_combine D q r (fst ?p))" using Cons.prems(1) p(2) by (rule q_ok)
  note IH = Cons.IH [OF r p(3)]
  show ?case
  proof (cases "q_saturated D q (q_combine D q r (fst ?p)) \<and> \<not> has_stateful_nodes c")
    case True
    then have pure: "snd (deps_loop D ev c ctx k q ds (q_combine D q r (fst ?p)) (snd (snd ?p))) = snd (snd ?p)"
      and val: "fst (deps_loop D ev c ctx k q ds (q_combine D q r (fst ?p)) (snd (snd ?p))) = q_combine D q r (fst ?p)"
      using st r by (auto simp: deps_loop_pure deps_loop_saturated)
    then have "deps_full D ev' c ctx k q ds (q_combine D q r (fst ?p)) (snd (snd ?p)) =
        (q_combine D q r (fst ?p), snd (snd ?p))" using IH by (metis prod.collapse)
    then show ?thesis using True p r by (simp add: case_prod_beta Let_def)
  next
    case False
    then show ?thesis using p(1) IH by (auto simp: case_prod_beta Let_def)
  qed
qed simp

lemma comb_loop_full:
  assumes "\<And>c. c \<in> set xs \<Longrightarrow> agree ok ctx_ok (eval D c) (as_evaluator (eval_full D c))"
    and ctx: "ctx_ok ctx" and "ok r" "st_ok ok st"
  shows "fst (fst (comb_loop D ctx False q (map (\<lambda>c. (c, eval D c)) xs) r ps st)) =
           fst (comb_full D ctx q (map (eval_full D) xs) r st) \<and>
         snd (comb_loop D ctx False q (map (\<lambda>c. (c, eval D c)) xs) r ps st) =
           snd (comb_full D ctx q (map (eval_full D) xs) r st) \<and>
         ok (fst (comb_full D ctx q (map (eval_full D) xs) r st)) \<and>
         st_ok ok (snd (comb_full D ctx q (map (eval_full D) xs) r st))"
  using assms(1,3,4)
proof (induction xs arbitrary: r ps st)
  case (Cons c xs)
  obtain k sub sc where st: "st = (k, sub, sc)" by (cases st)
  have ag: "agree ok ctx_ok (eval D c) (as_evaluator (eval_full D c))" using Cons.prems(1) by simp
  note ev = agreeD [OF ag ctx Cons.prems(3), unfolded as_evaluator_def fst_conv snd_conv]
  have IH: "fst (fst (comb_loop D ctx False q (map (\<lambda>c. (c, eval D c)) xs) r ps st)) =
           fst (comb_full D ctx q (map (eval_full D) xs) r st) \<and>
         snd (comb_loop D ctx False q (map (\<lambda>c. (c, eval D c)) xs) r ps st) =
           snd (comb_full D ctx q (map (eval_full D) xs) r st) \<and>
         ok (fst (comb_full D ctx q (map (eval_full D) xs) r st)) \<and>
         st_ok ok (snd (comb_full D ctx q (map (eval_full D) xs) r st))"
    if "ok r" "st_ok ok st" for r ps st
    using Cons.IH Cons.prems(1) that by simp
  have full: "comb_full D ctx q (map (eval_full D) (c # xs)) r st =
      comb_full D ctx q (map (eval_full D) xs) (q_combine D q r (fst (eval_full D c ctx st))) (snd (eval_full D c ctx st))"
    by (simp add: case_prod_beta Let_def)
  show ?case
  proof (cases "q_saturated D q r \<and> \<not> has_stateful_nodes c")
    case True
    have "snd (snd (eval D c ctx st False)) = snd st" using True stateless_pure pure_evD by blast
    moreover have "fst (snd (eval D c ctx st False)) = k + node_count c"
      using advancesD [OF eval_advances, of D c ctx st] st by simp
    ultimately have st': "snd (eval_full D c ctx st) = (k + node_count c, sub, sc)"
      using ev(2) st by (metis prod.collapse snd_conv)
    have "q_combine D q r (fst (eval_full D c ctx st)) = r" using Cons.prems(2) True by (simp add: q_sat)
    then show ?thesis
      using True IH [OF Cons.prems(2), of "snd (eval_full D c ctx st)"] ev(2,4) unfolding full
      by (simp add: st' [unfolded st] st Let_def cond_simps)
  next
    case False
    have "ok (q_combine D q r (fst (eval_full D c ctx st)))" using Cons.prems(2) ev(1,3) by (simp add: q_ok)
    then show ?thesis
      using False IH [OF _ ev(4)] ev(1,2) Cons.prems(2) q_sat [OF Cons.prems(2)] unfolding full st
      by (auto simp: Let_def case_prod_beta)
  qed
qed simp

lemma agree_fullI:
  assumes "\<And>ctx k sub sc. ctx_ok ctx \<Longrightarrow> st_ok ok (k, sub, sc) \<Longrightarrow>
     fst (fst (ev ctx (k, sub, sc) False)) = fst (f ctx (k, sub, sc)) \<and>
     snd (ev ctx (k, sub, sc) False) = snd (f ctx (k, sub, sc)) \<and>
     ok (fst (f ctx (k, sub, sc))) \<and> st_ok ok (snd (f ctx (k, sub, sc)))"
  shows "agree ok ctx_ok ev (as_evaluator f)"
  unfolding agree_def as_evaluator_def
proof (intro allI impI)
  fix ctx st assume "ctx_ok ctx" "st_ok ok st"
  then show "fst (fst (ev ctx st False)) = fst (fst ((fst (f ctx st), None), snd (f ctx st))) \<and>
      snd (ev ctx st False) = snd ((fst (f ctx st), None), snd (f ctx st)) \<and>
      ok (fst (fst (ev ctx st False))) \<and> st_ok ok (snd (ev ctx st False))"
    using assms by (cases st) auto
qed

lemma agree_fullD:
  assumes "agree ok ctx_ok ev (as_evaluator f)" and "ctx_ok ctx" and "st_ok ok st"
  shows "fst (fst (ev ctx st False)) = fst (f ctx st)" and "snd (ev ctx st False) = snd (f ctx st)"
    and "ok (fst (f ctx st))" and "st_ok ok (snd (f ctx st))"
  using agreeD [OF assms] by (simp_all add: as_evaluator_def)

lemma st_ok_counter: "st_ok ok (k, sub, sc) \<Longrightarrow> st_ok ok (k', sub, sc)"
  by (simp add: st_ok_def)

lemma st_ok_store: "st_ok ok (k, sub, sc) \<Longrightarrow> ok v \<Longrightarrow> st_ok ok (k', sub(i \<mapsto> v), sc)"
  by (simp add: st_ok_def)

lemma st_ok_scope: "st_ok ok (k, sub, sc) \<Longrightarrow> scope_ok ok sc"
  by (simp add: st_ok_def)

lemma agree_leaf: "agree ok ctx_ok (eval_leaf_at D n) (as_evaluator (full_leaf D n))"
  by (rule agree_fullI) (simp add: eval_leaf_at_def full_leaf_def ok_leaf st_ok_def)

lemma agree_deps:
  assumes "agree ok ctx_ok (eval D c) (as_evaluator f)"
  shows "agree ok ctx_ok (eval_deps D (eval D c) n c ds q) (as_evaluator (full_deps D f c ds q))"
proof (rule agree_fullI)
  fix ctx k sub sc assume ctx: "ctx_ok ctx" and st: "st_ok ok (k, sub, sc)"
  have "has_stateful_nodes c \<or> pure_ev (eval D c)" using stateless_pure by blast
  from deps_loop_full [OF assms this ctx q_init_ok st_ok_scope [OF st], of "k + 1" q "ds ctx" q]
  show "fst (fst (eval_deps D (eval D c) n c ds q ctx (k, sub, sc) False)) = fst (full_deps D f c ds q ctx (k, sub, sc)) \<and>
     snd (eval_deps D (eval D c) n c ds q ctx (k, sub, sc) False) = snd (full_deps D f c ds q ctx (k, sub, sc)) \<and>
     ok (fst (full_deps D f c ds q ctx (k, sub, sc))) \<and> st_ok ok (snd (full_deps D f c ds q ctx (k, sub, sc)))"
    using st by (simp add: eval_deps_def fold_deps_def full_deps_def finalize_dep_counter_def case_prod_beta Let_def
        cond_simps st_ok_def)
qed

lemma agree_comb:
  assumes "\<And>c. c \<in> set cs \<Longrightarrow> agree ok ctx_ok (eval D c) (as_evaluator (eval_full D c))"
  shows "agree ok ctx_ok (eval_comb D n (map (\<lambda>c. (c, eval D c)) cs) q)
     (as_evaluator (\<lambda>ctx (k, sub, sc). comb_full D ctx q (map (eval_full D) cs) (q_init D q) (k + 1, sub, sc)))"
proof (rule agree_fullI)
  fix ctx k sub sc assume ctx: "ctx_ok ctx" and st: "st_ok ok (k, sub, sc)"
  from comb_loop_full [OF assms ctx q_init_ok st_ok_counter [OF st], of cs q q "[]" "k + 1"]
  show "fst (fst (eval_comb D n (map (\<lambda>c. (c, eval D c)) cs) q ctx (k, sub, sc) False)) =
      fst ((\<lambda>(k, sub, sc). comb_full D ctx q (map (eval_full D) cs) (q_init D q) (k + 1, sub, sc)) (k, sub, sc)) \<and>
    snd (eval_comb D n (map (\<lambda>c. (c, eval D c)) cs) q ctx (k, sub, sc) False) =
      snd ((\<lambda>(k, sub, sc). comb_full D ctx q (map (eval_full D) cs) (q_init D q) (k + 1, sub, sc)) (k, sub, sc)) \<and>
    ok (fst ((\<lambda>(k, sub, sc). comb_full D ctx q (map (eval_full D) cs) (q_init D q) (k + 1, sub, sc)) (k, sub, sc))) \<and>
    st_ok ok (snd ((\<lambda>(k, sub, sc). comb_full D ctx q (map (eval_full D) cs) (q_init D q) (k + 1, sub, sc)) (k, sub, sc)))"
    by (simp add: eval_comb_def fold_combinator_def case_prod_beta Let_def)
qed

lemma agree_unary:
  assumes "agree ok ctx_ok (eval D c) (as_evaluator (eval_full D c))"
  shows "agree ok ctx_ok (eval D (CNot c)) (as_evaluator (eval_full D (CNot c)))"
    and "agree ok ctx_ok (eval D (SinceLastHandled c)) (as_evaluator (eval_full D (SinceLastHandled c)))"
  by (rule agree_fullI, simp add: eval_not_def eval_since_last_handled_def case_prod_beta Let_def
      agree_fullD [OF assms _ st_ok_counter] ok_not ok_handled)+

lemma agree_newly_true:
  assumes "agree ok ctx_ok (eval D c) (as_evaluator (eval_full D c))"
  shows "agree ok ctx_ok (eval D (NewlyTrue c)) (as_evaluator (eval_full D (NewlyTrue c)))"
proof (rule agree_fullI)
  fix ctx k sub sc assume ctx: "ctx_ok ctx" and st: "st_ok ok (k, sub, sc)"
  note ag = agree_fullD [OF assms ctx st_ok_counter [OF st], of "k + 1"]
  obtain v k' sub' sc' where r: "eval_full D c ctx (k + 1, sub, sc) = (v, (k', sub', sc'))" by (metis prod_cases4)
  have sc': "ok (d_prev_latch D sc' ctx k)" using ag(4) r ctx by (auto intro: ok_latch st_ok_scope)
  show "fst (fst (eval D (NewlyTrue c) ctx (k, sub, sc) False)) = fst (eval_full D (NewlyTrue c) ctx (k, sub, sc)) \<and>
     snd (eval D (NewlyTrue c) ctx (k, sub, sc) False) = snd (eval_full D (NewlyTrue c) ctx (k, sub, sc)) \<and>
     ok (fst (eval_full D (NewlyTrue c) ctx (k, sub, sc))) \<and> st_ok ok (snd (eval_full D (NewlyTrue c) ctx (k, sub, sc)))"
    using ag r sc' ctx
    by (simp add: eval_newly_true_def case_prod_beta Let_def ok_difference st_ok_store)
qed

lemma agree_since:
  assumes "agree ok ctx_ok (eval D t) (as_evaluator (eval_full D t))"
    and "agree ok ctx_ok (eval D r) (as_evaluator (eval_full D r))"
  shows "agree ok ctx_ok (eval D (Since t r)) (as_evaluator (eval_full D (Since t r)))"
proof (rule agree_fullI)
  fix ctx k sub sc assume ctx: "ctx_ok ctx" and st: "st_ok ok (k, sub, sc)"
  note t = agree_fullD [OF assms(1) ctx st_ok_counter [OF st], of "k + 1"]
  note r = agree_fullD [OF assms(2) ctx t(4)]
  obtain vt st1 where vt: "eval_full D t ctx (k + 1, sub, sc) = (vt, st1)" by (metis surj_pair)
  obtain vr k' sub' sc' where vr: "eval_full D r ctx st1 = (vr, (k', sub', sc'))" by (metis prod_cases4)
  have "ok (d_prev_latch D sc' ctx k)" using r(4) vt vr ctx by (auto intro: ok_latch st_ok_scope)
  then show "fst (fst (eval D (Since t r) ctx (k, sub, sc) False)) = fst (eval_full D (Since t r) ctx (k, sub, sc)) \<and>
     snd (eval D (Since t r) ctx (k, sub, sc) False) = snd (eval_full D (Since t r) ctx (k, sub, sc)) \<and>
     ok (fst (eval_full D (Since t r) ctx (k, sub, sc))) \<and> st_ok ok (snd (eval_full D (Since t r) ctx (k, sub, sc)))"
    using t r vt vr ctx
    by (simp add: eval_since_def case_prod_beta Let_def ok_restrict ok_difference ok_or st_ok_store)
qed

lemma eval_full_agree: "agree ok ctx_ok (eval D n) (as_evaluator (eval_full D n))"
proof (induction n)
  case (CAnd cs)
  then show ?case using agree_comb [of cs "CAnd cs" QAll] by simp
next
  case (COr cs)
  then show ?case using agree_comb [of cs "COr cs" QAny] by simp
next
  case (Since t r)
  then show ?case by (rule agree_since)
next
  case (NewlyTrue c)
  then show ?case by (rule agree_newly_true)
next
  case (CNot c)
  then show ?case by (rule agree_unary)
next
  case (SinceLastHandled c)
  then show ?case by (rule agree_unary)
qed (simp_all add: agree_deps agree_leaf)

lemma short_circuit:
  assumes "ctx_ok ctx" and "st_ok ok st"
  shows "fst (fst (eval D n ctx st False)) = fst (eval_full D n ctx st) \<and>
         snd (eval D n ctx st False) = snd (eval_full D n ctx st)"
  using agree_fullD [OF eval_full_agree assms] by blast

lemma eval_ok:
  assumes "ctx_ok ctx" and "st_ok ok st"
  shows "ok (fst (fst (eval D n ctx st False))) \<and> st_ok ok (snd (eval D n ctx st False))"
  using agree_fullD [OF eval_full_agree assms] by simp

end

section \<open>The boolean domain obeys the contract\<close>

lemma collect_nothing [simp]: "collect_dep_latch k Map.empty sc = sc"
  by (simp add: collect_dep_latch_def)

lemma eval_on_dep_pure: "pure_ev ev \<Longrightarrow> snd (snd (eval_on_dep ev dep c ctx k sc)) = sc"
  by (auto simp: eval_on_dep_def pure_evD case_prod_beta Let_def split: option.split)

lemma agree_pivot_call:
  fixes k :: nat and dep :: string
  assumes "agree ok ctx_ok ev ev'" and "ctx_ok ctx" and "scope_ok ok sc"
  defines "st \<equiv> (k, Map.empty, sc\<lparr>sc_cur := Some (latch_of (sc_prev sc) dep)\<rparr>)"
  shows "fst (fst (ev ctx st False)) = fst (fst (ev' ctx st False))" and "snd (ev ctx st False) = snd (ev' ctx st False)"
    and "ok (fst (fst (ev' ctx st False)))"
    and "scope_ok ok (collect_dep_latch dep (fst (snd (snd (ev' ctx st False))))
           ((snd (snd (snd (ev' ctx st False))))\<lparr>sc_cur := sc_cur sc\<rparr>))"
proof -
  have "st_ok ok st" using assms(3) by (simp add: st_def st_ok_def)
  note ag = agreeD [OF assms(1,2) this]
  then show "fst (fst (ev ctx st False)) = fst (fst (ev' ctx st False))" "snd (ev ctx st False) = snd (ev' ctx st False)"
    and "ok (fst (fst (ev' ctx st False)))" by simp_all
  show "scope_ok ok (collect_dep_latch dep (fst (snd (snd (ev' ctx st False))))
           ((snd (snd (snd (ev' ctx st False))))\<lparr>sc_cur := sc_cur sc\<rparr>))"
    using ag(2,4) assms(3) by (intro collect_dep_latch_ok) (simp_all add: st_ok_def)
qed

lemma eval_on_dep_agree:
  assumes "agree (\<lambda>_. True) (\<lambda>_. True) ev ev'"
  shows "eval_on_dep ev dep c ctx k sc = eval_on_dep ev' dep c ctx k sc"
proof (cases "records (cache ctx) dep")
  case (Some rec)
  have "scope_ok (\<lambda>_. True) sc" by (simp add: scope_ok_def latches_ok_def dep_latches_ok_def)
  then show ?thesis
    using agree_pivot_call(1,2) [OF assms, where ctx = "dep_eval_context ctx dep rec None (root_partition_floor ctx)"
        and sc = sc and k = k and dep = dep] Some
    by (simp add: eval_on_dep_def case_prod_beta Let_def)
qed (simp add: eval_on_dep_def)

interpretation bool_dom: eval_laws bool_domain "\<lambda>_. True" "\<lambda>_. True"
proof unfold_locales
  show "d_pivot bool_domain ev dep c ctx k sc = d_pivot bool_domain ev' dep c ctx k sc \<and>
      True \<and> scope_ok (\<lambda>_. True) (snd (snd (d_pivot bool_domain ev dep c ctx k sc)))"
    if "agree (\<lambda>_. True) (\<lambda>_. True) ev ev'" for ev ev' dep c ctx k sc
    using eval_on_dep_agree [OF that]
    by (simp add: bool_domain_def scope_ok_def latches_ok_def dep_latches_ok_def)
qed (simp_all add: bool_domain_def eval_on_dep_pure)

section \<open>The partition domain obeys the contract\<close>

text \<open>
  The context of a partition evaluation is well-formed when every selection it carries is:
  those requested earlier in the tick and the latches of the persisted states.
\<close>

definition state_ok :: "asset_state \<Rightarrow> bool" where
  "state_ok s \<longleftrightarrow> (\<forall>ps. partition_state s = Some ps \<longrightarrow>
     latches_ok sel_wf (previous_selections ps) \<and> dep_latches_ok sel_wf (dep_previous_selections ps))"

definition part_ctx_ok :: "eval_context \<Rightarrow> bool" where
  "part_ctx_ok ctx \<longleftrightarrow>
     state_ok (prev_state ctx) \<and> (\<forall>k s. all_asset_states ctx k = Some s \<longrightarrow> state_ok s) \<and>
     (\<forall>k s. requested_this_tick ctx k = Some s \<longrightarrow> sel_wf s)"

lemma part_ctx_ok_dep [simp]: "part_ctx_ok ctx \<Longrightarrow> part_ctx_ok (dep_eval_context ctx k r p f)"
  by (auto simp: part_ctx_ok_def dep_eval_context_def state_ok_def default_asset_state_def split: option.split)

lemma backfill_loop_wf [simp]: "sel_wf (backfill_loop f U bs t)"
  by (induction bs arbitrary: t) (auto split: option.split)

lemma partition_filter_wf [simp]: "sel_wf (partition_filter_select slots p f)"
  by (simp add: partition_filter_select_def split: option.split)

lemma part_leaf_wf: "part_ctx_ok ctx \<Longrightarrow> sel_wf (eval_leaf (partition_domain L) n ctx)"
  by (cases n)
    (auto simp: partition_domain_def part_missing_def select_in_universe_def part_newly_updated_def
      part_newly_requested_def part_in_latest_window_def eval_backfill_in_progress_partitioned_def
      part_last_run_includes_target_def eval_new_update_tags_partitioned_def Let_def part_ctx_ok_def
      split: option.split)

lemma part_latch_wf: "part_ctx_ok ctx \<Longrightarrow> scope_ok sel_wf sc \<Longrightarrow> sel_wf (prev_partition_latch sc ctx i)"
  by (auto simp: prev_partition_latch_def part_ctx_ok_def state_ok_def scope_ok_def latches_ok_def
      split: option.split bind_split)

lemma part_handled_wf: "sel_wf a \<Longrightarrow> sel_wf (part_since_last_handled ctx a)"
  by (auto simp: part_since_last_handled_def Let_def case_prod_beta split: option.split)

lemma lift_latches_ok [simp]: "latches_ok sel_wf (lift_latches sel_from_bool m)"
  by (auto simp: latches_ok_def lift_latches_def)

lemma lift_empty [simp]: "lift_latches f Map.empty = Map.empty" "lift_dep_latches f Map.empty = Map.empty"
  by (simp_all add: lift_latches_def lift_dep_latches_def)

lemma bridge_slot_ok:
  "latches_ok sel_wf slot \<Longrightarrow> latches_ok sel_wf local \<Longrightarrow> latches_ok sel_wf (bridge_slot slot marks local)"
  by (auto simp: latches_ok_def bridge_slot_def split: option.split)

lemma collect_bridged_latch_ok:
  assumes "scope_ok sel_wf sc" and "latches_ok sel_wf local"
  shows "scope_ok sel_wf (collect_bridged_latch k local sc)"
  using assms bridge_slot_ok [OF _ assms(2)]
  by (auto simp: collect_bridged_latch_def Let_def scope_ok_def dep_latches_ok_def split: option.split)

lemma collect_bridged_all_ok:
  assumes "scope_ok sel_wf sc" and "dep_latches_ok sel_wf nested"
  shows "scope_ok sel_wf (collect_bridged_all nested sc)"
proof -
  have "latches_ok sel_wf l" if "sc_acc (collect_bridged_all nested sc) k = Some l" for k l
  proof (cases "nested k")
    case None
    then show ?thesis using that assms(1) by (simp add: collect_bridged_all_def scope_ok_def dep_latches_ok_def)
  next
    case (Some local)
    then have "scope_ok sel_wf (collect_bridged_latch k local sc)"
      using assms(2) by (intro collect_bridged_latch_ok [OF assms(1)]) (simp add: dep_latches_ok_def)
    then show ?thesis using that Some by (simp add: collect_bridged_all_def scope_ok_def dep_latches_ok_def)
  qed
  then show ?thesis using assms(1) by (simp add: scope_ok_def dep_latches_ok_def collect_bridged_all_def)
qed

lemma collect_bridged_nothing [simp]:
  "collect_bridged_latch k Map.empty sc = sc" "collect_bridged_all Map.empty sc = sc"
  by (simp_all add: collect_bridged_latch_def collect_bridged_all_def)

lemma lift_dep_latches_ok [simp]: "dep_latches_ok sel_wf (lift_dep_latches sel_from_bool m)"
  by (auto simp: dep_latches_ok_def lift_dep_latches_def)

lemma eval_bridged_pure:
  assumes "\<not> has_stateful_nodes c"
  shows "snd (snd (eval_bridged dep r c ctx p k sc)) = sc"
  by (simp add: eval_bridged_def case_prod_beta Let_def pure_evD [OF bool_dom.stateless_pure [OF assms]])

lemma eval_bridged_ok:
  "scope_ok sel_wf sc \<Longrightarrow> sel_wf (fst (eval_bridged dep r c ctx p k sc)) \<and>
     scope_ok sel_wf (snd (snd (eval_bridged dep r c ctx p k sc)))"
  by (simp add: eval_bridged_def case_prod_beta Let_def collect_bridged_all_ok collect_bridged_latch_ok)

lemma partition_pivot_pure:
  assumes "pure_ev ev" and "\<not> has_stateful_nodes c"
  shows "snd (snd (eval_partitioned_on_dep L ev dep c ctx k sc)) = sc"
  by (auto simp: eval_partitioned_on_dep_def pure_evD [OF assms(1)] eval_bridged_pure [OF assms(2)] case_prod_beta Let_def
      split: option.split)

lemma partition_pivot_agree:
  assumes ag: "agree sel_wf part_ctx_ok ev ev'" and ctx: "part_ctx_ok ctx" and sc: "scope_ok sel_wf sc"
  shows "eval_partitioned_on_dep L ev dep c ctx k sc = eval_partitioned_on_dep L ev' dep c ctx k sc \<and>
    sel_wf (fst (eval_partitioned_on_dep L ev dep c ctx k sc)) \<and>
    scope_ok sel_wf (snd (snd (eval_partitioned_on_dep L ev dep c ctx k sc)))"
proof (cases "records (cache ctx) dep")
  case None
  then show ?thesis using sc by (simp add: eval_partitioned_on_dep_def Let_def)
next
  case rec: (Some rec)
  show ?thesis
  proof (cases "upstream_partition_keys (pc_resolver (require_pctx ctx)) dep")
    case None
    then show ?thesis using rec eval_bridged_ok [OF sc] by (simp add: eval_partitioned_on_dep_def Let_def)
  next
    case (Some ks)
    then show ?thesis
      using rec agree_pivot_call [OF ag part_ctx_ok_dep [OF ctx] sc]
      by (simp add: eval_partitioned_on_dep_def Let_def case_prod_beta map_downstream_wf)
  qed
qed

interpretation part_dom: eval_laws "partition_domain L" sel_wf part_ctx_ok for L
proof unfold_locales
  show "d_pivot (partition_domain L) ev dep c ctx k sc = d_pivot (partition_domain L) ev' dep c ctx k sc \<and>
      sel_wf (fst (d_pivot (partition_domain L) ev dep c ctx k sc)) \<and>
      scope_ok sel_wf (snd (snd (d_pivot (partition_domain L) ev dep c ctx k sc)))"
    if "agree sel_wf part_ctx_ok ev ev'" "part_ctx_ok ctx" "scope_ok sel_wf sc" for ev ev' dep c ctx k sc
    using partition_pivot_agree [OF that] by (simp add: partition_domain_def)
  show "sel_wf (eval_leaf (partition_domain L) n ctx)" if "part_ctx_ok ctx" for n ctx
    using that by (rule part_leaf_wf)
  show "d_and (partition_domain L) a b = a" if "sel_wf a" "\<not> d_is_true (partition_domain L) a" for a b
    using that by (cases a; cases b) (auto simp: partition_domain_def sel_to_bool_def)
  show "d_or (partition_domain L) a b = a" if "sel_wf a" "d_is_all (partition_domain L) a" for a b
    using that by (cases a; cases b) (auto simp: partition_domain_def)
qed (simp_all add: partition_domain_def part_latch_wf part_handled_wf partition_pivot_pure)

lemma root_scope_ok: "part_ctx_ok ctx \<Longrightarrow> scope_ok sel_wf (root_scope (partition_domain L) ctx)"
  by (auto simp: scope_ok_def root_scope_def partition_domain_def root_dep_selections_def part_ctx_ok_def
      state_ok_def split: option.split)

lemma sample_ok: "part_ctx_ok sample_context"
  by (simp add: part_ctx_ok_def sample_context_def state_ok_def default_asset_state_def)

lemma sample_st_ok: "st_ok sel_wf (k, Map.empty, root_scope (partition_domain L) sample_context)"
  using root_scope_ok [OF sample_ok] by (simp add: st_ok_def)

text \<open>
  C16: short-circuiting is sound. On a well-formed context and state, the evaluator of the
  code, which skips stateless children and dependencies once a conjunction or disjunction is
  decided, returns the same selection and records the same latches as evaluating and
  combining everything.
\<close>

theorem partition_short_circuit:
  assumes "part_ctx_ok ctx" and "st_ok sel_wf st"
  shows "fst (fst (eval (partition_domain L) n ctx st False)) = fst (eval_full (partition_domain L) n ctx st) \<and>
         snd (eval (partition_domain L) n ctx st False) = snd (eval_full (partition_domain L) n ctx st)"
  using assms by (rule part_dom.short_circuit)

text \<open>
  short-circuiting is sound for unpartitioned assets, without any assumption on the
  context.
\<close>

theorem bool_short_circuit:
  "fst (fst (eval bool_domain n ctx st False)) = fst (eval_full bool_domain n ctx st) \<and>
   snd (eval bool_domain n ctx st False) = snd (eval_full bool_domain n ctx st)"
  by (rule bool_dom.short_circuit) (simp_all add: st_ok_def scope_ok_def latches_ok_def dep_latches_ok_def)

theorem partition_short_circuit_witness:
  "fst (fst (eval (partition_domain unary_lib) (CAnd [NewlyTrue Missing, InProgress]) sample_context
       (0, Map.empty, root_scope (partition_domain unary_lib) sample_context) False)) =
   fst (eval_full (partition_domain unary_lib) (CAnd [NewlyTrue Missing, InProgress]) sample_context
       (0, Map.empty, root_scope (partition_domain unary_lib) sample_context))"
  by (rule conjunct1 [OF partition_short_circuit]) (rule sample_ok sample_st_ok)+

text \<open>
  C23: well-formedness is an invariant of the ticks of a partitioned asset: evaluating its
  condition on a well-formed context and storing the outcome leaves a well-formed persisted
  state, whatever the condition and its dependencies.
\<close>

theorem tick_keeps_state_ok:
  assumes "part_ctx_ok ctx" and "partitions ctx \<noteq> None" and "state_ok s"
  shows "state_ok (update_condition_state (from_eval_context ctx) (evaluate L n ctx) s)"
proof -
  let ?r = "eval (partition_domain L) n ctx (0, Map.empty, root_scope (partition_domain L) ctx) False"
  have "st_ok sel_wf (0, Map.empty, root_scope (partition_domain L) ctx)"
    using root_scope_ok [OF assms(1)] by (simp add: st_ok_def)
  then have "st_ok sel_wf (snd ?r)" using part_dom.eval_ok [OF assms(1)] by blast
  then show ?thesis
    using assms(2)
    by (auto simp: evaluate_def run_def case_prod_beta Let_def state_ok_def update_condition_state_def
        partition_domain_def part_assemble_def update_partition_state_def st_ok_def scope_ok_def from_eval_context_def)
qed

theorem tick_keeps_state_ok_witness:
  "state_ok (update_condition_state (from_eval_context sample_context)
     (evaluate unary_lib (NewlyTrue Missing) sample_context) default_asset_state)"
  by (rule tick_keeps_state_ok [OF sample_ok])
    (simp_all add: sample_context_def state_ok_def default_asset_state_def)

end
