(* ===== verification/Condition_Pointwise.thy ===== *)
theory Condition_Pointwise
  imports Condition_Laws
begin

text \<open>
  The partition evaluator is the boolean evaluator applied to every partition. For a
  partition \<open>k\<close> of an asset, \<open>project k\<close> turns the asset's evaluation context into the
  context of an unpartitioned asset whose record, run status, tags and state are those of
  \<open>k\<close>; evaluating a condition on it gives true exactly when the partition evaluation
  selects \<open>k\<close>, and the latches correspond in the same way. This covers conditions on the
  asset itself: no dependency aggregates, no \<open>InLatestTimeWindow\<close> (which the boolean
  evaluator ignores by design) and no \<open>DataVersionChanged\<close> (which compares the timestamp
  of the whole asset).
\<close>

section \<open>Projecting a context to one partition\<close>

definition handled_in :: "partition_key \<Rightarrow> asset_state \<Rightarrow> bool" where
  "handled_in k s = (case partition_state s of Some ps \<Rightarrow> k \<in> pst_handled ps | None \<Rightarrow> False)"

definition project_slots :: "partition_key \<Rightarrow> 'v slot_map \<Rightarrow> 'v slot_map" where
  "project_slots k m = (\<lambda>a. map_option (\<lambda>slots s. if s = None then slots (Some k) else None) (m a))"

definition project_state :: "partition_key set \<Rightarrow> partition_key \<Rightarrow> asset_state \<Rightarrow> asset_state" where
  "project_state U k s =
     s\<lparr>previous_results :=
         (case partition_state s of Some ps \<Rightarrow> lift_latches (\<lambda>sel. k \<in> sel_set U sel) (previous_selections ps)
                                  | None \<Rightarrow> Map.empty),
       last_materialized_timestamp := Option.bind (partition_state s) (\<lambda>ps. pst_timestamps ps k),
       last_handled_timestamp := (if handled_in k s then last_handled_timestamp s else None),
       partition_state := None\<rparr>"

definition project :: "partition_key \<Rightarrow> eval_context \<Rightarrow> eval_context" where
  "project k ctx =
     (let pctx = require_pctx ctx; U = all_keys pctx; x = target_key ctx
      in ctx\<lparr>target_record := (target_record ctx)
               \<lparr>last_run_id := (if pc_timestamps pctx k = None then None else Some []),
                last_timestamp := pc_timestamps pctx k\<rparr>,
             cache := (cache ctx)
               \<lparr>in_progress_assets := (if k \<in> pc_in_progress pctx then {x} else {}),
                failed_assets := (if k \<in> pc_failed pctx then {x} else {}),
                backfill := (backfill (cache ctx))
                  \<lparr>bf_assets := (if k \<in> sel_set U (eval_backfill_in_progress_partitioned ctx pctx)
                                then [x \<mapsto> []] else Map.empty)\<rparr>\<rparr>,
             tags := \<lparr>last_run_tags = project_slots k (last_run_tags (tags ctx)),
                      tick_materialization_tags = project_slots k (tick_materialization_tags (tags ctx)),
                      last_run_asset_names = project_slots k (last_run_asset_names (tags ctx))\<rparr>,
             prev_state := project_state U k (prev_state ctx),
             all_asset_states := (\<lambda>a. map_option
               (\<lambda>s. s\<lparr>last_handled_timestamp :=
                        (if handled_in k (prev_state ctx) then last_handled_timestamp s else None)\<rparr>)
               (all_asset_states ctx a)),
             requested_this_tick := (\<lambda>a. case requested_this_tick ctx a of
                Some s \<Rightarrow> if k \<in> sel_set U s then Some s else None
              | None \<Rightarrow> None),
             partitions := None\<rparr>)"

definition local_node :: "condition_node \<Rightarrow> bool" where
  "local_node n \<longleftrightarrow> \<not> any_node (\<lambda>n. is_dep_aggregate n \<or>
     (case n of InLatestTimeWindow _ \<Rightarrow> True | DataVersionChanged \<Rightarrow> True | _ \<Rightarrow> False)) n"

definition root_level :: "eval_context \<Rightarrow> bool" where
  "root_level ctx \<longleftrightarrow> target_key ctx = root_key ctx \<and>
     (\<exists>p. partitions ctx = Some p \<and> dep_root_floor p = None)"

section \<open>Membership of one partition\<close>

lemma in_ops [sel_simps]:
  assumes "k \<in> U"
  shows "k \<in> sel_set U (sel_union a b) \<longleftrightarrow> k \<in> sel_set U a \<or> k \<in> sel_set U b"
    and "k \<in> sel_set U (sel_intersect a b) \<longleftrightarrow> k \<in> sel_set U a \<and> k \<in> sel_set U b"
    and "k \<in> sel_set U (complement U a) \<longleftrightarrow> k \<notin> sel_set U a"
    and "k \<in> sel_set U (sel_difference U a b) \<longleftrightarrow> k \<in> sel_set U a \<and> k \<notin> sel_set U b"
    and "k \<in> sel_set U (restrict_to U a) \<longleftrightarrow> k \<in> sel_set U a"
    and "k \<in> sel_set U (sel_from_bool c) \<longleftrightarrow> c"
  using assms by (cases a; cases b; auto simp: sel_from_bool_def)+

lemma project_scalars [simp]:
  "target_key (project k ctx) = target_key ctx" "root_key (project k ctx) = root_key ctx"
  "is_initial (project k ctx) = is_initial ctx" "now (project k ctx) = now ctx" "env (project k ctx) = env ctx"
  "partitions (project k ctx) = None"
  "code_version (target_record (project k ctx)) = code_version (target_record ctx)"
  "last_materialization_code_version (target_record (project k ctx)) =
     last_materialization_code_version (target_record ctx)"
  by (simp_all add: project_def Let_def)

lemma project_fields:
  "prev_state (project k ctx) = project_state (all_keys (require_pctx ctx)) k (prev_state ctx)"
  "all_asset_states (project k ctx) a = map_option
     (\<lambda>s. s\<lparr>last_handled_timestamp := (if handled_in k (prev_state ctx) then last_handled_timestamp s else None)\<rparr>)
     (all_asset_states ctx a)"
  "tags (project k ctx) =
     \<lparr>last_run_tags = project_slots k (last_run_tags (tags ctx)),
      tick_materialization_tags = project_slots k (tick_materialization_tags (tags ctx)),
      last_run_asset_names = project_slots k (last_run_asset_names (tags ctx))\<rparr>"
  "last_run_id (target_record (project k ctx)) = (if pc_timestamps (require_pctx ctx) k = None then None else Some [])"
  "last_timestamp (target_record (project k ctx)) = pc_timestamps (require_pctx ctx) k"
  "target_key ctx \<in> in_progress_assets (cache (project k ctx)) \<longleftrightarrow> k \<in> pc_in_progress (require_pctx ctx)"
  "target_key ctx \<in> failed_assets (cache (project k ctx)) \<longleftrightarrow> k \<in> pc_failed (require_pctx ctx)"
  "(\<exists>ids. bf_assets (backfill (cache (project k ctx))) (target_key ctx) = Some ids) \<longleftrightarrow>
     k \<in> sel_set (all_keys (require_pctx ctx)) (eval_backfill_in_progress_partitioned ctx (require_pctx ctx))"
  "(\<exists>s. requested_this_tick (project k ctx) a = Some s) \<longleftrightarrow>
     (\<exists>s. requested_this_tick ctx a = Some s \<and> k \<in> sel_set (all_keys (require_pctx ctx)) s)"
  by (auto simp: project_def Let_def split: option.split)

lemma project_state_tick [simp]: "last_tick_timestamp (project_state U k s) = last_tick_timestamp s"
  by (simp add: project_state_def)

lemma project_last_tick [simp]: "root_last_tick (project k ctx) = root_last_tick ctx"
  by (cases "all_asset_states ctx (root_key ctx)") (simp_all add: root_last_tick_def project_fields split: option.split)

lemma project_handled:
  assumes "target_key ctx = root_key ctx"
  shows "root_handled_state (project k ctx) =
    (if handled_in k (prev_state ctx) then fst (root_handled_state ctx) else None, snd (root_handled_state ctx))"
  using assms
  by (cases "all_asset_states ctx (root_key ctx)")
    (simp_all add: root_handled_state_def project_fields project_state_def)

lemma pointwise_filter:
  assumes "k \<in> all_keys p"
  shows "k \<in> sel_set (all_keys p) (partition_filter_select (m a) p f) \<longleftrightarrow>
         (case Option.bind (project_slots k m a) (\<lambda>slots. slots None) of Some v \<Rightarrow> f v | None \<Rightarrow> False)"
  using assms by (auto simp: partition_filter_select_def project_slots_def split: option.split)

lemma pointwise_handled:
  assumes "root_level ctx" and "k \<in> all_keys (require_pctx ctx)"
  shows "k \<in> sel_set (all_keys (require_pctx ctx)) (part_since_last_handled ctx s) \<longleftrightarrow>
    bool_since_last_handled (project k ctx) (k \<in> sel_set (all_keys (require_pctx ctx)) s)"
proof -
  let ?U = "all_keys (require_pctx ctx)"
  obtain h t where ht: "root_handled_state ctx = (h, t)" by (metis surj_pair)
  have root: "target_key ctx = root_key ctx" using assms(1) by (simp add: root_level_def)
  show ?thesis
  proof (cases "sel_is_empty s")
    case True
    then have "k \<notin> sel_set ?U s" by (cases s) auto
    then show ?thesis using True by (simp add: part_since_last_handled_def bool_since_last_handled_def)
  next
    case False
    then show ?thesis
      using root ht assms(2) project_handled [OF root, of k]
      by (auto simp: part_since_last_handled_def bool_since_last_handled_def handled_in_def in_ops Let_def
          split: option.split)
  qed
qed

lemma pointwise_newly_updated:
  assumes "root_level ctx" and "k \<in> all_keys (require_pctx ctx)"
  shows "k \<in> sel_set (all_keys (require_pctx ctx)) (part_newly_updated ctx) \<longleftrightarrow> bool_newly_updated (project k ctx)"
  using assms
  by (cases "partition_state (prev_state ctx)"; cases "pc_timestamps (require_pctx ctx) k")
    (auto simp: part_newly_updated_def bool_newly_updated_def project_fields project_state_def root_level_def
      require_pctx_def Let_def split: option.split)

lemma pointwise_newly_requested:
  assumes "k \<in> all_keys (require_pctx ctx)"
  shows "k \<in> sel_set (all_keys (require_pctx ctx)) (part_newly_requested ctx) \<longleftrightarrow> requested_last_tick (project k ctx)"
  using assms
  by (cases "partition_state (prev_state ctx)"; cases "last_handled_timestamp (prev_state ctx)")
    (auto simp: part_newly_requested_def requested_last_tick_def project_fields project_state_def handled_in_def
      select_in_universe_def)

lemma code_version_project [simp]: "code_version_changed (project k ctx) = code_version_changed ctx"
  by (simp add: code_version_changed_def)

lemma cron_project [simp]: "cron_tick_passed (project k ctx) e tz = cron_tick_passed ctx e tz"
  by (simp add: cron_tick_passed_def split: option.split)

lemma pointwise_leaf:
  assumes "root_level ctx" and "k \<in> all_keys (require_pctx ctx)" and "children n = []" and "local_node n"
    and "\<And>cs. n \<noteq> CAnd cs" and "\<And>cs. n \<noteq> COr cs"
  shows "k \<in> sel_set (all_keys (require_pctx ctx)) (eval_leaf (partition_domain L) n ctx) \<longleftrightarrow>
         eval_leaf bool_domain n (project k ctx)"
proof -
  have lr: "part_last_run_includes_target ctx = SelEmpty" "\<not> bool_last_run_includes_target (project k ctx)"
    using assms(1) by (simp_all add: root_level_def part_last_run_includes_target_def bool_last_run_includes_target_def)
  note leaf = pointwise_newly_updated [OF assms(1,2)] pointwise_newly_requested [OF assms(2)] lr assms(2)
  show ?thesis
    using assms(3-6) leaf
    by (cases n)
      (simp_all add: partition_domain_def bool_domain_def part_missing_def select_in_universe_def in_ops project_fields
        pointwise_filter local_node_def any_node.simps bool_last_executed_with_tags_def eval_new_update_tags_def
        eval_new_update_tags_partitioned_def Let_def split: option.split)
qed

section \<open>The correspondence\<close>

text \<open>
  Evaluation states correspond when they agree on the counter, when the boolean latches are
  the memberships of \<open>k\<close> in the selections, and outside every dependency pivot.
\<close>

definition corresponds :: "partition_key set \<Rightarrow> partition_key \<Rightarrow> key_selection est \<Rightarrow> bool est \<Rightarrow> bool" where
  "corresponds U k st st' \<longleftrightarrow> fst st' = fst st \<and>
     fst (snd st') = lift_latches (\<lambda>s. k \<in> sel_set U s) (fst (snd st)) \<and>
     sc_cur (snd (snd st)) = None \<and> sc_cur (snd (snd st')) = None"

definition pointwise :: "eval_context \<Rightarrow> partition_key \<Rightarrow> key_selection full_evaluator \<Rightarrow> bool full_evaluator \<Rightarrow> bool" where
  "pointwise ctx k f g \<longleftrightarrow>
     (\<forall>st st'. corresponds (all_keys (require_pctx ctx)) k st st' \<longrightarrow>
        fst (g (project k ctx) st') = (k \<in> sel_set (all_keys (require_pctx ctx)) (fst (f ctx st))) \<and>
        corresponds (all_keys (require_pctx ctx)) k (snd (f ctx st)) (snd (g (project k ctx) st')))"

lemma pointwiseD:
  assumes "pointwise ctx k f g" and "corresponds (all_keys (require_pctx ctx)) k st st'"
  shows "fst (g (project k ctx) st') = (k \<in> sel_set (all_keys (require_pctx ctx)) (fst (f ctx st)))"
    and "corresponds (all_keys (require_pctx ctx)) k (snd (f ctx st)) (snd (g (project k ctx) st'))"
  using assms unfolding pointwise_def by blast+

lemma pointwiseI:
  assumes "\<And>i sub sc sub' sc'. corresponds (all_keys (require_pctx ctx)) k (i, sub, sc) (i, sub', sc') \<Longrightarrow>
     fst (g (project k ctx) (i, sub', sc')) = (k \<in> sel_set (all_keys (require_pctx ctx)) (fst (f ctx (i, sub, sc)))) \<and>
     corresponds (all_keys (require_pctx ctx)) k (snd (f ctx (i, sub, sc))) (snd (g (project k ctx) (i, sub', sc')))"
  shows "pointwise ctx k f g"
  unfolding pointwise_def
proof (intro allI impI)
  fix st st' assume c: "corresponds (all_keys (require_pctx ctx)) k st st'"
  then have "st' = (fst st, snd st')" by (simp add: corresponds_def prod_eq_iff)
  then show "fst (g (project k ctx) st') = (k \<in> sel_set (all_keys (require_pctx ctx)) (fst (f ctx st))) \<and>
      corresponds (all_keys (require_pctx ctx)) k (snd (f ctx st)) (snd (g (project k ctx) st'))"
    using assms [of "fst st" "fst (snd st)" "snd (snd st)" "fst (snd st')" "snd (snd st')"] c by simp
qed

lemma corresponds_counter: "corresponds U k (i, sub, sc) (i, sub', sc') \<Longrightarrow> corresponds U k (j, sub, sc) (j, sub', sc')"
  by (simp add: corresponds_def)

lemma corresponds_store:
  "corresponds U k (i, sub, sc) (i', sub', sc') \<Longrightarrow> corresponds U k (i, sub(j \<mapsto> s), sc) (i', sub'(j \<mapsto> (k \<in> sel_set U s)), sc')"
  by (auto simp: corresponds_def lift_latches_def)

lemma pointwise_latch:
  assumes "corresponds (all_keys (require_pctx ctx)) k (i, sub, sc) (i', sub', sc')"
  shows "bool_prev_latch sc' (project k ctx) j \<longleftrightarrow>
         k \<in> sel_set (all_keys (require_pctx ctx)) (prev_partition_latch sc ctx j)"
  using assms
  by (cases "partition_state (prev_state ctx)")
    (auto simp: bool_prev_latch_def prev_partition_latch_def corresponds_def project_fields project_state_def
      lift_latches_def split: option.split)

lemma q_pointwise:
  assumes "k \<in> U"
  shows "q_combine bool_domain q (k \<in> sel_set U a) (k \<in> sel_set U b) \<longleftrightarrow>
         k \<in> sel_set U (q_combine (partition_domain L) q a b)"
  using assms by (cases q) (auto simp: bool_domain_def partition_domain_def in_ops)

lemma comb_pointwise:
  assumes "k \<in> all_keys (require_pctx ctx)"
    and "\<And>c. c \<in> set cs \<Longrightarrow> pointwise ctx k (eval_full (partition_domain L) c) (eval_full bool_domain c)"
    and "corresponds (all_keys (require_pctx ctx)) k st st'"
  shows "fst (comb_full bool_domain (project k ctx) q (map (eval_full bool_domain) cs) (k \<in> sel_set (all_keys (require_pctx ctx)) r) st') =
      (k \<in> sel_set (all_keys (require_pctx ctx)) (fst (comb_full (partition_domain L) ctx q (map (eval_full (partition_domain L)) cs) r st))) \<and>
    corresponds (all_keys (require_pctx ctx)) k
      (snd (comb_full (partition_domain L) ctx q (map (eval_full (partition_domain L)) cs) r st))
      (snd (comb_full bool_domain (project k ctx) q (map (eval_full bool_domain) cs) (k \<in> sel_set (all_keys (require_pctx ctx)) r) st'))"
  using assms(2,3)
proof (induction cs arbitrary: r st st')
  case (Cons c cs)
  note c = pointwiseD [OF Cons.prems(1) [OF list.set_intros(1)] Cons.prems(2)]
  have "fst (comb_full bool_domain (project k ctx) q (map (eval_full bool_domain) cs) (k \<in> sel_set (all_keys (require_pctx ctx)) r) st') =
      (k \<in> sel_set (all_keys (require_pctx ctx)) (fst (comb_full (partition_domain L) ctx q (map (eval_full (partition_domain L)) cs) r st))) \<and>
    corresponds (all_keys (require_pctx ctx)) k
      (snd (comb_full (partition_domain L) ctx q (map (eval_full (partition_domain L)) cs) r st))
      (snd (comb_full bool_domain (project k ctx) q (map (eval_full bool_domain) cs) (k \<in> sel_set (all_keys (require_pctx ctx)) r) st'))"
    if "corresponds (all_keys (require_pctx ctx)) k st st'" for r st st'
    using Cons.IH Cons.prems(1) that by simp
  from this [OF c(2), of "q_combine (partition_domain L) q r (fst (eval_full (partition_domain L) c ctx st))"]
  show ?case
    by (simp add: case_prod_beta Let_def c(1) q_pointwise [OF assms(1), where L = L])
qed simp

lemma local_children: "local_node n \<Longrightarrow> c \<in> set (children n) \<Longrightarrow> local_node c"
  by (auto simp: local_node_def any_node.simps [of _ n] list_ex_iff)

lemma local_not_aggregate: "local_node n \<Longrightarrow> \<not> is_dep_aggregate n"
  by (simp add: local_node_def any_node.simps [of _ n])

lemma q_init_pointwise: "k \<in> U \<Longrightarrow> q_init bool_domain q = (k \<in> sel_set U (q_init (partition_domain L) q))"
  by (cases q) (simp_all add: bool_domain_def partition_domain_def)

lemma pointwise_comb_q:
  assumes "k \<in> all_keys (require_pctx ctx)"
    and "\<And>c. c \<in> set cs \<Longrightarrow> pointwise ctx k (eval_full (partition_domain L) c) (eval_full bool_domain c)"
  shows "pointwise ctx k
     (\<lambda>ctx (i, sub, sc). comb_full (partition_domain L) ctx q (map (eval_full (partition_domain L)) cs)
        (q_init (partition_domain L) q) (i + 1, sub, sc))
     (\<lambda>ctx (i, sub, sc). comb_full bool_domain ctx q (map (eval_full bool_domain) cs) (q_init bool_domain q) (i + 1, sub, sc))"
proof (rule pointwiseI)
  fix i sub sc sub' sc' assume c: "corresponds (all_keys (require_pctx ctx)) k (i, sub, sc) (i, sub', sc')"
  note comb = comb_pointwise [OF assms corresponds_counter [OF c], of cs q "q_init (partition_domain L) q" "i + 1"]
  show "fst ((\<lambda>(i, sub, sc). comb_full bool_domain (project k ctx) q (map (eval_full bool_domain) cs) (q_init bool_domain q) (i + 1, sub, sc)) (i, sub', sc')) =
      (k \<in> sel_set (all_keys (require_pctx ctx))
        (fst ((\<lambda>(i, sub, sc). comb_full (partition_domain L) ctx q (map (eval_full (partition_domain L)) cs)
          (q_init (partition_domain L) q) (i + 1, sub, sc)) (i, sub, sc)))) \<and>
    corresponds (all_keys (require_pctx ctx)) k
      (snd ((\<lambda>(i, sub, sc). comb_full (partition_domain L) ctx q (map (eval_full (partition_domain L)) cs)
          (q_init (partition_domain L) q) (i + 1, sub, sc)) (i, sub, sc)))
      (snd ((\<lambda>(i, sub, sc). comb_full bool_domain (project k ctx) q (map (eval_full bool_domain) cs) (q_init bool_domain q) (i + 1, sub, sc)) (i, sub', sc')))"
    using comb unfolding prod.case q_init_pointwise [OF assms(1), of q L] by blast
qed

lemma pointwise_comb:
  assumes "k \<in> all_keys (require_pctx ctx)"
    and "\<And>c. c \<in> set cs \<Longrightarrow> pointwise ctx k (eval_full (partition_domain L) c) (eval_full bool_domain c)"
  shows "pointwise ctx k (eval_full (partition_domain L) (CAnd cs)) (eval_full bool_domain (CAnd cs))"
    and "pointwise ctx k (eval_full (partition_domain L) (COr cs)) (eval_full bool_domain (COr cs))"
  using pointwise_comb_q [OF assms, of cs QAll] pointwise_comb_q [OF assms, of cs QAny] by simp_all

lemma pointwise_unary:
  assumes "root_level ctx" and "k \<in> all_keys (require_pctx ctx)"
    and "pointwise ctx k (eval_full (partition_domain L) c) (eval_full bool_domain c)"
  shows "pointwise ctx k (eval_full (partition_domain L) (CNot c)) (eval_full bool_domain (CNot c))"
    and "pointwise ctx k (eval_full (partition_domain L) (SinceLastHandled c)) (eval_full bool_domain (SinceLastHandled c))"
  using assms(2)
  by (auto intro!: pointwiseI simp: case_prod_beta Let_def pointwiseD [OF assms(3) corresponds_counter]
      bool_fields part_fields in_ops pointwise_handled [OF assms(1,2)])

lemma pointwise_newly_true:
  assumes "k \<in> all_keys (require_pctx ctx)"
    and "pointwise ctx k (eval_full (partition_domain L) c) (eval_full bool_domain c)"
  shows "pointwise ctx k (eval_full (partition_domain L) (NewlyTrue c)) (eval_full bool_domain (NewlyTrue c))"
proof (rule pointwiseI)
  let ?U = "all_keys (require_pctx ctx)"
  fix i sub sc sub' sc' assume c: "corresponds ?U k (i, sub, sc) (i, sub', sc')"
  note ch = pointwiseD [OF assms(2) corresponds_counter [OF c], of "i + 1"]
  obtain v j s1 sc1 where p: "eval_full (partition_domain L) c ctx (i + 1, sub, sc) = (v, (j, s1, sc1))" by (metis prod_cases4)
  obtain w j' s2 sc2 where b: "eval_full bool_domain c (project k ctx) (i + 1, sub', sc') = (w, (j', s2, sc2))" by (metis prod_cases4)
  have w: "w = (k \<in> sel_set ?U v)" and cor: "corresponds ?U k (j, s1, sc1) (j', s2, sc2)" using ch p b by simp_all
  show "fst (eval_full bool_domain (NewlyTrue c) (project k ctx) (i, sub', sc')) =
      (k \<in> sel_set ?U (fst (eval_full (partition_domain L) (NewlyTrue c) ctx (i, sub, sc)))) \<and>
    corresponds ?U k (snd (eval_full (partition_domain L) (NewlyTrue c) ctx (i, sub, sc)))
      (snd (eval_full bool_domain (NewlyTrue c) (project k ctx) (i, sub', sc')))"
    using p b assms(1) corresponds_store [OF cor] pointwise_latch [OF cor]
    by (simp add: bool_fields part_fields in_ops w)
qed

lemma pointwise_since:
  assumes "k \<in> all_keys (require_pctx ctx)"
    and "pointwise ctx k (eval_full (partition_domain L) t) (eval_full bool_domain t)"
    and "pointwise ctx k (eval_full (partition_domain L) r) (eval_full bool_domain r)"
  shows "pointwise ctx k (eval_full (partition_domain L) (Since t r)) (eval_full bool_domain (Since t r))"
proof (rule pointwiseI)
  let ?U = "all_keys (require_pctx ctx)"
  fix i sub sc sub' sc' assume c: "corresponds ?U k (i, sub, sc) (i, sub', sc')"
  note t = pointwiseD [OF assms(2) corresponds_counter [OF c], of "i + 1"]
  note r = pointwiseD [OF assms(3) t(2)]
  obtain vt st1 where pt: "eval_full (partition_domain L) t ctx (i + 1, sub, sc) = (vt, st1)" by (metis surj_pair)
  obtain wt st2 where bt: "eval_full bool_domain t (project k ctx) (i + 1, sub', sc') = (wt, st2)" by (metis surj_pair)
  obtain vr j s1 sc1 where pr: "eval_full (partition_domain L) r ctx st1 = (vr, (j, s1, sc1))" by (metis prod_cases4)
  obtain wr j' s2 sc2 where br: "eval_full bool_domain r (project k ctx) st2 = (wr, (j', s2, sc2))" by (metis prod_cases4)
  have w: "wt = (k \<in> sel_set ?U vt)" "wr = (k \<in> sel_set ?U vr)" and cor: "corresponds ?U k (j, s1, sc1) (j', s2, sc2)"
    using t r pt bt pr br by simp_all
  show "fst (eval_full bool_domain (Since t r) (project k ctx) (i, sub', sc')) =
      (k \<in> sel_set ?U (fst (eval_full (partition_domain L) (Since t r) ctx (i, sub, sc)))) \<and>
    corresponds ?U k (snd (eval_full (partition_domain L) (Since t r) ctx (i, sub, sc)))
      (snd (eval_full bool_domain (Since t r) (project k ctx) (i, sub', sc')))"
    using pt bt pr br assms(1) pointwise_latch [OF cor]
      corresponds_store [OF cor, of i "restrict_to ?U (sel_difference ?U (sel_union (prev_partition_latch sc1 ctx i) vt) vr)"]
    by (simp add: bool_fields part_fields in_ops w Let_def)
qed

lemma pointwise_leaf_node:
  assumes "root_level ctx" and "k \<in> all_keys (require_pctx ctx)" and "children n = []" and "local_node n"
    and "\<And>cs. n \<noteq> CAnd cs" and "\<And>cs. n \<noteq> COr cs"
  shows "pointwise ctx k (full_leaf (partition_domain L) n) (full_leaf bool_domain n)"
  by (rule pointwiseI) (simp add: full_leaf_def pointwise_leaf [OF assms] corresponds_counter)

lemma pointwise_eval:
  assumes "root_level ctx" and "k \<in> all_keys (require_pctx ctx)" and "local_node n"
  shows "pointwise ctx k (eval_full (partition_domain L) n) (eval_full bool_domain n)"
  using assms(3)
proof (induction n)
  case (CAnd cs)
  then show ?case using local_children [OF CAnd.prems] by (intro pointwise_comb assms) simp_all
next
  case (COr cs)
  then show ?case using local_children [OF COr.prems] by (intro pointwise_comb assms) simp_all
next
  case (Since t r)
  then show ?case using local_children [OF Since.prems] by (intro pointwise_since assms) simp_all
next
  case (NewlyTrue c)
  then show ?case using local_children [OF NewlyTrue.prems] by (intro pointwise_newly_true assms) simp_all
next
  case (CNot c)
  then show ?case using local_children [OF CNot.prems] by (intro pointwise_unary assms) simp_all
next
  case (SinceLastHandled c)
  then show ?case using local_children [OF SinceLastHandled.prems] by (intro pointwise_unary assms) simp_all
qed (auto simp: pointwise_leaf_node [OF assms(1,2)] is_dep_aggregate_def dest: local_not_aggregate)

text \<open>
  C2: the partition evaluator works partition by partition. For a condition on the asset
  itself, partition \<open>k\<close> is selected exactly when the condition fires for the unpartitioned
  asset with the record, status, tags and state of \<open>k\<close>, and the latch each stateful node
  stores for \<open>k\<close> is the one the boolean evaluation stores.
\<close>

theorem partition_eval_pointwise:
  assumes "root_level ctx" and "part_ctx_ok ctx" and "k \<in> all_keys (require_pctx ctx)" and "local_node n"
  shows "\<exists>sel subs. result_selection (evaluate L n ctx) = Some sel \<and> sub_selections (evaluate L n ctx) = Some subs \<and>
     fired (evaluate L n (project k ctx)) = (k \<in> sel_set (all_keys (require_pctx ctx)) sel) \<and>
     sub_results (evaluate L n (project k ctx)) = lift_latches (\<lambda>s. k \<in> sel_set (all_keys (require_pctx ctx)) s) subs"
proof -
  let ?U = "all_keys (require_pctx ctx)"
  let ?st = "(0, Map.empty, root_scope (partition_domain L) ctx)"
  let ?st' = "(0, Map.empty, root_scope bool_domain (project k ctx))"
  have "corresponds ?U k ?st ?st'" by (simp add: corresponds_def root_scope_def)
  note pw = pointwiseD [OF pointwise_eval [OF assms(1,3,4)] this]
  have p: "fst (fst (eval (partition_domain L) n ctx ?st False)) = fst (eval_full (partition_domain L) n ctx ?st)"
    "snd (eval (partition_domain L) n ctx ?st False) = snd (eval_full (partition_domain L) n ctx ?st)"
    using part_dom.short_circuit [OF assms(2), of ?st L n] root_scope_ok [OF assms(2), of L] by (simp_all add: st_ok_def)
  have b: "fst (fst (eval bool_domain n (project k ctx) ?st' False)) = fst (eval_full bool_domain n (project k ctx) ?st')"
    "snd (eval bool_domain n (project k ctx) ?st' False) = snd (eval_full bool_domain n (project k ctx) ?st')"
    using bool_dom.short_circuit [where st = ?st' and ctx = "project k ctx" and n = n]
    by (simp_all add: st_ok_def scope_ok_def latches_ok_def dep_latches_ok_def)
  have part: "partitions ctx \<noteq> None" using assms(1) by (auto simp: root_level_def)
  show ?thesis
    using pw p b part
    by (auto simp: evaluate_def run_def case_prod_beta Let_def corresponds_def bool_assemble_def part_assemble_def
        bool_domain_def [THEN arg_cong [where f = d_assemble]] partition_domain_def [THEN arg_cong [where f = d_assemble]])
qed

theorem partition_eval_pointwise_witness:
  "\<exists>sel subs. result_selection (evaluate unary_lib (NewlyTrue (CNot Missing)) sample_context) = Some sel \<and>
     sub_selections (evaluate unary_lib (NewlyTrue (CNot Missing)) sample_context) = Some subs \<and>
     fired (evaluate unary_lib (NewlyTrue (CNot Missing)) (project (Single [''a'']) sample_context)) =
       (Single [''a''] \<in> sel_set (all_keys (require_pctx sample_context)) sel) \<and>
     sub_results (evaluate unary_lib (NewlyTrue (CNot Missing)) (project (Single [''a'']) sample_context)) =
       lift_latches (\<lambda>s. Single [''a''] \<in> sel_set (all_keys (require_pctx sample_context)) s) subs"
  by (rule partition_eval_pointwise [OF _ sample_ok])
    (simp_all add: root_level_def sample_context_def sample_partitions_def require_pctx_def local_node_def
      any_node.simps is_dep_aggregate_def)

end
