(* ===== verification/Condition_Ticks.thy ===== *)
theory Condition_Ticks
  imports Condition_Laws
begin

text \<open>
  Conditions over successive ticks of an unpartitioned asset, with the state threaded by
  \<open>update_condition_state\<close>: \<open>NewlyTrue\<close> detects rising edges, \<open>Since\<close> is a latch whose
  reset wins, \<open>SinceLastHandled\<close> fires until handled. Then the presets of the code
  characterised: exactly when \<open>eager\<close> and \<open>on_missing\<close> fire.
\<close>

section \<open>Ticks\<close>

definition tick_context :: "eval_context \<Rightarrow> asset_state \<Rightarrow> eval_context" where
  "tick_context base s =
     base\<lparr>prev_state := s, all_asset_states := (all_asset_states base)(root_key base \<mapsto> s)\<rparr>"

definition next_state :: "('b, 'c) time_lib \<Rightarrow> condition_node \<Rightarrow> eval_context \<Rightarrow> asset_state \<Rightarrow> asset_state" where
  "next_state L n base s =
     (let ctx = tick_context base s
      in update_condition_state (from_eval_context ctx) (evaluate L n ctx) s)"

fun state_after :: "('b, 'c) time_lib \<Rightarrow> condition_node \<Rightarrow> asset_state \<Rightarrow> eval_context list \<Rightarrow> asset_state" where
  "state_after L n s [] = s"
| "state_after L n s (base # bases) = state_after L n (next_state L n base s) bases"

text \<open>The context of tick \<open>i\<close> of a sequence of ticks, and whether the condition fires there.\<close>

definition ctx_at :: "('b, 'c) time_lib \<Rightarrow> condition_node \<Rightarrow> asset_state \<Rightarrow> eval_context list \<Rightarrow> nat \<Rightarrow> eval_context" where
  "ctx_at L n s bases i = tick_context (bases ! i) (state_after L n s (take i bases))"

definition fires_at :: "('b, 'c) time_lib \<Rightarrow> condition_node \<Rightarrow> asset_state \<Rightarrow> eval_context list \<Rightarrow> nat \<Rightarrow> bool" where
  "fires_at L n s bases i = fired (evaluate L n (ctx_at L n s bases i))"

text \<open>The value of a subtree evaluated at node index \<open>k\<close> of the root's tree.\<close>

definition value_at :: "condition_node \<Rightarrow> eval_context \<Rightarrow> nat \<Rightarrow> bool" where
  "value_at c ctx k = fst (eval_full bool_domain c ctx (k, Map.empty, root_scope bool_domain ctx))"

section \<open>Values do not depend on what is recorded\<close>

text \<open>
  The value of a boolean evaluation depends on the context, the node index and the previous
  latches only: not on the latches recorded so far in this tick.
\<close>

definition same_scope :: "'v dep_scope \<Rightarrow> 'v dep_scope \<Rightarrow> bool" where
  "same_scope sc sc' \<longleftrightarrow> sc_prev sc = sc_prev sc' \<and> sc_cur sc = sc_cur sc'"

definition reads_only :: "'v full_evaluator \<Rightarrow> bool" where
  "reads_only f \<longleftrightarrow> (\<forall>ctx k sub sc sub' sc'. same_scope sc sc' \<longrightarrow>
     fst (f ctx (k, sub, sc)) = fst (f ctx (k, sub', sc')) \<and>
     fst (snd (f ctx (k, sub, sc))) = fst (snd (f ctx (k, sub', sc'))) \<and>
     same_scope (snd (snd (snd (f ctx (k, sub, sc))))) sc)"

lemma same_scope_refl [simp]: "same_scope sc sc"
  by (simp add: same_scope_def)

lemma same_scope_trans: "same_scope a b \<Longrightarrow> same_scope b c \<Longrightarrow> same_scope a c"
  by (simp add: same_scope_def)

lemma same_scope_sym: "same_scope a b \<Longrightarrow> same_scope b a"
  by (simp add: same_scope_def)

lemma reads_onlyD:
  assumes "reads_only f" and "same_scope sc sc'"
  shows "fst (f ctx (k, sub, sc)) = fst (f ctx (k, sub', sc'))"
    and "fst (snd (f ctx (k, sub, sc))) = fst (snd (f ctx (k, sub', sc')))"
    and "same_scope (snd (snd (snd (f ctx (k, sub, sc))))) sc"
  using assms unfolding reads_only_def by blast+

lemma reads_only_seq:
  assumes "reads_only f" and "fst st = fst st'" and "same_scope (snd (snd st)) (snd (snd st'))"
  shows "fst (f ctx st) = fst (f ctx st')" and "fst (snd (f ctx st)) = fst (snd (f ctx st'))"
    and "same_scope (snd (snd (snd (f ctx st)))) (snd (snd st))"
proof -
  have st: "st = (fst st, fst (snd st), snd (snd st))" "st' = (fst st, fst (snd st'), snd (snd st'))"
    using assms(2) by (simp_all add: prod_eq_iff)
  show "fst (f ctx st) = fst (f ctx st')" "fst (snd (f ctx st)) = fst (snd (f ctx st'))"
    by (subst st(1), subst st(2), rule reads_onlyD [OF assms(1,3)])+
  show "same_scope (snd (snd (snd (f ctx st)))) (snd (snd st))"
    using reads_onlyD(3) [OF assms(1,3), of ctx "fst st" "fst (snd st)"] st(1) by simp
qed

lemma collect_scope [simp]:
  "sc_prev (collect_dep_latch d local sc) = sc_prev sc" "sc_cur (collect_dep_latch d local sc) = sc_cur sc"
  by (simp_all add: collect_dep_latch_def)

lemma pivot_reads:
  assumes "reads_only f" and "same_scope sc sc'"
  shows "fst (eval_on_dep (as_evaluator f) d c ctx k sc) = fst (eval_on_dep (as_evaluator f) d c ctx k sc')"
    and "same_scope (snd (snd (eval_on_dep (as_evaluator f) d c ctx k sc))) sc"
proof -
  have sc: "same_scope (sc\<lparr>sc_cur := Some (latch_of (sc_prev sc) d)\<rparr>) (sc'\<lparr>sc_cur := Some (latch_of (sc_prev sc') d)\<rparr>)"
    using assms(2) by (simp add: same_scope_def)
  show "fst (eval_on_dep (as_evaluator f) d c ctx k sc) = fst (eval_on_dep (as_evaluator f) d c ctx k sc')"
    using reads_onlyD(1) [OF assms(1) sc] assms(2)
    by (auto simp: eval_on_dep_def as_evaluator_def case_prod_beta Let_def split: option.split)
  show "same_scope (snd (snd (eval_on_dep (as_evaluator f) d c ctx k sc))) sc"
    using reads_onlyD(3) [OF assms(1) sc]
    by (auto simp: eval_on_dep_def as_evaluator_def case_prod_beta Let_def same_scope_def split: option.split)
qed

lemma deps_reads:
  assumes "reads_only f" and "same_scope sc sc'"
  shows "fst (deps_full bool_domain (as_evaluator f) c ctx k q ds r sc) =
         fst (deps_full bool_domain (as_evaluator f) c ctx k q ds r sc') \<and>
         same_scope (snd (deps_full bool_domain (as_evaluator f) c ctx k q ds r sc)) sc"
  using assms(2)
proof (induction ds arbitrary: r sc sc')
  case (Cons d ds)
  have piv: "d_pivot bool_domain = eval_on_dep" by (simp add: bool_domain_def)
  note p = pivot_reads [OF assms(1) Cons.prems, of d c ctx k]
  have p': "same_scope (snd (snd (eval_on_dep (as_evaluator f) d c ctx k sc')))
      (snd (snd (eval_on_dep (as_evaluator f) d c ctx k sc)))"
    using p(2) pivot_reads(2) [OF assms(1) same_scope_refl, of d c ctx k sc'] Cons.prems by (simp add: same_scope_def)
  show ?case
    using Cons.IH [OF same_scope_sym [OF p']] p
    by (auto simp: piv case_prod_beta Let_def intro: same_scope_trans)
qed simp

lemma comb_reads:
  assumes "\<And>c. c \<in> set cs \<Longrightarrow> reads_only (eval_full bool_domain c)"
    and "fst st = fst st'" and "same_scope (snd (snd st)) (snd (snd st'))"
  shows "fst (comb_full bool_domain ctx q (map (eval_full bool_domain) cs) r st) =
           fst (comb_full bool_domain ctx q (map (eval_full bool_domain) cs) r st') \<and>
         fst (snd (comb_full bool_domain ctx q (map (eval_full bool_domain) cs) r st)) =
           fst (snd (comb_full bool_domain ctx q (map (eval_full bool_domain) cs) r st')) \<and>
         same_scope (snd (snd (snd (comb_full bool_domain ctx q (map (eval_full bool_domain) cs) r st)))) (snd (snd st))"
  using assms
proof (induction cs arbitrary: r st st')
  case (Cons c cs)
  have c: "reads_only (eval_full bool_domain c)" using Cons.prems(1) by simp
  note e = reads_only_seq [OF c Cons.prems(2,3), of ctx]
  have "same_scope (snd (snd (snd (eval_full bool_domain c ctx st)))) (snd (snd (snd (eval_full bool_domain c ctx st'))))"
    using e(3) Cons.prems(3) reads_only_seq(3) [OF c refl same_scope_refl, of ctx st'] by (simp add: same_scope_def)
  from Cons.IH [OF _ e(2) this] Cons.prems(1) e show ?case
    by (auto simp: case_prod_beta Let_def intro: same_scope_trans)
qed simp

lemma reads_onlyI:
  assumes "\<And>ctx k sub sc sub' sc'. same_scope sc sc' \<Longrightarrow>
     fst (f ctx (k, sub, sc)) = fst (f ctx (k, sub', sc')) \<and>
     fst (snd (f ctx (k, sub, sc))) = fst (snd (f ctx (k, sub', sc'))) \<and>
     same_scope (snd (snd (snd (f ctx (k, sub, sc))))) sc"
  shows "reads_only f"
  unfolding reads_only_def using assms by blast

lemma bool_latch_scope: "same_scope sc sc' \<Longrightarrow> bool_prev_latch sc ctx k = bool_prev_latch sc' ctx k"
  by (simp add: bool_prev_latch_def same_scope_def)

lemma reads_deps: "reads_only f \<Longrightarrow> reads_only (full_deps bool_domain f c ds q)"
  by (rule reads_onlyI) (simp add: full_deps_def case_prod_beta Let_def deps_reads)

lemma reads_comb:
  assumes "\<And>c. c \<in> set cs \<Longrightarrow> reads_only (eval_full bool_domain c)"
  shows "reads_only (eval_full bool_domain (CAnd cs))" "reads_only (eval_full bool_domain (COr cs))"
proof -
  have "fst (comb_full bool_domain ctx q (map (eval_full bool_domain) cs) r (k, sub, sc)) =
        fst (comb_full bool_domain ctx q (map (eval_full bool_domain) cs) r (k, sub', sc')) \<and>
      fst (snd (comb_full bool_domain ctx q (map (eval_full bool_domain) cs) r (k, sub, sc))) =
        fst (snd (comb_full bool_domain ctx q (map (eval_full bool_domain) cs) r (k, sub', sc'))) \<and>
      same_scope (snd (snd (snd (comb_full bool_domain ctx q (map (eval_full bool_domain) cs) r (k, sub, sc))))) sc"
    if "same_scope sc sc'" for ctx q r k sub sub' sc sc'
    using comb_reads [OF assms, of cs "(k, sub, sc)" "(k, sub', sc')"] that by simp
  then show "reads_only (eval_full bool_domain (CAnd cs))" "reads_only (eval_full bool_domain (COr cs))"
    unfolding reads_only_def eval_full.simps prod.case by blast+
qed

lemma reads_map:
  assumes "reads_only f"
  shows "reads_only (\<lambda>ctx (k, sub, sc). let (v, st') = f ctx (k + 1, sub, sc) in (g ctx v, st'))"
proof (rule reads_onlyI)
  fix ctx k sub sub' and sc sc' :: "'a dep_scope"
  assume s: "same_scope sc sc'"
  show "fst ((\<lambda>(k, sub, sc). let (v, st') = f ctx (k + 1, sub, sc) in (g ctx v, st')) (k, sub, sc)) =
      fst ((\<lambda>(k, sub, sc). let (v, st') = f ctx (k + 1, sub, sc) in (g ctx v, st')) (k, sub', sc')) \<and>
    fst (snd ((\<lambda>(k, sub, sc). let (v, st') = f ctx (k + 1, sub, sc) in (g ctx v, st')) (k, sub, sc))) =
      fst (snd ((\<lambda>(k, sub, sc). let (v, st') = f ctx (k + 1, sub, sc) in (g ctx v, st')) (k, sub', sc'))) \<and>
    same_scope (snd (snd (snd ((\<lambda>(k, sub, sc). let (v, st') = f ctx (k + 1, sub, sc) in (g ctx v, st')) (k, sub, sc))))) sc"
    using reads_onlyD(1,2) [OF assms s, of ctx "k + 1" sub sub'] reads_onlyD(3) [OF assms s, of ctx "k + 1" sub]
    by (simp add: case_prod_beta)
qed

lemma reads_unary:
  assumes "reads_only (eval_full bool_domain c)"
  shows "reads_only (eval_full bool_domain (CNot c))" "reads_only (eval_full bool_domain (SinceLastHandled c))"
  unfolding eval_full.simps by (rule reads_map [OF assms])+

lemma reads_newly_true:
  assumes "reads_only (eval_full bool_domain c)"
  shows "reads_only (eval_full bool_domain (NewlyTrue c))"
proof (rule reads_onlyI)
  fix ctx k sub sub' and sc sc' :: "bool dep_scope"
  assume s: "same_scope sc sc'"
  note e = reads_onlyD(1,2) [OF assms s, of ctx "k + 1" sub sub'] reads_onlyD(3) [OF assms s, of ctx "k + 1" sub]
    reads_onlyD(3) [OF assms same_scope_refl, of ctx "k + 1" sub' sc']
  have "same_scope (snd (snd (snd (eval_full bool_domain c ctx (k + 1, sub, sc)))))
      (snd (snd (snd (eval_full bool_domain c ctx (k + 1, sub', sc')))))"
    using e(3,4) s by (simp add: same_scope_def)
  then show "fst (eval_full bool_domain (NewlyTrue c) ctx (k, sub, sc)) = fst (eval_full bool_domain (NewlyTrue c) ctx (k, sub', sc')) \<and>
     fst (snd (eval_full bool_domain (NewlyTrue c) ctx (k, sub, sc))) = fst (snd (eval_full bool_domain (NewlyTrue c) ctx (k, sub', sc'))) \<and>
     same_scope (snd (snd (snd (eval_full bool_domain (NewlyTrue c) ctx (k, sub, sc))))) sc"
    using e by (simp add: case_prod_beta Let_def bool_fields bool_latch_scope)
qed

lemma reads_since:
  assumes "reads_only (eval_full bool_domain t)" and "reads_only (eval_full bool_domain r)"
  shows "reads_only (eval_full bool_domain (Since t r))"
proof (rule reads_onlyI)
  fix ctx k sub sub' and sc sc' :: "bool dep_scope"
  assume s: "same_scope sc sc'"
  let ?s = "snd (eval_full bool_domain t ctx (k + 1, sub, sc))"
  let ?s' = "snd (eval_full bool_domain t ctx (k + 1, sub', sc'))"
  note e = reads_onlyD(1,2) [OF assms(1) s, of ctx "k + 1" sub sub'] reads_onlyD(3) [OF assms(1) s, of ctx "k + 1" sub]
    reads_onlyD(3) [OF assms(1) same_scope_refl, of ctx "k + 1" sub' sc']
  have ss: "same_scope (snd (snd ?s)) (snd (snd ?s'))" using e(3,4) s by (simp add: same_scope_def)
  note g = reads_only_seq [OF assms(2) e(2) ss, of ctx] reads_only_seq(3) [OF assms(2) refl same_scope_refl, of ctx ?s']
  have "same_scope (snd (snd (snd (eval_full bool_domain r ctx ?s)))) (snd (snd (snd (eval_full bool_domain r ctx ?s'))))"
    using g(3,4) ss by (simp add: same_scope_def)
  moreover have "same_scope (snd (snd (snd (eval_full bool_domain r ctx ?s)))) sc"
    using g(3) e(3) by (rule same_scope_trans)
  ultimately show "fst (eval_full bool_domain (Since t r) ctx (k, sub, sc)) = fst (eval_full bool_domain (Since t r) ctx (k, sub', sc')) \<and>
     fst (snd (eval_full bool_domain (Since t r) ctx (k, sub, sc))) = fst (snd (eval_full bool_domain (Since t r) ctx (k, sub', sc'))) \<and>
     same_scope (snd (snd (snd (eval_full bool_domain (Since t r) ctx (k, sub, sc))))) sc"
    using e g by (simp add: case_prod_beta Let_def bool_fields bool_latch_scope)
qed

lemma reads_leaf: "reads_only (full_leaf bool_domain n)"
  by (rule reads_onlyI) (simp add: full_leaf_def)

lemma eval_reads: "reads_only (eval_full bool_domain n)"
  by (induction n)
    (simp_all only: reads_comb reads_unary reads_newly_true reads_since, simp_all add: reads_deps reads_leaf)

lemma value_at_any:
  assumes "sc_cur sc = None" and "sc_prev sc = d_root_dep_prev bool_domain ctx"
  shows "fst (eval_full bool_domain c ctx (k, sub, sc)) = value_at c ctx k"
  unfolding value_at_def
  by (rule reads_onlyD(1) [OF eval_reads]) (simp add: assms same_scope_def root_scope_def)

section \<open>One tick of the stateful operators\<close>

lemma bool_st_ok: "st_ok (\<lambda>_. True) st"
  by (simp add: st_ok_def scope_ok_def latches_ok_def dep_latches_ok_def)

lemma bool_eval_full:
  "fst (fst (eval bool_domain n ctx st False)) = fst (eval_full bool_domain n ctx st)"
  "snd (eval bool_domain n ctx st False) = snd (eval_full bool_domain n ctx st)"
  using bool_dom.short_circuit [OF TrueI bool_st_ok] by blast+

lemma full_counter: "fst (snd (eval_full bool_domain n ctx st)) = fst st + node_count n"
  using advancesD [OF eval_advances] bool_eval_full(2) by metis

lemma evaluate_bool:
  assumes "partitions ctx = None"
  shows "fired (evaluate L n ctx) = value_at n ctx 0"
    and "sub_results (evaluate L n ctx) = fst (snd (snd (eval_full bool_domain n ctx (0, Map.empty, root_scope bool_domain ctx))))"
    and "sub_selections (evaluate L n ctx) = None"
  using assms
  by (simp_all add: evaluate_def run_def case_prod_beta Let_def value_at_def bool_eval_full bool_assemble_def
      bool_domain_def [THEN arg_cong [where f = d_assemble]])

definition latched :: "eval_context \<Rightarrow> nat \<Rightarrow> bool" where
  "latched ctx k \<longleftrightarrow> previous_results (prev_state ctx) k = Some True"

lemma root_latch: "sc_cur sc = None \<Longrightarrow> bool_prev_latch sc ctx k = latched ctx k"
  by (auto simp: bool_prev_latch_def latched_def split: option.split)

lemma after_scope:
  assumes "sc_cur sc = None" and "sc_prev sc = d_root_dep_prev bool_domain ctx"
  shows "sc_cur (snd (snd (snd (eval_full bool_domain n ctx (k, sub, sc))))) = None"
    and "sc_prev (snd (snd (snd (eval_full bool_domain n ctx (k, sub, sc))))) = d_root_dep_prev bool_domain ctx"
  using reads_onlyD(3) [OF eval_reads same_scope_refl, of n ctx k sub sc] assms by (simp_all add: same_scope_def)

lemma root_scope_fields [simp]:
  "sc_cur (root_scope D ctx) = None" "sc_prev (root_scope D ctx) = d_root_dep_prev D ctx"
  by (simp_all add: root_scope_def)

lemma newly_true_tick:
  "value_at (NewlyTrue c) ctx 0 = (value_at c ctx 1 \<and> \<not> latched ctx 0)"
  "fst (snd (snd (eval_full bool_domain (NewlyTrue c) ctx (0, Map.empty, root_scope bool_domain ctx)))) 0 = Some (value_at c ctx 1)"
  by (simp_all add: value_at_def case_prod_beta Let_def bool_fields root_latch after_scope)

lemma since_tick:
  "value_at (Since t r) ctx 0 = ((latched ctx 0 \<or> value_at t ctx 1) \<and> \<not> value_at r ctx (1 + node_count t))"
  "fst (snd (snd (eval_full bool_domain (Since t r) ctx (0, Map.empty, root_scope bool_domain ctx)))) 0 =
     Some (value_at (Since t r) ctx 0)"
proof -
  let ?s = "snd (eval_full bool_domain t ctx (1, Map.empty, root_scope bool_domain ctx))"
  obtain k sub sc where s: "?s = (k, sub, sc)" by (metis prod_cases3)
  have k: "k = 1 + node_count t" using full_counter [of t ctx "(1, Map.empty, root_scope bool_domain ctx)"] s by simp
  have sc: "sc_cur sc = None" "sc_prev sc = d_root_dep_prev bool_domain ctx"
    using after_scope [of "root_scope bool_domain ctx" ctx t 1 Map.empty] s by simp_all
  have r: "fst (eval_full bool_domain r ctx (k, sub, sc)) = value_at r ctx k" using sc by (rule value_at_any)
  have t: "fst (eval_full bool_domain t ctx (1, Map.empty, root_scope bool_domain ctx)) = value_at t ctx 1"
    by (simp add: value_at_def)
  show "value_at (Since t r) ctx 0 = ((latched ctx 0 \<or> value_at t ctx 1) \<and> \<not> value_at r ctx (1 + node_count t))"
    using s t r k
    by (simp add: value_at_def [of "Since t r"] case_prod_beta Let_def bool_fields root_latch after_scope [OF sc])
  show "fst (snd (snd (eval_full bool_domain (Since t r) ctx (0, Map.empty, root_scope bool_domain ctx)))) 0 =
     Some (value_at (Since t r) ctx 0)"
    by (simp add: value_at_def [of "Since t r"] case_prod_beta Let_def)
qed

section \<open>Successive ticks\<close>

lemma state_after_snoc: "state_after L n s (bs @ [b]) = next_state L n b (state_after L n s bs)"
  by (induction bs arbitrary: s) simp_all

lemma latched_next:
  assumes "Suc i < length bases"
  shows "latched (ctx_at L n s bases (Suc i)) k \<longleftrightarrow> sub_results (evaluate L n (ctx_at L n s bases i)) k = Some True"
proof -
  have "take (Suc i) bases = take i bases @ [bases ! i]" using assms by (simp add: take_Suc_conv_app_nth)
  then show ?thesis
    by (simp add: latched_def ctx_at_def tick_context_def state_after_snoc next_state_def Let_def
        update_condition_state_def)
qed

lemma latched_first: "0 < length bases \<Longrightarrow> latched (ctx_at L n s bases 0) k \<longleftrightarrow> previous_results s k = Some True"
  by (simp add: latched_def ctx_at_def tick_context_def)

lemma ctx_at_unpartitioned: "\<forall>b\<in>set bases. partitions b = None \<Longrightarrow> i < length bases \<Longrightarrow> partitions (ctx_at L n s bases i) = None"
  by (simp add: ctx_at_def tick_context_def)

text \<open>An unpartitioned asset that was never materialized.\<close>

definition plain_context :: eval_context where
  "plain_context = sample_context\<lparr>partitions := None\<rparr>"

text \<open>
  C22: over any sequence of ticks of an unpartitioned asset, \<open>NewlyTrue\<close> fires exactly at the
  rising edges of its child: where the child holds and did not hold on the tick before.
\<close>

theorem newly_true_rising_edge:
  assumes "\<forall>b\<in>set bases. partitions b = None" and "previous_results s 0 = None" and "i < length bases"
  shows "fires_at L (NewlyTrue c) s bases i \<longleftrightarrow>
         value_at c (ctx_at L (NewlyTrue c) s bases i) 1 \<and>
         (i = 0 \<or> \<not> value_at c (ctx_at L (NewlyTrue c) s bases (i - 1)) 1)"
proof (cases i)
  case 0
  then show ?thesis
    using assms ctx_at_unpartitioned [OF assms(1,3), of L "NewlyTrue c" s] latched_first [of bases L "NewlyTrue c" s 0]
    by (simp add: fires_at_def evaluate_bool(1) newly_true_tick(1))
next
  case (Suc j)
  then have "partitions (ctx_at L (NewlyTrue c) s bases j) = None" using assms by (intro ctx_at_unpartitioned) simp_all
  then show ?thesis
    using Suc assms ctx_at_unpartitioned [OF assms(1,3), of L "NewlyTrue c" s] latched_next [of j bases L "NewlyTrue c" s 0]
    by (simp add: fires_at_def evaluate_bool newly_true_tick del: eval_full.simps)
qed

theorem newly_true_rising_edge_witness:
  "\<not> fires_at unary_lib (NewlyTrue Missing) default_asset_state [plain_context, plain_context] 1"
  using newly_true_rising_edge [of "[plain_context, plain_context]" default_asset_state 1 unary_lib Missing]
  by (simp add: plain_context_def sample_context_def default_asset_state_def value_at_def ctx_at_def tick_context_def
      full_leaf_def root_scope_def bool_domain_def sample_record_def)



section \<open>Presets\<close>

text \<open>
  \<open>dep_holds P ctx\<close>: some dependency with a record satisfies \<open>P\<close> in the context the
  evaluator builds for it.
\<close>

definition dep_holds :: "(eval_context \<Rightarrow> bool) \<Rightarrow> eval_context \<Rightarrow> bool" where
  "dep_holds P ctx \<longleftrightarrow> (\<exists>d\<in>set (target_deps ctx). \<exists>rec. records (cache ctx) d = Some rec \<and>
     P (dep_eval_context ctx d rec None (root_partition_floor ctx)))"

definition all_deps_hold :: "(eval_context \<Rightarrow> bool) \<Rightarrow> eval_context \<Rightarrow> bool" where
  "all_deps_hold P ctx \<longleftrightarrow> (\<forall>d\<in>set (target_deps ctx). \<exists>rec. records (cache ctx) d = Some rec \<and>
     P (dep_eval_context ctx d rec None (root_partition_floor ctx)))"

lemma pivot_value:
  assumes "\<And>ctx st. fst (f ctx st) = P ctx"
  shows "fst (eval_on_dep (as_evaluator f) d c ctx k sc) \<longleftrightarrow>
    (\<exists>rec. records (cache ctx) d = Some rec \<and> P (dep_eval_context ctx d rec None (root_partition_floor ctx)))"
  by (auto simp: eval_on_dep_def as_evaluator_def case_prod_beta Let_def assms split: option.split)

lemma deps_value:
  assumes "\<And>ctx st. fst (f ctx st) = P ctx"
  shows "fst (deps_full bool_domain (as_evaluator f) c ctx k QAny ds r sc) \<longleftrightarrow>
      r \<or> (\<exists>d\<in>set ds. \<exists>rec. records (cache ctx) d = Some rec \<and> P (dep_eval_context ctx d rec None (root_partition_floor ctx)))"
    and "fst (deps_full bool_domain (as_evaluator f) c ctx k QAll ds r sc) \<longleftrightarrow>
      r \<and> (\<forall>d\<in>set ds. \<exists>rec. records (cache ctx) d = Some rec \<and> P (dep_eval_context ctx d rec None (root_partition_floor ctx)))"
proof -
  have piv: "d_pivot bool_domain = eval_on_dep" "d_and bool_domain = (\<and>)" by (simp_all add: bool_domain_def)
  show "fst (deps_full bool_domain (as_evaluator f) c ctx k QAny ds r sc) \<longleftrightarrow>
      r \<or> (\<exists>d\<in>set ds. \<exists>rec. records (cache ctx) d = Some rec \<and> P (dep_eval_context ctx d rec None (root_partition_floor ctx)))"
    by (induction ds arbitrary: r sc)
      (simp_all add: piv case_prod_beta Let_def pivot_value [of f P, OF assms] bool_fields)
  show "fst (deps_full bool_domain (as_evaluator f) c ctx k QAll ds r sc) \<longleftrightarrow>
      r \<and> (\<forall>d\<in>set ds. \<exists>rec. records (cache ctx) d = Some rec \<and> P (dep_eval_context ctx d rec None (root_partition_floor ctx)))"
    by (induction ds arbitrary: r sc)
      (simp_all add: piv case_prod_beta Let_def pivot_value [of f P, OF assms])
qed

lemma full_deps_value:
  assumes "\<And>ctx st. fst (f ctx st) = P ctx"
  shows "fst (full_deps bool_domain f c target_deps QAny ctx st) \<longleftrightarrow> dep_holds P ctx"
    and "fst (full_deps bool_domain f c target_deps QAll ctx st) \<longleftrightarrow> all_deps_hold P ctx"
proof -
  have i: "d_empty bool_domain = False" "d_all bool_domain = True" by (simp_all add: bool_domain_def)
  show "fst (full_deps bool_domain f c target_deps QAny ctx st) \<longleftrightarrow> dep_holds P ctx"
    and "fst (full_deps bool_domain f c target_deps QAll ctx st) \<longleftrightarrow> all_deps_hold P ctx"
    by (simp_all add: full_deps_def case_prod_beta Let_def deps_value [of f P, OF assms] i dep_holds_def all_deps_hold_def)
qed

lemma bool_leaf_fields:
  "d_missing bool_domain ctx = (last_run_id (target_record ctx) = None)"
  "d_in_progress bool_domain ctx = (target_key ctx \<in> in_progress_assets (cache ctx))"
  "d_failed bool_domain ctx = (target_key ctx \<in> failed_assets (cache ctx))"
  "d_newly_updated bool_domain = bool_newly_updated" "d_newly_requested bool_domain = requested_last_tick"
  "d_backfill_in_progress bool_domain ctx = (bf_assets (backfill (cache ctx)) (target_key ctx) \<noteq> None)"
  "d_last_run_includes_target bool_domain = bool_last_run_includes_target"
  "d_will_be_requested bool_domain ctx = (requested_this_tick ctx (target_key ctx) \<noteq> None)"
  "d_and bool_domain a b = (a \<and> b)" "d_all bool_domain = True" "d_empty bool_domain = False"
  "d_from_bool bool_domain b = b"
  by (simp_all add: bool_domain_def)

lemmas bool_eval = case_prod_beta Let_def full_leaf_def bool_fields bool_leaf_fields

definition dep_updated :: "eval_context \<Rightarrow> bool" where
  "dep_updated c \<longleftrightarrow> bool_newly_updated c \<and> \<not> bool_last_run_includes_target c \<or>
     requested_this_tick c (target_key c) \<noteq> None"

definition dep_missing :: "eval_context \<Rightarrow> bool" where
  "dep_missing c \<longleftrightarrow> last_run_id (target_record c) = None \<and> requested_this_tick c (target_key c) = None"

definition dep_in_progress :: "eval_context \<Rightarrow> bool" where
  "dep_in_progress c \<longleftrightarrow> target_key c \<in> in_progress_assets (cache c)"

lemma any_deps_updated_value: "fst (eval_full bool_domain any_deps_updated ctx st) = dep_holds dep_updated ctx"
proof -
  have "fst (eval_full bool_domain (bitor (bitand NewlyUpdated (node_not LastRunIncludesTarget)) WillBeRequested) ctx st) =
      dep_updated ctx" for ctx st
    by (simp add: bool_eval bitor_def bitand_def node_not_def dep_updated_def)
  then show ?thesis unfolding any_deps_updated_def eval_full.simps by (rule full_deps_value)
qed

lemma any_deps_missing_value: "fst (eval_full bool_domain any_deps_missing ctx st) = dep_holds dep_missing ctx"
proof -
  have "fst (eval_full bool_domain (bitand Missing (node_not WillBeRequested)) ctx st) = dep_missing ctx" for ctx st
    by (simp add: bool_eval bitand_def node_not_def dep_missing_def)
  then show ?thesis unfolding any_deps_missing_def eval_full.simps by (rule full_deps_value)
qed

lemma any_deps_in_progress_value: "fst (eval_full bool_domain any_deps_in_progress ctx st) = dep_holds dep_in_progress ctx"
proof -
  have "fst (eval_full bool_domain InProgress ctx st) = dep_in_progress ctx" for ctx st
    by (simp add: bool_eval dep_in_progress_def)
  then show ?thesis unfolding any_deps_in_progress_def eval_full.simps by (rule full_deps_value)
qed

text \<open>Not handled since the last tick: never handled, never ticked, or handled before the last tick.\<close>

definition unhandled :: "eval_context \<Rightarrow> bool" where
  "unhandled ctx = (case root_handled_state ctx of
       (Some h, Some t) \<Rightarrow> h < t
     | _ \<Rightarrow> True)"

lemma bool_handled_value: "bool_since_last_handled ctx b = (b \<and> unhandled ctx)"
  by (auto simp: bool_since_last_handled_def unhandled_def case_prod_beta Let_def split: option.split)

lemma eager_tree:
  "eager = CAnd [SinceLastHandled (COr [NewlyTrue Missing, any_deps_updated]), CNot any_deps_missing,
     CNot any_deps_in_progress, CNot (COr [InProgress, BackfillInProgress]), CNot ExecutionFailed]"
  by (simp add: eager_def bitand_def bitor_def node_not_def in_flight_def any_deps_updated_def)

lemma on_missing_tree:
  "on_missing = CAnd [SinceLastHandled (NewlyTrue Missing), CNot any_deps_missing, CNot ExecutionFailed]"
  by (simp add: on_missing_def bitand_def node_not_def)



text \<open>
  the \<open>on_missing\<close> preset on an unpartitioned asset fires exactly when the asset has just
  become missing and has not been handled since its last tick, no dependency is missing
  without being requested this tick, and the asset is not failed.
\<close>

theorem on_missing_fires:
  assumes "partitions ctx = None"
  shows "fired (evaluate L on_missing ctx) \<longleftrightarrow>
    last_run_id (target_record ctx) = None \<and> \<not> latched ctx 2 \<and> unhandled ctx \<and>
    \<not> dep_holds dep_missing ctx \<and> target_key ctx \<notin> failed_assets (cache ctx)"
  by (auto simp: evaluate_bool(1) [OF assms] value_at_def on_missing_tree bool_eval root_latch bool_handled_value
      any_deps_missing_value numeral_eq_Suc)

theorem on_missing_fires_witness:
  "fired (evaluate unary_lib on_missing plain_context)"
  using on_missing_fires [of plain_context unary_lib]
  by (simp add: plain_context_def sample_context_def sample_record_def sample_cache_def latched_def
      default_asset_state_def unhandled_def root_handled_state_def dep_holds_def target_deps_def)

end
