(* ===== verification/Condition_Cache.thy ===== *)
theory Condition_Cache
  imports Condition_State "HOL-Library.AList"
begin

text \<open>
  The incremental cache of the condition engine (\<open>rivers-core/src/condition/cache/\<close>):
  its state, the run tracking that dispatch uses, the latest-run maps, the graph walks over
  the dependency edges, the plan phase of a refresh (\<open>RefreshDelta\<close>) for completed runs and
  the whole apply phase.

  A hash map the code only looks up in is a partial map. A hash map the code iterates over is
  an association list with distinct keys; the order of the list stands for the unspecified
  iteration order.
\<close>

named_theorems cache_defs \<open>definitions of the cache operations\<close>

section \<open>Runs\<close>

datatype run_status = Queued | NotStarted | Started | Success | Failure | Canceled

record run_record =
  run_id :: string
  run_code_location :: string
  run_job_name :: "string option"
  run_status :: run_status
  start_time :: int
  end_time :: "int option"
  run_tag_list :: run_tags
  node_names :: "string list"
  run_priority :: int
  run_partition_key :: "partition_key option"
  block_reason :: "string option"
  run_action :: "string option"

definition is_action :: "run_record \<Rightarrow> bool" where
  "is_action r = (run_action r \<noteq> None)"

fun run_status_is_terminal :: "run_status \<Rightarrow> bool" where
  "run_status_is_terminal Success = True"
| "run_status_is_terminal Failure = True"
| "run_status_is_terminal Canceled = True"
| "run_status_is_terminal _ = False"

definition run_ts :: "run_record \<Rightarrow> int" where
  "run_ts r = (case end_time r of Some t \<Rightarrow> t | None \<Rightarrow> start_time r)"

section \<open>Cache state\<close>

record pending_run =
  pr_asset_keys :: "string list"
  first_seen_ts :: int

record live_action_run =
  la_node_names :: "string list"
  la_partition_key :: "partition_key option"

type_synonym run_map = "(string \<times> partition_key option) list"
type_synonym slot = "partition_key option"

record asset_cache =
  c_records :: "string \<rightharpoonup> asset_record"
  c_edges :: "(string \<times> string) list"
  c_upstream :: "string \<rightharpoonup> string list"
  c_downstream :: "(string \<times> string list) list"
  c_in_progress :: "(string \<times> run_map) list"
  c_live_actions :: "(string \<times> live_action_run) list"
  c_failed :: "string set"
  c_failed_ts :: "string \<rightharpoonup> int"
  c_deletion_ts :: "string \<rightharpoonup> int"
  c_last_seen_run_ts :: int
  c_last_observation_ts :: int
  c_initialized :: bool
  c_partition_status :: "string \<rightharpoonup> partition_status"
  c_backfill :: backfill_state
  c_last_run_tags :: "run_tags slot_map"
  c_tick_tags :: "run_tags list slot_map"
  c_last_run_names :: "string list slot_map"
  c_partitioned :: "string set"
  c_needs_tick_tags :: bool
  c_pending_runs :: "(string \<times> pending_run) list"
  c_pending_grace :: int
  c_applied_runs :: "string \<rightharpoonup> int"
  c_last_run_entry_ts :: "(string \<times> slot) \<rightharpoonup> int"

definition DEFAULT_PENDING_GRACE_NANOS :: int where
  "DEFAULT_PENDING_GRACE_NANOS = 60 * 1000000000"

definition new_cache :: asset_cache where
  "new_cache =
     \<lparr>c_records = Map.empty, c_edges = [], c_upstream = Map.empty, c_downstream = [],
      c_in_progress = [], c_live_actions = [], c_failed = {}, c_failed_ts = Map.empty,
      c_deletion_ts = Map.empty, c_last_seen_run_ts = 0, c_last_observation_ts = 0,
      c_initialized = False, c_partition_status = Map.empty,
      c_backfill = \<lparr>bf_assets = Map.empty, bf_partition_keys = Map.empty\<rparr>,
      c_last_run_tags = Map.empty, c_tick_tags = Map.empty, c_last_run_names = Map.empty,
      c_partitioned = {}, c_needs_tick_tags = False, c_pending_runs = [],
      c_pending_grace = DEFAULT_PENDING_GRACE_NANOS, c_applied_runs = Map.empty,
      c_last_run_entry_ts = Map.empty\<rparr>"

definition is_partitioned :: "asset_cache \<Rightarrow> string \<Rightarrow> bool" where
  "is_partitioned c a = (a \<in> c_partitioned c)"

definition set_partitioned_assets :: "string list \<Rightarrow> asset_cache \<Rightarrow> asset_cache" where
  "set_partitioned_assets ks c = c\<lparr>c_partitioned := set ks\<rparr>"

definition set_needs_tick_tags :: "condition_node list \<Rightarrow> asset_cache \<Rightarrow> asset_cache" where
  "set_needs_tick_tags cs c = c\<lparr>c_needs_tick_tags := list_ex uses_tick_tags cs\<rparr>"

section \<open>Tracking runs in flight\<close>

text \<open>\<open>entry(k).or_default()\<close> on an association list: the entry's value, or the empty map.\<close>

definition runs_of :: "(string \<times> run_map) list \<Rightarrow> string \<Rightarrow> run_map" where
  "runs_of ip a = (case map_of ip a of Some rs \<Rightarrow> rs | None \<Rightarrow> [])"

definition track_run :: "string \<Rightarrow> string \<Rightarrow> partition_key option \<Rightarrow> (string \<times> run_map) list \<Rightarrow> (string \<times> run_map) list" where
  "track_run a rid pk ip = AList.update a (AList.update rid pk (runs_of ip a)) ip"

definition untrack_run :: "string \<Rightarrow> string \<Rightarrow> (string \<times> run_map) list \<Rightarrow> (string \<times> run_map) list" where
  "untrack_run a rid ip =
     (case map_of ip a of
        None \<Rightarrow> ip
      | Some rs \<Rightarrow>
          (let rs' = AList.delete rid rs
           in if rs' = [] then AList.delete a ip else AList.update a rs' ip))"

definition track_in_progress_run :: "string \<Rightarrow> string \<Rightarrow> partition_key option \<Rightarrow> asset_cache \<Rightarrow> asset_cache" where
  "track_in_progress_run a rid pk c = c\<lparr>c_in_progress := track_run a rid pk (c_in_progress c)\<rparr>"

definition untrack_in_progress_run :: "string \<Rightarrow> string \<Rightarrow> asset_cache \<Rightarrow> asset_cache" where
  "untrack_in_progress_run a rid c = c\<lparr>c_in_progress := untrack_run a rid (c_in_progress c)\<rparr>"

definition register_dispatched_run ::
  "string \<Rightarrow> string \<Rightarrow> int \<Rightarrow> partition_key option \<Rightarrow> asset_cache \<Rightarrow> asset_cache" where
  "register_dispatched_run a rid tnow pk c =
     (let c1 = track_in_progress_run a rid pk c;
          p = (case map_of (c_pending_runs c1) rid of
                 Some p \<Rightarrow> p | None \<Rightarrow> \<lparr>pr_asset_keys = [], first_seen_ts = tnow\<rparr>)
      in c1\<lparr>c_pending_runs :=
              AList.update rid (p\<lparr>pr_asset_keys := pr_asset_keys p @ [a]\<rparr>) (c_pending_runs c1)\<rparr>)"

definition in_progress_partition_keys :: "string \<Rightarrow> asset_cache \<Rightarrow> partition_key set" where
  "in_progress_partition_keys a c =
     (\<Union>(rid, pk) \<in> set (runs_of (c_in_progress c) a).
        case pk of Some k \<Rightarrow> canon ` set (members k) | None \<Rightarrow> {})"

definition clear_predispatch_mark :: "string \<Rightarrow> asset_cache \<Rightarrow> asset_cache" where
  "clear_predispatch_mark a c =
     (case map_of (c_in_progress c) a of
        Some [] \<Rightarrow> c\<lparr>c_in_progress := AList.delete a (c_in_progress c)\<rparr>
      | _ \<Rightarrow> c)"

definition clear_dispatched_run :: "string \<Rightarrow> string \<Rightarrow> asset_cache \<Rightarrow> asset_cache" where
  "clear_dispatched_run a rid c =
     (let c1 = untrack_in_progress_run a rid c
      in case map_of (c_pending_runs c1) rid of
           None \<Rightarrow> c1
         | Some p \<Rightarrow>
             (let ks = filter (\<lambda>k. k \<noteq> a) (pr_asset_keys p)
              in c1\<lparr>c_pending_runs :=
                      (if ks = [] then AList.delete rid (c_pending_runs c1)
                       else AList.update rid (p\<lparr>pr_asset_keys := ks\<rparr>) (c_pending_runs c1))\<rparr>))"

section \<open>Latest-run maps\<close>

definition set_slot :: "string \<Rightarrow> slot \<Rightarrow> 'v \<Rightarrow> 'v slot_map \<Rightarrow> 'v slot_map" where
  "set_slot a pk v m = m(a \<mapsto> (case m a of Some s \<Rightarrow> s | None \<Rightarrow> Map.empty)(pk \<mapsto> v))"

definition remove_slot :: "string \<Rightarrow> slot \<Rightarrow> 'v slot_map \<Rightarrow> 'v slot_map" where
  "remove_slot a pk m = (case m a of Some s \<Rightarrow> m(a \<mapsto> s(pk := None)) | None \<Rightarrow> m)"

definition slot_value :: "'v slot_map \<Rightarrow> string \<Rightarrow> slot \<Rightarrow> 'v option" where
  "slot_value m a pk = (case m a of Some s \<Rightarrow> s pk | None \<Rightarrow> None)"

definition update_last_run_maps ::
  "string \<Rightarrow> slot \<Rightarrow> int \<Rightarrow> run_tags \<Rightarrow> string list \<Rightarrow> asset_cache \<Rightarrow> asset_cache" where
  "update_last_run_maps a pk ts ktags names c =
     (if (case c_last_run_entry_ts c (a, pk) of Some old \<Rightarrow> ts < old | None \<Rightarrow> False) then c
      else c\<lparr>c_last_run_entry_ts := (c_last_run_entry_ts c)((a, pk) \<mapsto> ts),
             c_last_run_tags :=
               (if ktags = [] then remove_slot a pk (c_last_run_tags c)
                else set_slot a pk ktags (c_last_run_tags c)),
             c_last_run_names := set_slot a pk names (c_last_run_names c)\<rparr>)"

definition materialized_at :: "asset_cache \<Rightarrow> string \<Rightarrow> string \<Rightarrow> int option" where
  "materialized_at c rid name =
     (case c_records c name of
        Some r \<Rightarrow> if last_run_id r = Some rid then last_timestamp r else None
      | None \<Rightarrow> None)"

definition verb_run_names :: "asset_cache \<Rightarrow> string \<Rightarrow> string \<Rightarrow> string list \<Rightarrow> string list" where
  "verb_run_names c a rid names =
     filter (\<lambda>name. name = a \<or>
               (case (materialized_at c rid name, materialized_at c rid a) of
                  (Some ts, Some t) \<Rightarrow> ts > t | _ \<Rightarrow> False)) names"

definition update_tick_materialization_tags :: "string \<Rightarrow> slot \<Rightarrow> run_tags \<Rightarrow> asset_cache \<Rightarrow> asset_cache" where
  "update_tick_materialization_tags a pk ktags c =
     c\<lparr>c_tick_tags :=
         set_slot a pk ((case slot_value (c_tick_tags c) a pk of Some ts \<Rightarrow> ts | None \<Rightarrow> []) @ [ktags])
           (c_tick_tags c)\<rparr>"

definition run_partition_slots :: "bool \<Rightarrow> run_record \<Rightarrow> slot list" where
  "run_partition_slots partitioned r =
     (if \<not> partitioned then [None]
      else (case run_partition_key r of
              Some pk \<Rightarrow> map (Some \<circ> canon) (members pk) | None \<Rightarrow> [None]))"

section \<open>Dependency edges\<close>

definition push_at :: "string \<Rightarrow> string \<Rightarrow> (string \<rightharpoonup> string list) \<Rightarrow> (string \<rightharpoonup> string list)" where
  "push_at k v m = m(k \<mapsto> (case m k of Some vs \<Rightarrow> vs | None \<Rightarrow> []) @ [v])"

definition downs_of :: "(string \<times> string list) list \<Rightarrow> string \<Rightarrow> string list" where
  "downs_of m k = (case map_of m k of Some ds \<Rightarrow> ds | None \<Rightarrow> [])"

definition push_down :: "string \<Rightarrow> string \<Rightarrow> (string \<times> string list) list \<Rightarrow> (string \<times> string list) list" where
  "push_down k v m = AList.update k (downs_of m k @ [v]) m"

definition build_adjacency :: "asset_cache \<Rightarrow> asset_cache" where
  "build_adjacency c =
     c\<lparr>c_upstream := fold (\<lambda>(f, t). push_at f t) (c_edges c) Map.empty,
       c_downstream := fold (\<lambda>(f, t). push_down t f) (c_edges c) []\<rparr>"

text \<open>
  The two graph walks share the inner loop: every dependent that passes the filter and is new
  to the result is added to the result and to the work list. The time-based set is walked
  first in, first out; the downstream expansion pops the newest entry.
\<close>

fun push_new :: "(string \<Rightarrow> bool) \<Rightarrow> string list \<Rightarrow> string set \<Rightarrow> string set \<times> string list" where
  "push_new ok [] seen = (seen, [])"
| "push_new ok (d # ds) seen =
     (if ok d \<and> d \<notin> seen
      then (let (s, q) = push_new ok ds (insert d seen) in (s, d # q))
      else push_new ok ds seen)"

lemma push_new_result: "push_new ok ds seen = (s, q) \<Longrightarrow> s = seen \<union> {d \<in> set ds. ok d} \<and> s = seen \<union> set q"
proof (induction ds arbitrary: seen s q)
  case Nil
  then show ?case by simp
next
  case (Cons d ds)
  show ?case
  proof (cases "ok d \<and> d \<notin> seen")
    case True
    then obtain q' where "push_new ok ds (insert d seen) = (s, q')" "q = d # q'"
      using Cons.prems by (auto split: prod.splits)
    with Cons.IH[of "insert d seen" s q'] True show ?thesis by auto
  next
    case False
    then have "push_new ok ds seen = (s, q)" using Cons.prems by auto
    with Cons.IH[of seen s q] False show ?thesis by auto
  qed
qed

lemma push_new_fresh: "push_new ok ds seen = (s, q) \<Longrightarrow> set q \<subseteq> set ds - seen"
proof (induction ds arbitrary: seen s q)
  case (Cons d ds)
  show ?case
  proof (cases "ok d \<and> d \<notin> seen")
    case True
    then obtain q' where "push_new ok ds (insert d seen) = (s, q')" "q = d # q'"
      using Cons.prems by (auto split: prod.splits)
    with Cons.IH[of "insert d seen" s q'] True show ?thesis by auto
  next
    case False
    then have "push_new ok ds seen = (s, q)" using Cons.prems by auto
    with Cons.IH[of seen s q] show ?thesis by auto
  qed
qed simp

definition next_queue :: "bool \<Rightarrow> string list \<Rightarrow> string list \<Rightarrow> string list" where
  "next_queue fifo q rest = (if fifo then rest @ q else rev q @ rest)"

lemma set_next_queue [simp]: "set (next_queue fifo q rest) = set q \<union> set rest"
  by (auto simp: next_queue_def)

definition all_downs :: "(string \<times> string list) list \<Rightarrow> string set" where
  "all_downs m = (\<Union>(k, ds) \<in> set m. set ds)"

lemma downs_of_sub: "set (downs_of m k) \<subseteq> all_downs m"
proof (cases "map_of m k")
  case (Some ds)
  then have "(k, ds) \<in> set m" by (rule map_of_SomeD)
  with Some show ?thesis by (auto simp: downs_of_def all_downs_def)
qed (simp add: downs_of_def)

function walk :: "(string \<times> string list) list \<Rightarrow> (string \<Rightarrow> bool) \<Rightarrow> bool \<Rightarrow> string list \<Rightarrow> string set \<Rightarrow> string set" where
  "walk m ok fifo [] seen = seen"
| "walk m ok fifo (k # rest) seen =
     (case push_new ok (downs_of m k) seen of
        (s, q) \<Rightarrow> walk m ok fifo (next_queue fifo q rest) s)"
  by pat_completeness auto

lemma walk_measure:
  assumes "push_new ok (downs_of m k) seen = (s, q)"
  shows "card (all_downs m - s) < card (all_downs m - seen) \<or>
         card (all_downs m - s) = card (all_downs m - seen) \<and> length (next_queue fifo q rest) < Suc (length rest)"
proof (cases "q = []")
  case True
  then have "s = seen" using push_new_result[OF assms] by (metis list.set(1) sup_bot_right)
  then show ?thesis using True by (simp add: next_queue_def)
next
  case False
  then obtain d where d: "d \<in> set q" by (cases q) auto
  have sub: "set q \<subseteq> all_downs m - seen" using push_new_fresh[OF assms] downs_of_sub[of m k] by blast
  have fin: "finite (all_downs m)" by (auto simp: all_downs_def)
  have "all_downs m - s \<subset> all_downs m - seen"
    using push_new_result[OF assms] sub d by blast
  then show ?thesis using fin psubset_card_mono by blast
qed

termination walk
  by (relation "measures [\<lambda>(m, ok, fifo, queue, seen). card (all_downs m - seen), \<lambda>(m, ok, fifo, queue, seen). length queue]")
     (auto dest: walk_measure[OF sym])

definition compute_time_based_eval_set :: "(string \<times> condition_node) list \<Rightarrow> asset_cache \<Rightarrow> string set" where
  "compute_time_based_eval_set conds c =
     (let start = map fst (filter (\<lambda>(k, cond). has_time_based_conditions cond) conds)
      in walk (c_downstream c) (\<lambda>d. d \<in> fst ` set conds) True start (set start))"

definition expand_downstream :: "string list \<Rightarrow> asset_cache \<Rightarrow> string set" where
  "expand_downstream touched c = walk (c_downstream c) (\<lambda>d. True) False touched (set touched)"

section \<open>Plan phase: the delta of completed runs\<close>

record status_patch =
  sp_fresh_timestamps :: "(partition_key \<times> int) list"
  sp_in_progress :: "partition_key set"
  sp_failed :: "partition_key \<rightharpoonup> int"
  sp_deleted :: "partition_key set"
  sp_last_runs :: "partition_key \<rightharpoonup> string option"

datatype in_progress_change =
    Push string string "partition_key option"
  | ClearRun string string
  | AssetClear string

record failed_run =
  fr_ts :: int
  fr_run_id :: string
  fr_materialized :: bool

text \<open>Asset, slot, run, run timestamp, tags, asset names, whether an action run.\<close>

type_synonym last_run_update = "string \<times> slot \<times> string \<times> int \<times> run_tags \<times> string list \<times> bool"
type_synonym tick_tag_update = "string \<times> slot \<times> string \<times> run_tags"

record refresh_delta =
  d_changed :: bool
  d_clear_tick :: bool
  d_records :: "asset_record list"
  d_in_progress :: "in_progress_change list"
  d_failed_adds :: "(string \<times> failed_run) list"
  d_failed_removes :: "(string \<times> int) list"
  d_deletions :: "(string \<times> int) list"
  d_overrides :: "string \<rightharpoonup> string set"
  d_last_runs :: "last_run_update list"
  d_tick_tags :: "tick_tag_update list"
  d_partition_status :: "(string \<times> status_patch) list"
  d_action_checks :: "string \<rightharpoonup> partition_key set"
  d_reloads :: "string set"
  d_backfill :: "backfill_state option"
  d_last_seen :: "int option"
  d_last_observation :: "int option"
  d_track_actions :: "(string \<times> live_action_run) list"
  d_untrack_actions :: "string list"
  d_confirmed :: "string list"
  d_evicted :: "(string \<times> string list) list"
  d_applied :: "(string \<times> int) list"
  d_backfill_ended :: "string list"

definition empty_delta :: refresh_delta where
  "empty_delta =
     \<lparr>d_changed = False, d_clear_tick = False, d_records = [], d_in_progress = [], d_failed_adds = [],
      d_failed_removes = [], d_deletions = [], d_overrides = Map.empty, d_last_runs = [],
      d_tick_tags = [], d_partition_status = [], d_action_checks = Map.empty, d_reloads = {},
      d_backfill = None, d_last_seen = None, d_last_observation = None, d_track_actions = [],
      d_untrack_actions = [], d_confirmed = [], d_evicted = [], d_applied = [],
      d_backfill_ended = []\<rparr>"

definition clear_run :: "run_record \<Rightarrow> refresh_delta \<Rightarrow> refresh_delta" where
  "clear_run r d = d\<lparr>d_in_progress := d_in_progress d @ map (\<lambda>a. ClearRun a (run_id r)) (node_names r)\<rparr>"

definition queue_action_partition_checks ::
  "asset_cache \<Rightarrow> string list \<Rightarrow> partition_key option \<Rightarrow> refresh_delta \<Rightarrow> refresh_delta" where
  "queue_action_partition_checks c names pk d =
     (case pk of
        None \<Rightarrow> d
      | Some k \<Rightarrow>
          fold (\<lambda>a d. if is_partitioned c a
                      then d\<lparr>d_action_checks := (d_action_checks d)(a \<mapsto>
                               (case d_action_checks d a of Some s \<Rightarrow> s | None \<Rightarrow> {}) \<union> canon ` set (members k))\<rparr>
                      else d) names d)"

definition queue_slot :: "asset_cache \<Rightarrow> run_record \<Rightarrow> string \<Rightarrow> slot \<Rightarrow> refresh_delta \<Rightarrow> refresh_delta" where
  "queue_slot c r a pk d =
     (let d1 = d\<lparr>d_last_runs := d_last_runs d @
                   [(a, pk, run_id r, run_ts r, run_tag_list r, node_names r, is_action r)]\<rparr>
      in if c_needs_tick_tags c
         then d1\<lparr>d_tick_tags := d_tick_tags d1 @ [(a, pk, run_id r, run_tag_list r)]\<rparr> else d1)"

definition queue_last_run_updates :: "asset_cache \<Rightarrow> run_record \<Rightarrow> refresh_delta \<Rightarrow> refresh_delta" where
  "queue_last_run_updates c r d =
     fold (\<lambda>a. fold (queue_slot c r a) (run_partition_slots (is_partitioned c a) r)) (node_names r) d"

definition add_failed_run :: "string \<Rightarrow> run_record \<Rightarrow> (string \<times> failed_run) list \<Rightarrow> (string \<times> failed_run) list" where
  "add_failed_run a r m =
     (case map_of m a of
        Some e \<Rightarrow> (if run_ts r > fr_ts e
                  then AList.update a (e\<lparr>fr_run_id := run_id r, fr_ts := run_ts r\<rparr>) m else m)
      | None \<Rightarrow> AList.update a \<lparr>fr_ts = run_ts r, fr_run_id = run_id r, fr_materialized = False\<rparr> m)"

definition max_entry :: "string \<Rightarrow> int \<Rightarrow> (string \<times> int) list \<Rightarrow> (string \<times> int) list" where
  "max_entry a ts m = AList.update a (case map_of m a of Some t \<Rightarrow> max t ts | None \<Rightarrow> ts) m"

definition add_override :: "string \<Rightarrow> string \<Rightarrow> (string \<rightharpoonup> string set) \<Rightarrow> (string \<rightharpoonup> string set)" where
  "add_override a rid m = m(a \<mapsto> insert rid (case m a of Some s \<Rightarrow> s | None \<Rightarrow> {}))"

definition asset_run_effects :: "asset_cache \<Rightarrow> run_record \<Rightarrow> string \<Rightarrow> refresh_delta \<Rightarrow> refresh_delta" where
  "asset_run_effects c r a d =
     (let failure = (run_status r = Failure);
          d1 = (if run_partition_key r = None \<or> \<not> is_partitioned c a
                then (if failure then d\<lparr>d_failed_adds := add_failed_run a r (d_failed_adds d)\<rparr>
                      else d\<lparr>d_failed_removes := max_entry a (run_ts r) (d_failed_removes d)\<rparr>)
                else d)
      in if \<not> failure then d1\<lparr>d_overrides := add_override a (run_id r) (d_overrides d1)\<rparr> else d1)"

definition push_applied :: "run_record \<Rightarrow> refresh_delta \<Rightarrow> refresh_delta" where
  "push_applied r d = d\<lparr>d_applied := d_applied d @ [(run_id r, start_time r)]\<rparr>"

definition apply_run_effects_to_delta :: "asset_cache \<Rightarrow> run_record \<Rightarrow> refresh_delta \<Rightarrow> bool \<times> refresh_delta" where
  "apply_run_effects_to_delta c r d =
     (if is_action r
      then (if \<not> run_status_is_terminal (run_status r) then (False, d)
            else (True, queue_last_run_updates c r
                          (queue_action_partition_checks c (node_names r) (run_partition_key r)
                            (push_applied r d))))
      else if run_status r \<noteq> Success \<and> run_status r \<noteq> Failure then (False, d)
      else (True, queue_last_run_updates c r
                    (fold (asset_run_effects c r) (node_names r) (push_applied r d))))"

section \<open>Apply phase\<close>

definition run_materialized_asset :: "asset_cache \<Rightarrow> string \<Rightarrow> string \<Rightarrow> (string \<rightharpoonup> string set) \<Rightarrow> bool" where
  "run_materialized_asset c a rid ovr =
     (Option.bind (c_records c a) last_run_id = Some rid \<or>
      (case ovr a of Some runs \<Rightarrow> rid \<in> runs | None \<Rightarrow> False))"

definition run_materialized_slot ::
  "asset_cache \<Rightarrow> string \<Rightarrow> slot \<Rightarrow> string \<Rightarrow> (string \<rightharpoonup> string set) \<Rightarrow> (string \<times> status_patch) list \<Rightarrow> bool" where
  "run_materialized_slot c a pk rid ovr patches =
     (case Option.bind pk (\<lambda>k. Option.bind (map_of patches a) (\<lambda>p. sp_last_runs p k)) of
        Some row_run \<Rightarrow> row_run = Some rid \<or> (case ovr a of Some runs \<Rightarrow> rid \<in> runs | None \<Rightarrow> False)
      | None \<Rightarrow> run_materialized_asset c a rid ovr)"

definition apply_action_watch :: "refresh_delta \<Rightarrow> asset_cache \<Rightarrow> asset_cache" where
  "apply_action_watch d c =
     c\<lparr>c_live_actions :=
         fold AList.delete (d_untrack_actions d)
           (fold (\<lambda>(rid, l). AList.update rid l) (d_track_actions d) (c_live_actions c))\<rparr>"

definition apply_records :: "refresh_delta \<Rightarrow> asset_cache \<Rightarrow> asset_cache" where
  "apply_records d c =
     (let c1 = (if d_clear_tick d then c\<lparr>c_tick_tags := Map.empty\<rparr> else c)
      in c1\<lparr>c_records := fold (\<lambda>r m. m(asset_key r \<mapsto> r)) (d_records d) (c_records c1)\<rparr>)"

fun apply_change :: "in_progress_change \<Rightarrow> asset_cache \<Rightarrow> asset_cache" where
  "apply_change (Push a rid pk) c = track_in_progress_run a rid pk c"
| "apply_change (ClearRun a rid) c = untrack_in_progress_run a rid c"
| "apply_change (AssetClear a) c = c\<lparr>c_in_progress := AList.delete a (c_in_progress c)\<rparr>"

definition clear_floor :: "string \<Rightarrow> asset_cache \<Rightarrow> asset_cache" where
  "clear_floor a c = c\<lparr>c_failed := c_failed c - {a}, c_failed_ts := (c_failed_ts c)(a := None)\<rparr>"

definition apply_failed_add :: "(string \<rightharpoonup> string set) \<Rightarrow> string \<times> failed_run \<Rightarrow> asset_cache \<Rightarrow> asset_cache" where
  "apply_failed_add ovr e c =
     (case e of (a, f) \<Rightarrow>
        if fr_materialized f \<or> run_materialized_asset c a (fr_run_id f) ovr
        then (if (case c_failed_ts c a of Some t \<Rightarrow> fr_ts f \<ge> t | None \<Rightarrow> True)
              then clear_floor a c else c)
        else c\<lparr>c_failed := insert a (c_failed c),
               c_failed_ts := (c_failed_ts c)(a \<mapsto>
                 (case c_failed_ts c a of Some t \<Rightarrow> max t (fr_ts f) | None \<Rightarrow> fr_ts f))\<rparr>)"

definition apply_failed_remove :: "string \<times> int \<Rightarrow> asset_cache \<Rightarrow> asset_cache" where
  "apply_failed_remove e c =
     (case e of (a, ts) \<Rightarrow>
        if (case c_failed_ts c a of Some f \<Rightarrow> ts < f | None \<Rightarrow> False) then c else clear_floor a c)"

definition apply_last_run ::
  "(string \<rightharpoonup> string set) \<Rightarrow> (string \<times> status_patch) list \<Rightarrow> last_run_update \<Rightarrow> asset_cache \<Rightarrow> asset_cache" where
  "apply_last_run ovr patches u c =
     (case u of (a, pk, rid, ts, ktags, names, verb) \<Rightarrow>
        if run_materialized_slot c a pk rid ovr patches
        then update_last_run_maps a pk ts ktags
               (if verb then verb_run_names c a rid names else names) c
        else c)"

definition stale_slot :: "asset_cache \<Rightarrow> string \<Rightarrow> int \<Rightarrow> slot \<Rightarrow> bool" where
  "stale_slot c a del pk = (case c_last_run_entry_ts c (a, pk) of Some ts \<Rightarrow> ts \<le> del | None \<Rightarrow> False)"

definition drop_slots :: "string \<Rightarrow> (slot \<Rightarrow> bool) \<Rightarrow> 'v slot_map \<Rightarrow> 'v slot_map" where
  "drop_slots a stale m =
     (case m a of Some s \<Rightarrow> m(a \<mapsto> (\<lambda>pk. if stale pk then None else s pk)) | None \<Rightarrow> m)"

definition apply_deletion :: "string \<times> int \<Rightarrow> asset_cache \<Rightarrow> asset_cache" where
  "apply_deletion e c =
     (case e of (a, del) \<Rightarrow>
        c\<lparr>c_deletion_ts := (c_deletion_ts c)(a \<mapsto>
             (case c_deletion_ts c a of Some t \<Rightarrow> max t del | None \<Rightarrow> del)),
          c_last_run_entry_ts :=
             (\<lambda>(b, pk). if b = a \<and> stale_slot c a del pk then None else c_last_run_entry_ts c (b, pk)),
          c_last_run_tags := drop_slots a (stale_slot c a del) (c_last_run_tags c),
          c_last_run_names := drop_slots a (stale_slot c a del) (c_last_run_names c)\<rparr>)"

definition apply_tick_tag ::
  "(string \<rightharpoonup> string set) \<Rightarrow> (string \<times> status_patch) list \<Rightarrow> tick_tag_update \<Rightarrow> asset_cache \<Rightarrow> asset_cache" where
  "apply_tick_tag ovr patches u c =
     (case u of (a, pk, rid, ktags) \<Rightarrow>
        if run_materialized_slot c a pk rid ovr patches
        then update_tick_materialization_tags a pk ktags c else c)"

definition patch_status :: "status_patch \<Rightarrow> partition_status \<Rightarrow> partition_status" where
  "patch_status p e =
     (let ts = fold (\<lambda>(k, t) m. m(k \<mapsto> t)) (sp_fresh_timestamps p) (ps_timestamps e);
          ts' = (\<lambda>k. if k \<in> sp_deleted p then None else ts k);
          failed_ts = (\<lambda>k. case sp_failed p k of
                             None \<Rightarrow> None
                           | Some f \<Rightarrow> (if k \<notin> sp_deleted p \<and> (case ts' k of Some mat \<Rightarrow> f > mat | None \<Rightarrow> True)
                                        then Some f else None))
      in e\<lparr>ps_timestamps := ts', ps_in_progress := sp_in_progress p,
           ps_failed_timestamps := failed_ts, ps_failed := dom failed_ts\<rparr>)"

definition apply_patch :: "string \<times> status_patch \<Rightarrow> asset_cache \<Rightarrow> asset_cache" where
  "apply_patch e c =
     (case e of (a, p) \<Rightarrow>
        c\<lparr>c_partition_status := (c_partition_status c)(a \<mapsto>
             patch_status p (case c_partition_status c a of Some s \<Rightarrow> s | None \<Rightarrow> empty_partition_status))\<rparr>)"

definition apply_backfill :: "refresh_delta \<Rightarrow> asset_cache \<Rightarrow> asset_cache" where
  "apply_backfill d c =
     fold clear_predispatch_mark (d_backfill_ended d)
       (case d_backfill d of Some bf \<Rightarrow> c\<lparr>c_backfill := bf\<rparr> | None \<Rightarrow> c)"

definition apply_cursors :: "refresh_delta \<Rightarrow> asset_cache \<Rightarrow> asset_cache" where
  "apply_cursors d c =
     (let applied = fold (\<lambda>(rid, st) m. m(rid \<mapsto> st)) (d_applied d) (c_applied_runs c);
          cursor = (case d_last_seen d of Some ts \<Rightarrow> ts | None \<Rightarrow> c_last_seen_run_ts c)
      in c\<lparr>c_last_seen_run_ts := cursor,
           c_applied_runs := (\<lambda>rid. case applied rid of
                                      Some st \<Rightarrow> (if st > cursor then Some st else None) | None \<Rightarrow> None),
           c_last_observation_ts :=
             (case d_last_observation d of Some ts \<Rightarrow> ts | None \<Rightarrow> c_last_observation_ts c)\<rparr>)"

definition evict_pending :: "string \<times> string list \<Rightarrow> asset_cache \<Rightarrow> asset_cache" where
  "evict_pending e c =
     (case e of (rid, ks) \<Rightarrow>
        fold (\<lambda>a. untrack_in_progress_run a rid) ks
          (c\<lparr>c_pending_runs := AList.delete rid (c_pending_runs c)\<rparr>))"

definition apply_pending :: "refresh_delta \<Rightarrow> asset_cache \<Rightarrow> asset_cache" where
  "apply_pending d c =
     fold evict_pending (d_evicted d)
       (c\<lparr>c_pending_runs := fold AList.delete (d_confirmed d) (c_pending_runs c)\<rparr>)"

definition apply_failures :: "refresh_delta \<Rightarrow> asset_cache \<Rightarrow> asset_cache" where
  "apply_failures d c =
     fold apply_failed_remove (d_failed_removes d)
       (fold (apply_failed_add (d_overrides d)) (d_failed_adds d) c)"

definition apply_run_maps :: "refresh_delta \<Rightarrow> asset_cache \<Rightarrow> asset_cache" where
  "apply_run_maps d c =
     fold (apply_tick_tag (d_overrides d) (d_partition_status d)) (d_tick_tags d)
       (fold apply_deletion (d_deletions d)
         (fold (apply_last_run (d_overrides d) (d_partition_status d)) (d_last_runs d) c))"

definition apply_refresh_delta :: "refresh_delta \<Rightarrow> asset_cache \<Rightarrow> asset_cache \<times> bool" where
  "apply_refresh_delta d c =
     (apply_pending d (apply_cursors d (apply_backfill d
        (fold apply_patch (d_partition_status d)
          (apply_run_maps d (apply_failures d
            (fold apply_change (d_in_progress d)
              (apply_records d (apply_action_watch d c)))))))), d_changed d)"

section \<open>The invariant of the cache\<close>

text \<open>
  The failed set is the domain of the failure floors, per asset and per partition; a failed
  partition has no materialization as new as its failure; the applied runs are those above the
  cursor; the latest-run maps have names exactly where they have a run timestamp, and never
  hold an empty tag list; the run tracking has one entry per asset and run.
\<close>

definition status_ok :: "partition_status \<Rightarrow> bool" where
  "status_ok e \<longleftrightarrow>
     ps_failed e = dom (ps_failed_timestamps e) \<and>
     (\<forall>k f mat. ps_failed_timestamps e k = Some f \<longrightarrow> ps_timestamps e k = Some mat \<longrightarrow> mat < f)"

definition floors_ok :: "asset_cache \<Rightarrow> bool" where
  "floors_ok c \<longleftrightarrow> c_failed c = dom (c_failed_ts c)"

definition statuses_ok :: "asset_cache \<Rightarrow> bool" where
  "statuses_ok c \<longleftrightarrow> (\<forall>a e. c_partition_status c a = Some e \<longrightarrow> status_ok e)"

definition cursor_ok :: "asset_cache \<Rightarrow> bool" where
  "cursor_ok c \<longleftrightarrow> (\<forall>rid st. c_applied_runs c rid = Some st \<longrightarrow> c_last_seen_run_ts c < st)"

definition slots_ok :: "asset_cache \<Rightarrow> bool" where
  "slots_ok c \<longleftrightarrow>
     (\<forall>a pk. slot_value (c_last_run_names c) a pk = None \<longleftrightarrow> c_last_run_entry_ts c (a, pk) = None) \<and>
     (\<forall>a pk ts. slot_value (c_last_run_tags c) a pk = Some ts \<longrightarrow>
        ts \<noteq> [] \<and> c_last_run_entry_ts c (a, pk) \<noteq> None)"

definition tracking_ok :: "(string \<times> run_map) list \<Rightarrow> bool" where
  "tracking_ok ip \<longleftrightarrow> distinct (map fst ip) \<and> (\<forall>(a, rs) \<in> set ip. distinct (map fst rs))"

definition cache_ok :: "asset_cache \<Rightarrow> bool" where
  "cache_ok c \<longleftrightarrow> floors_ok c \<and> statuses_ok c \<and> cursor_ok c \<and> slots_ok c \<and>
     tracking_ok (c_in_progress c) \<and> distinct (map fst (c_pending_runs c))"

lemma fold_keeps: "(\<And>x s. P s \<Longrightarrow> P (f x s)) \<Longrightarrow> P s \<Longrightarrow> P (fold f xs s)"
  by (induction xs arbitrary: s) auto

lemma fold_frame: "(\<And>x s. f (g x s) = f s) \<Longrightarrow> f (fold g xs s) = f s"
  by (induction xs arbitrary: s) auto

lemma slot_value_set_slot [simp]:
  "slot_value (set_slot a pk v m) b k = (if b = a \<and> k = pk then Some v else slot_value m b k)"
  by (auto simp: slot_value_def set_slot_def split: option.splits)

lemma slot_value_remove_slot [simp]:
  "slot_value (remove_slot a pk m) b k = (if b = a \<and> k = pk then None else slot_value m b k)"
  by (auto simp: slot_value_def remove_slot_def split: option.splits)

lemma slot_value_drop_slots [simp]:
  "slot_value (drop_slots a stale m) b k = (if b = a \<and> stale k then None else slot_value m b k)"
  by (auto simp: slot_value_def drop_slots_def split: option.splits)

lemma tracking_runs: "tracking_ok ip \<Longrightarrow> distinct (map fst (runs_of ip a))"
  by (auto simp: tracking_ok_def runs_of_def dest: map_of_SomeD split: option.split)

lemma tracking_update:
  assumes "tracking_ok ip" and "distinct (map fst rs)"
  shows "tracking_ok (AList.update a rs ip)"
proof -
  have "set (AList.update a rs ip) \<subseteq> insert (a, rs) (set ip)"
    by (induction ip) auto
  then show ?thesis using assms unfolding tracking_ok_def
    by (auto simp: distinct_update)
qed

lemma tracking_delete: "tracking_ok ip \<Longrightarrow> tracking_ok (AList.delete a ip)"
  by (auto simp: tracking_ok_def AList.delete_eq distinct_map_filter)

lemma track_run_ok: "tracking_ok ip \<Longrightarrow> tracking_ok (track_run a rid pk ip)"
  by (simp add: track_run_def tracking_update tracking_runs distinct_update)

lemma untrack_run_ok: "tracking_ok ip \<Longrightarrow> tracking_ok (untrack_run a rid ip)"
  using tracking_runs[of ip a]
  by (auto simp: untrack_run_def runs_of_def Let_def tracking_update tracking_delete distinct_delete
      split: option.splits)

lemmas cache_ok_defs = cache_ok_def floors_ok_def statuses_ok_def cursor_ok_def slots_ok_def

lemma apply_change_ok: "cache_ok c \<Longrightarrow> cache_ok (apply_change ch c)"
  by (cases ch)
     (simp_all add: cache_ok_defs track_in_progress_run_def untrack_in_progress_run_def
        track_run_ok untrack_run_ok tracking_delete)

lemma clear_floor_ok: "cache_ok c \<Longrightarrow> cache_ok (clear_floor a c)"
  by (simp add: cache_ok_defs clear_floor_def)

lemma apply_failed_add_ok: "cache_ok c \<Longrightarrow> cache_ok (apply_failed_add ovr e c)"
  by (cases e) (auto simp: apply_failed_add_def clear_floor_ok, auto simp: cache_ok_defs)

lemma apply_failed_remove_ok: "cache_ok c \<Longrightarrow> cache_ok (apply_failed_remove e c)"
  by (cases e) (auto simp: apply_failed_remove_def clear_floor_ok)

lemma update_last_run_maps_ok: "cache_ok c \<Longrightarrow> cache_ok (update_last_run_maps a pk ts ktags names c)"
  by (auto simp: cache_ok_defs update_last_run_maps_def)

lemma apply_last_run_ok: "cache_ok c \<Longrightarrow> cache_ok (apply_last_run ovr patches u c)"
  by (cases u) (auto simp: apply_last_run_def update_last_run_maps_ok)

lemma apply_deletion_ok: "cache_ok c \<Longrightarrow> cache_ok (apply_deletion e c)"
  by (cases e) (auto simp: cache_ok_defs apply_deletion_def)

lemma apply_tick_tag_ok: "cache_ok c \<Longrightarrow> cache_ok (apply_tick_tag ovr patches u c)"
  by (cases u) (auto simp: cache_ok_defs apply_tick_tag_def update_tick_materialization_tags_def)

lemma patch_status_ok: "status_ok (patch_status p e)"
  by (auto simp: status_ok_def patch_status_def Let_def split: option.splits if_splits)

lemma apply_patch_ok: "cache_ok c \<Longrightarrow> cache_ok (apply_patch e c)"
  by (cases e) (auto simp: cache_ok_defs apply_patch_def patch_status_ok)

lemma clear_predispatch_ok: "cache_ok c \<Longrightarrow> cache_ok (clear_predispatch_mark a c)"
  by (auto simp: cache_ok_defs clear_predispatch_mark_def tracking_delete split: option.split list.split)

lemma apply_cursors_ok: "cache_ok c \<Longrightarrow> cache_ok (apply_cursors d c)"
  by (auto simp: cache_ok_defs apply_cursors_def Let_def split: option.splits if_splits)

lemma untrack_ok: "cache_ok c \<Longrightarrow> cache_ok (untrack_in_progress_run a rid c)"
  by (simp add: cache_ok_defs untrack_in_progress_run_def untrack_run_ok)

lemma evict_pending_ok: "cache_ok c \<Longrightarrow> cache_ok (evict_pending e c)"
  unfolding evict_pending_def
proof (split prod.split, intro allI impI)
  fix rid ks
  assume "cache_ok c"
  then have "cache_ok (c\<lparr>c_pending_runs := AList.delete rid (c_pending_runs c)\<rparr>)"
    by (simp add: cache_ok_defs distinct_delete)
  then show "cache_ok (fold (\<lambda>a. untrack_in_progress_run a rid) ks
               (c\<lparr>c_pending_runs := AList.delete rid (c_pending_runs c)\<rparr>))"
    by (rule fold_keeps[rotated]) (rule untrack_ok)
qed

lemma apply_pending_ok: "cache_ok c \<Longrightarrow> cache_ok (apply_pending d c)"
  unfolding apply_pending_def
  by (rule fold_keeps[where P = cache_ok], erule evict_pending_ok)
     (auto simp: cache_ok_defs intro!: fold_keeps[where P = "\<lambda>m. distinct (map fst m)"] distinct_delete)

lemma apply_backfill_ok: "cache_ok c \<Longrightarrow> cache_ok (apply_backfill d c)"
  unfolding apply_backfill_def
  by (rule fold_keeps[where P = cache_ok], erule clear_predispatch_ok)
     (auto simp: cache_ok_defs split: option.split)

lemma apply_failures_ok: "cache_ok c \<Longrightarrow> cache_ok (apply_failures d c)"
  unfolding apply_failures_def
  by (intro fold_keeps[where P = cache_ok] apply_failed_add_ok apply_failed_remove_ok)

lemma apply_run_maps_ok: "cache_ok c \<Longrightarrow> cache_ok (apply_run_maps d c)"
  unfolding apply_run_maps_def
  by (intro fold_keeps[where P = cache_ok] apply_tick_tag_ok apply_deletion_ok apply_last_run_ok)

lemma apply_records_ok: "cache_ok c \<Longrightarrow> cache_ok (apply_records d c)"
  by (simp add: cache_ok_defs apply_records_def Let_def)

lemma apply_action_watch_ok: "cache_ok c \<Longrightarrow> cache_ok (apply_action_watch d c)"
  by (simp add: cache_ok_defs apply_action_watch_def)

text \<open>
  C17: Applying any refresh delta keeps the invariant of the cache: the failed set stays the domain
  of the failure floors, for assets and for partitions; no partition stays failed that was
  materialized at or after its failure; only runs above the cursor stay remembered as applied;
  the latest-run maps stay aligned and never store an empty tag list; the tracking of runs in
  flight has one entry per asset and run.
\<close>

theorem apply_refresh_keeps_ok:
  assumes "cache_ok c"
  shows "cache_ok (fst (apply_refresh_delta d c))"
  unfolding apply_refresh_delta_def fst_conv
  by (intro apply_pending_ok apply_cursors_ok apply_backfill_ok apply_run_maps_ok apply_failures_ok
      apply_records_ok apply_action_watch_ok fold_keeps[where P = cache_ok] apply_patch_ok
      apply_change_ok assms)

definition sample_delta :: refresh_delta where
  "sample_delta = empty_delta\<lparr>d_failed_adds := [(''a'', \<lparr>fr_ts = 7, fr_run_id = ''r1'', fr_materialized = False\<rparr>)],
     d_in_progress := [Push ''b'' ''r2'' None], d_applied := [(''r1'', 5)], d_last_seen := Some 4\<rparr>"

theorem apply_refresh_keeps_ok_witness:
  "cache_ok new_cache \<and> cache_ok (fst (apply_refresh_delta sample_delta new_cache)) \<and>
   c_failed_ts (fst (apply_refresh_delta sample_delta new_cache)) ''a'' = Some 7"
proof -
  have "cache_ok new_cache"
    by (simp add: cache_ok_defs new_cache_def tracking_ok_def slot_value_def)
  then show ?thesis
    using apply_refresh_keeps_ok[of new_cache sample_delta]
    by (simp add: apply_refresh_delta_def sample_delta_def empty_delta_def new_cache_def
        apply_pending_def apply_cursors_def apply_backfill_def apply_run_maps_def apply_failures_def
        apply_records_def apply_action_watch_def apply_failed_add_def run_materialized_asset_def
        track_in_progress_run_def)
qed

section \<open>Graph walks\<close>

definition ok_edges :: "(string \<times> string list) list \<Rightarrow> (string \<Rightarrow> bool) \<Rightarrow> (string \<times> string) set" where
  "ok_edges m ok = {(k, d). d \<in> set (downs_of m k) \<and> ok d}"

lemma walk_reach:
  assumes "set queue \<subseteq> seen" and "\<forall>k \<in> seen - set queue. \<forall>d \<in> set (downs_of m k). ok d \<longrightarrow> d \<in> seen"
  shows "walk m ok fifo queue seen = (ok_edges m ok)\<^sup>* `` seen"
  using assms
proof (induction m ok fifo queue seen rule: walk.induct)
  case (1 m ok fifo seen)
  then have "ok_edges m ok `` seen \<subseteq> seen" by (auto simp: ok_edges_def)
  then show ?case by (simp add: Image_closed_trancl)
next
  case (2 m ok fifo k rest seen)
  obtain s q where sq: "push_new ok (downs_of m k) seen = (s, q)" by fastforce
  have s: "s = seen \<union> {d \<in> set (downs_of m k). ok d}" "s = seen \<union> set q"
    using push_new_result[OF sq] by blast+
  have "walk m ok fifo (next_queue fifo q rest) s = (ok_edges m ok)\<^sup>* `` s"
  proof (rule "2.IH"[OF sq[symmetric]])
    have sub: "seen \<subseteq> s" "s \<subseteq> seen \<union> set q" and new: "\<And>d. d \<in> set (downs_of m k) \<Longrightarrow> ok d \<Longrightarrow> d \<in> s"
      using s by blast+
    show "set (next_queue fifo q rest) \<subseteq> s" using "2.prems"(1) s(2) by auto
    show "\<forall>k' \<in> s - set (next_queue fifo q rest). \<forall>d \<in> set (downs_of m k'). ok d \<longrightarrow> d \<in> s"
    proof (intro ballI impI)
      fix k' d
      assume k': "k' \<in> s - set (next_queue fifo q rest)" and d: "d \<in> set (downs_of m k')" "ok d"
      then have "k' \<in> seen" "k' \<notin> set rest" using sub(2) by auto
      show "d \<in> s"
      proof (cases "k' = k")
        case True
        then show ?thesis using d by (intro new) simp_all
      next
        case False
        then have "k' \<in> seen - set (k # rest)" using \<open>k' \<in> seen\<close> \<open>k' \<notin> set rest\<close> by simp
        then show ?thesis using "2.prems"(2) d sub(1) by blast
      qed
    qed
  qed
  moreover have "(ok_edges m ok)\<^sup>* `` s = (ok_edges m ok)\<^sup>* `` seen"
  proof -
    have "s \<subseteq> (ok_edges m ok)\<^sup>* `` seen" using s(1) "2.prems"(1) by (auto simp: ok_edges_def)
    then have "(ok_edges m ok)\<^sup>* `` s \<subseteq> (ok_edges m ok)\<^sup>* `` seen"
      by (blast intro: rtrancl_trans)
    then show ?thesis using s(1) by blast
  qed
  ultimately show ?case by (simp add: sq)
qed

lemma downs_of_push_down [simp]:
  "downs_of (push_down k v m) a = (if a = k then downs_of m k @ [v] else downs_of m a)"
  by (auto simp: push_down_def downs_of_def update_conv' split: option.splits)

lemma downs_of_edges:
  "downs_of (fold (\<lambda>(f, t). push_down t f) es m) k = downs_of m k @ map fst (filter (\<lambda>(f, t). t = k) es)"
  by (induction es arbitrary: m) auto

text \<open>The step from an asset to a conditioned asset that depends on it.\<close>

definition triggers :: "(string \<times> string) list \<Rightarrow> string set \<Rightarrow> (string \<times> string) set" where
  "triggers es conditioned = {(t, f). (f, t) \<in> set es \<and> f \<in> conditioned}"

lemma ok_edges_build [simp]:
  "ok_edges (c_downstream (build_adjacency c)) ok = {(t, f). (f, t) \<in> set (c_edges c) \<and> ok f}"
  by (force simp: ok_edges_def build_adjacency_def downs_of_edges downs_of_def[of "[]"])

text \<open>
  C28: The set of assets that a selective tick evaluates is exact, and its computation ends on
  every graph, cyclic ones included: an asset is in it exactly when it can be reached from an
  asset with a time-based condition along dependency edges through conditioned assets.
\<close>

theorem time_based_eval_set_exact:
  "compute_time_based_eval_set conds (build_adjacency c) =
     {a. \<exists>k cond. (k, cond) \<in> set conds \<and> has_time_based_conditions cond \<and>
           (k, a) \<in> (triggers (c_edges c) (fst ` set conds))\<^sup>*}"
proof -
  define start where "start = map fst (filter (\<lambda>(k, cond). has_time_based_conditions cond) conds)"
  have "compute_time_based_eval_set conds (build_adjacency c) =
          (triggers (c_edges c) (fst ` set conds))\<^sup>* `` set start"
    unfolding compute_time_based_eval_set_def Let_def start_def[symmetric]
    by (subst walk_reach) (auto simp: triggers_def)
  also have "set start = {k. \<exists>cond. (k, cond) \<in> set conds \<and> has_time_based_conditions cond}"
    by (force simp: start_def simp del: has_time_based_conditions.simps)
  finally show ?thesis by blast
qed

end
