(* ===== verification/Cache_Floors.thy ===== *)
theory Cache_Floors
  imports Condition_Cache
begin

text \<open>
  The failure floors a refresh leaves, from the completed runs it reads: the plan phase folds
  each run into the delta, the apply phase merges the delta into the cache. The lemmas follow one
  asset through both phases and compare the result with the newest failure and the newest
  success.
\<close>

definition plan_runs :: "asset_cache \<Rightarrow> run_record list \<Rightarrow> refresh_delta \<Rightarrow> refresh_delta" where
  "plan_runs c runs d = fold (\<lambda>r d. snd (apply_run_effects_to_delta c r d)) runs d"

definition reaches_floor :: "asset_cache \<Rightarrow> run_record \<Rightarrow> string \<Rightarrow> bool" where
  "reaches_floor c r a \<longleftrightarrow> \<not> is_action r \<and> a \<in> set (node_names r) \<and>
     (run_partition_key r = None \<or> \<not> is_partitioned c a)"

definition fails :: "asset_cache \<Rightarrow> string \<Rightarrow> run_record \<Rightarrow> bool" where
  "fails c a r \<longleftrightarrow> reaches_floor c r a \<and> run_status r = Failure"

definition succeeds :: "asset_cache \<Rightarrow> string \<Rightarrow> run_record \<Rightarrow> bool" where
  "succeeds c a r \<longleftrightarrow> reaches_floor c r a \<and> run_status r = Success"

section \<open>One asset of the delta\<close>

fun note_failure :: "run_record \<Rightarrow> failed_run option \<Rightarrow> failed_run option" where
  "note_failure r None = Some \<lparr>fr_ts = run_ts r, fr_run_id = run_id r, fr_materialized = False\<rparr>"
| "note_failure r (Some e) =
     Some (if run_ts r > fr_ts e then e\<lparr>fr_run_id := run_id r, fr_ts := run_ts r\<rparr> else e)"

fun note_success :: "run_record \<Rightarrow> int option \<Rightarrow> int option" where
  "note_success r None = Some (run_ts r)"
| "note_success r (Some t) = Some (max t (run_ts r))"

lemma note_failure_idem [simp]: "note_failure r (note_failure r x) = note_failure r x"
  by (cases x) auto

lemma note_success_idem [simp]: "note_success r (note_success r x) = note_success r x"
  by (cases x) auto

lemma map_of_add_failed_run:
  "map_of (add_failed_run b r m) a = (if a = b then note_failure r (map_of m a) else map_of m a)"
  by (auto simp: add_failed_run_def update_conv' split: option.splits)

lemma map_of_max_entry:
  "map_of (max_entry b (run_ts r) m) a = (if a = b then note_success r (map_of m a) else map_of m a)"
  by (auto simp: max_entry_def update_conv' split: option.splits)

lemma failed_adds_asset:
  "map_of (d_failed_adds (asset_run_effects c r b d)) a =
     (if a = b \<and> run_status r = Failure \<and> (run_partition_key r = None \<or> \<not> is_partitioned c a)
      then note_failure r (map_of (d_failed_adds d) a) else map_of (d_failed_adds d) a)"
  by (auto simp: asset_run_effects_def Let_def map_of_add_failed_run)

lemma failed_removes_asset:
  "map_of (d_failed_removes (asset_run_effects c r b d)) a =
     (if a = b \<and> run_status r \<noteq> Failure \<and> (run_partition_key r = None \<or> \<not> is_partitioned c a)
      then note_success r (map_of (d_failed_removes d) a) else map_of (d_failed_removes d) a)"
  by (auto simp: asset_run_effects_def Let_def map_of_max_entry)

lemma failed_adds_assets:
  "map_of (d_failed_adds (fold (asset_run_effects c r) names d)) a =
     (if a \<in> set names \<and> run_status r = Failure \<and> (run_partition_key r = None \<or> \<not> is_partitioned c a)
      then note_failure r (map_of (d_failed_adds d) a) else map_of (d_failed_adds d) a)"
  by (induction names arbitrary: d) (auto simp: failed_adds_asset)

lemma failed_removes_assets:
  "map_of (d_failed_removes (fold (asset_run_effects c r) names d)) a =
     (if a \<in> set names \<and> run_status r \<noteq> Failure \<and> (run_partition_key r = None \<or> \<not> is_partitioned c a)
      then note_success r (map_of (d_failed_removes d) a) else map_of (d_failed_removes d) a)"
  by (induction names arbitrary: d) (auto simp: failed_removes_asset)

lemma queue_frame [simp]:
  "d_failed_adds (queue_last_run_updates c r d) = d_failed_adds d"
  "d_failed_removes (queue_last_run_updates c r d) = d_failed_removes d"
  "d_overrides (queue_last_run_updates c r d) = d_overrides d"
  "d_records (queue_last_run_updates c r d) = d_records d"
  by (simp_all add: queue_last_run_updates_def queue_slot_def Let_def fold_frame)

lemma checks_frame [simp]:
  "d_failed_adds (queue_action_partition_checks c ns pk d) = d_failed_adds d"
  "d_failed_removes (queue_action_partition_checks c ns pk d) = d_failed_removes d"
  "d_overrides (queue_action_partition_checks c ns pk d) = d_overrides d"
  "d_records (queue_action_partition_checks c ns pk d) = d_records d"
  by (cases pk; simp add: queue_action_partition_checks_def fold_frame)+

lemma push_applied_frame [simp]:
  "d_failed_adds (push_applied r d) = d_failed_adds d"
  "d_failed_removes (push_applied r d) = d_failed_removes d"
  "d_overrides (push_applied r d) = d_overrides d"
  "d_records (push_applied r d) = d_records d"
  by (simp_all add: push_applied_def)

lemma effects_records [simp]: "d_records (fold (asset_run_effects c r) names d) = d_records d"
  by (rule fold_frame) (simp add: asset_run_effects_def Let_def)

lemma failed_adds_run:
  "map_of (d_failed_adds (snd (apply_run_effects_to_delta c r d))) a =
     (if fails c a r then note_failure r (map_of (d_failed_adds d) a) else map_of (d_failed_adds d) a)"
  by (auto simp: apply_run_effects_to_delta_def fails_def reaches_floor_def failed_adds_assets)

lemma failed_removes_run:
  "map_of (d_failed_removes (snd (apply_run_effects_to_delta c r d))) a =
     (if succeeds c a r then note_success r (map_of (d_failed_removes d) a)
      else map_of (d_failed_removes d) a)"
  by (auto simp: apply_run_effects_to_delta_def succeeds_def reaches_floor_def failed_removes_assets)

lemma records_run [simp]: "d_records (snd (apply_run_effects_to_delta c r d)) = d_records d"
  by (auto simp: apply_run_effects_to_delta_def)

lemma failed_adds_plan:
  "map_of (d_failed_adds (plan_runs c runs d)) a =
     fold note_failure (filter (fails c a) runs) (map_of (d_failed_adds d) a)"
  by (induction runs arbitrary: d) (auto simp: plan_runs_def failed_adds_run)

lemma failed_removes_plan:
  "map_of (d_failed_removes (plan_runs c runs d)) a =
     fold note_success (filter (succeeds c a) runs) (map_of (d_failed_removes d) a)"
  by (induction runs arbitrary: d) (auto simp: plan_runs_def failed_removes_run)

lemma records_plan [simp]: "d_records (plan_runs c runs d) = d_records d"
  unfolding plan_runs_def by (rule fold_frame) simp

section \<open>Newest failure and newest success\<close>

lemma fold_note_failure_Some:
  "\<exists>f. fold note_failure rs (Some e) = Some f \<and> fr_ts f = Max (insert (fr_ts e) (run_ts ` set rs)) \<and>
       fr_materialized f = fr_materialized e \<and> fr_run_id f \<in> insert (fr_run_id e) (run_id ` set rs)"
proof (induction rs arbitrary: e)
  case Nil
  then show ?case by simp
next
  case (Cons r rs)
  define e' where "e' = (if run_ts r > fr_ts e then e\<lparr>fr_run_id := run_id r, fr_ts := run_ts r\<rparr> else e)"
  obtain f where f: "fold note_failure rs (Some e') = Some f"
      "fr_ts f = Max (insert (fr_ts e') (run_ts ` set rs))" "fr_materialized f = fr_materialized e'"
      "fr_run_id f \<in> insert (fr_run_id e') (run_id ` set rs)"
    using Cons.IH[of e'] by blast
  have "fr_ts e' = max (fr_ts e) (run_ts r)" by (auto simp: e'_def)
  then have "fr_ts f = Max (insert (fr_ts e) (run_ts ` set (r # rs)))"
    using f(2) by (cases "rs = []") (simp_all add: max.assoc max.commute max.left_commute)
  moreover have "fold note_failure (r # rs) (Some e) = Some f" using f(1) by (simp add: e'_def)
  ultimately show ?case using f(3,4) by (auto simp: e'_def split: if_splits)
qed

lemma fold_note_failure:
  assumes "rs \<noteq> []"
  shows "\<exists>f. fold note_failure rs None = Some f \<and> fr_ts f = Max (run_ts ` set rs) \<and>
             \<not> fr_materialized f \<and> fr_run_id f \<in> run_id ` set rs"
  using assms fold_note_failure_Some[of "tl rs" "\<lparr>fr_ts = run_ts (hd rs), fr_run_id = run_id (hd rs), fr_materialized = False\<rparr>"]
  by (cases rs) auto

lemma fold_note_success_Some: "fold note_success rs (Some t) = Some (Max (insert t (run_ts ` set rs)))"
proof (induction rs arbitrary: t)
  case (Cons r rs)
  then show ?case by (cases "rs = []") (simp_all add: max.assoc max.commute max.left_commute)
qed simp

lemma fold_note_success:
  "fold note_success rs None = (if rs = [] then None else Some (Max (run_ts ` set rs)))"
  by (cases rs) (simp_all add: fold_note_success_Some)

section \<open>One asset of the apply phase\<close>

definition add_floor :: "bool \<Rightarrow> int \<Rightarrow> int option \<Rightarrow> int option" where
  "add_floor mat ts old =
     (if mat then (case old of Some t \<Rightarrow> if ts \<ge> t then None else old | None \<Rightarrow> None)
      else Some (case old of Some t \<Rightarrow> max t ts | None \<Rightarrow> ts))"

definition remove_floor :: "int \<Rightarrow> int option \<Rightarrow> int option" where
  "remove_floor ts old = (case old of Some f \<Rightarrow> if ts < f then old else None | None \<Rightarrow> None)"

lemma failed_add_records [simp]: "c_records (apply_failed_add ovr e c) = c_records c"
  by (auto simp: apply_failed_add_def clear_floor_def split: prod.split)

lemma run_materialized_cong: "c_records c = c_records c' \<Longrightarrow> run_materialized_asset c = run_materialized_asset c'"
  by (intro ext) (simp add: run_materialized_asset_def)

lemma failed_add_floor:
  "c_failed_ts (apply_failed_add ovr (b, f) c) a =
     (if a = b then add_floor (fr_materialized f \<or> run_materialized_asset c a (fr_run_id f) ovr) (fr_ts f) (c_failed_ts c a)
      else c_failed_ts c a)"
  by (auto simp: apply_failed_add_def add_floor_def clear_floor_def split: option.split)

lemma failed_adds_floor:
  "distinct (map fst m) \<Longrightarrow>
   c_failed_ts (fold (apply_failed_add ovr) m c) a =
     (case map_of m a of
        None \<Rightarrow> c_failed_ts c a
      | Some f \<Rightarrow> add_floor (fr_materialized f \<or> run_materialized_asset c a (fr_run_id f) ovr) (fr_ts f) (c_failed_ts c a))"
proof (induction m arbitrary: c)
  case (Cons e m)
  obtain b f where e: "e = (b, f)" by force
  have "run_materialized_asset (apply_failed_add ovr e c) = run_materialized_asset c"
    by (rule run_materialized_cong) simp
  moreover have "map_of m b = None" using Cons.prems e by (simp add: map_of_eq_None_iff)
  ultimately show ?case using Cons by (auto simp: e failed_add_floor split: option.splits)
qed simp

lemma failed_remove_floor:
  "c_failed_ts (apply_failed_remove (b, ts) c) a =
     (if a = b then remove_floor ts (c_failed_ts c a) else c_failed_ts c a)"
  by (auto simp: apply_failed_remove_def remove_floor_def clear_floor_def split: option.split)

lemma failed_removes_floor:
  "distinct (map fst m) \<Longrightarrow>
   c_failed_ts (fold apply_failed_remove m c) a =
     (case map_of m a of None \<Rightarrow> c_failed_ts c a | Some ts \<Rightarrow> remove_floor ts (c_failed_ts c a))"
proof (induction m arbitrary: c)
  case (Cons e m)
  obtain b ts where e: "e = (b, ts)" by force
  have "map_of m b = None" using Cons.prems e by (simp add: map_of_eq_None_iff)
  then show ?case using Cons by (auto simp: e failed_remove_floor split: option.splits)
qed simp

lemma delta_distinct:
  assumes "distinct (map fst (d_failed_adds d))" and "distinct (map fst (d_failed_removes d))"
  shows "distinct (map fst (d_failed_adds (plan_runs c runs d)))"
    and "distinct (map fst (d_failed_removes (plan_runs c runs d)))"
proof -
  define P where "P d \<longleftrightarrow> distinct (map fst (d_failed_adds d)) \<and> distinct (map fst (d_failed_removes d))"
    for d :: refresh_delta
  have asset: "P (asset_run_effects c r b d)" if "P d" for r b d
    using that by (auto simp: P_def asset_run_effects_def Let_def add_failed_run_def max_entry_def
        distinct_update split: option.split)
  have "P (snd (apply_run_effects_to_delta c r d))" if "P d" for r d
  proof -
    have "P (fold (asset_run_effects c r) names (push_applied r d))" for names
      by (rule fold_keeps) (use that in \<open>simp_all add: asset\<close>, simp add: P_def)
    then show ?thesis using that by (auto simp: apply_run_effects_to_delta_def P_def)
  qed
  then have "P (plan_runs c runs d)"
    unfolding plan_runs_def by (rule fold_keeps) (use assms in \<open>simp_all add: P_def\<close>)
  then show "distinct (map fst (d_failed_adds (plan_runs c runs d)))"
    and "distinct (map fst (d_failed_removes (plan_runs c runs d)))" by (simp_all add: P_def)
qed

abbreviation vouched :: "(string \<rightharpoonup> string set) \<Rightarrow> string \<Rightarrow> string \<Rightarrow> bool" where
  "vouched ovr a rid \<equiv> (case ovr a of Some runs \<Rightarrow> rid \<in> runs | None \<Rightarrow> False)"

lemma vouched_add: "vouched (add_override b x m) a rid \<longleftrightarrow> (a = b \<and> rid = x) \<or> vouched m a rid"
  by (auto simp: add_override_def split: option.split)

lemma vouched_asset:
  "vouched (d_overrides (asset_run_effects c r b d)) a rid \<longleftrightarrow>
     (a = b \<and> rid = run_id r \<and> run_status r \<noteq> Failure) \<or> vouched (d_overrides d) a rid"
  by (simp add: asset_run_effects_def Let_def vouched_add)

lemma vouched_assets:
  "vouched (d_overrides (fold (asset_run_effects c r) names d)) a rid \<longleftrightarrow>
     (a \<in> set names \<and> rid = run_id r \<and> run_status r \<noteq> Failure) \<or> vouched (d_overrides d) a rid"
  by (induction names arbitrary: d) (auto simp: vouched_asset)

lemma vouched_run:
  "vouched (d_overrides (snd (apply_run_effects_to_delta c r d))) a rid \<Longrightarrow>
     (rid = run_id r \<and> run_status r = Success) \<or> vouched (d_overrides d) a rid"
  by (auto simp: apply_run_effects_to_delta_def vouched_assets split: if_splits)

lemma vouched_plan:
  "vouched (d_overrides (plan_runs c runs d)) a rid \<Longrightarrow>
     (\<exists>r \<in> set runs. run_id r = rid \<and> run_status r = Success) \<or> vouched (d_overrides d) a rid"
proof (induction runs arbitrary: d)
  case (Cons r runs)
  then show ?case using Cons.IH[of "snd (apply_run_effects_to_delta c r d)"] vouched_run[where c = c and r = r and d = d and a = a and rid = rid]
    unfolding plan_runs_def by auto
qed (simp add: plan_runs_def)

section \<open>The floor after a refresh\<close>

definition newest_floor :: "int option \<Rightarrow> int set \<Rightarrow> int set \<Rightarrow> int option" where
  "newest_floor old failures successes =
     (let fs = set_option old \<union> failures
      in if fs = {} \<or> (successes \<noteq> {} \<and> Max fs \<le> Max successes) then None else Some (Max fs))"

lemma floors_newest:
  assumes "finite fs" and "finite ss"
  shows "(if ss = {} then id else remove_floor (Max ss))
           ((if fs = {} then id else add_floor False (Max fs)) old) = newest_floor old fs ss"
  using assms
  by (cases old; cases "fs = {}"; cases "ss = {}")
     (simp_all add: newest_floor_def add_floor_def remove_floor_def not_less
        del: Max_less_iff Max.bounded_iff max_less_iff_conj max.bounded_iff)

lemma failed_ts_frame [simp]:
  "c_failed_ts (apply_pending d c) = c_failed_ts c"
  "c_failed_ts (apply_cursors d c) = c_failed_ts c"
  "c_failed_ts (apply_backfill d c) = c_failed_ts c"
  "c_failed_ts (apply_run_maps d c) = c_failed_ts c"
  "c_failed_ts (fold apply_patch ps c) = c_failed_ts c"
  "c_failed_ts (fold apply_change chs c) = c_failed_ts c"
  "c_failed_ts (apply_records d c) = c_failed_ts c"
  "c_failed_ts (apply_action_watch d c) = c_failed_ts c"
proof -
  have untrack: "c_failed_ts (untrack_in_progress_run a rid c) = c_failed_ts c" for a rid c
    by (simp add: untrack_in_progress_run_def)
  have "c_failed_ts (evict_pending e c) = c_failed_ts c" for e c
    by (simp add: evict_pending_def untrack fold_frame split: prod.split)
  then show "c_failed_ts (apply_pending d c) = c_failed_ts c"
    by (simp add: apply_pending_def fold_frame)
  show "c_failed_ts (apply_cursors d c) = c_failed_ts c"
    by (simp add: apply_cursors_def Let_def)
  have "c_failed_ts (clear_predispatch_mark a c) = c_failed_ts c" for a c
    by (simp add: clear_predispatch_mark_def split: option.split list.split)
  then show "c_failed_ts (apply_backfill d c) = c_failed_ts c"
    by (simp add: apply_backfill_def fold_frame split: option.split)
  have "c_failed_ts (apply_last_run ovr ps u c) = c_failed_ts c"
       "c_failed_ts (apply_deletion e c) = c_failed_ts c"
       "c_failed_ts (apply_tick_tag ovr ps t c) = c_failed_ts c" for ovr ps u e t c
    by (simp_all add: apply_last_run_def update_last_run_maps_def apply_deletion_def apply_tick_tag_def
        update_tick_materialization_tags_def split: prod.split)
  then show "c_failed_ts (apply_run_maps d c) = c_failed_ts c"
    by (simp add: apply_run_maps_def fold_frame)
  show "c_failed_ts (fold apply_patch ps c) = c_failed_ts c"
    by (rule fold_frame) (simp add: apply_patch_def split: prod.split)
  have "c_failed_ts (apply_change ch c) = c_failed_ts c" for ch c
    by (cases ch) (simp_all add: untrack track_in_progress_run_def)
  then show "c_failed_ts (fold apply_change chs c) = c_failed_ts c" by (simp add: fold_frame)
qed (simp_all add: apply_records_def apply_action_watch_def Let_def)

lemma records_change [simp]: "c_records (fold apply_change chs c) = c_records c"
proof (rule fold_frame)
  fix ch c
  show "c_records (apply_change ch c) = c_records c"
    by (cases ch) (simp_all add: track_in_progress_run_def untrack_in_progress_run_def)
qed


definition sample_run :: "string \<Rightarrow> run_status \<Rightarrow> int \<Rightarrow> run_record" where
  "sample_run rid st t =
     \<lparr>run_id = rid, run_code_location = ''cl'', run_job_name = None, run_status = st, start_time = t,
      end_time = Some (t + 1), run_tag_list = [], node_names = [''a''], run_priority = 0,
      run_partition_key = None, block_reason = None, run_action = None\<rparr>"


end
