(* ===== verification/Cache_Refresh.thy ===== *)
theory Cache_Refresh
  imports Condition_Cache Time_Grids
begin

text \<open>
  Loading and refreshing the condition cache from storage
  (\<open>rivers-core/src/condition/cache/mod.rs\<close>, \<open>refresh.rs\<close>): the initial load, the plan phase of a
  refresh with all its reads, and the refresh itself. Storage is the record \<open>storage_reads\<close> of the
  queries the cache makes, each of which may fail. A failed read aborts the operation: the plan phase
  of a refresh reads into a delta and leaves the cache as it was; the initial load mutates the cache
  between its reads, so its error carries the cache it leaves. A hash set the code iterates over is
  a list without duplicates.
\<close>

section \<open>Storage reads\<close>

datatype backfill_status = Requested | InProgress | CompletedSuccess | CompletedFailed | BackfillCanceled

record backfill_record =
  bfr_id :: string
  bfr_asset_selection :: "string list"
  bfr_partition_keys :: "partition_key list"
  bfr_action :: "string option"

record step_outcome =
  so_asset_key :: string
  so_run_id :: string
  so_succeeded :: bool

record observation =
  ob_asset_key :: "string option"
  ob_timestamp :: int

record storage_reads =
  s_latest_run :: "string + run_record list"
  s_runs_since :: "int \<Rightarrow> run_status option \<Rightarrow> string + run_record list"
  s_runs_by_ids :: "string list \<Rightarrow> string + run_record list"
  s_records :: "string + asset_record list"
  s_records_by_keys :: "string list \<Rightarrow> string + asset_record list"
  s_topology :: "string + (string \<times> string) list option"
  s_step_outcomes :: "string list \<Rightarrow> string list \<Rightarrow> string + step_outcome list"
  s_materialized_by_runs :: "string list \<Rightarrow> string list \<Rightarrow> string + (string \<rightharpoonup> string set)"
  s_deletion_ts :: "string + (string \<rightharpoonup> int)"
  s_latest_observation_ts :: "string + int option"
  s_observations_since :: "int \<Rightarrow> string + observation list"
  s_backfills :: "backfill_status \<Rightarrow> string + backfill_record list"
  s_partition_ts :: "string \<Rightarrow> string + (partition_key \<times> int) list"
  s_partition_ts_since :: "string \<Rightarrow> int \<Rightarrow> string + (partition_key \<times> int) list"
  s_partition_rows :: "string \<Rightarrow> partition_key set \<Rightarrow> string + (partition_key \<times> int \<times> string option) list"
  s_in_progress_partitions :: "string \<Rightarrow> string + partition_key list"
  s_failed_partitions :: "string \<Rightarrow> (partition_key \<rightharpoonup> int) \<Rightarrow> string + (partition_key \<rightharpoonup> int)"

text \<open>The \<open>?\<close> operator: continue with the value, or return the error.\<close>

fun res_bind :: "'e + 'a \<Rightarrow> ('a \<Rightarrow> 'e + 'b) \<Rightarrow> 'e + 'b" where
  "res_bind (Inl e) f = Inl e"
| "res_bind (Inr x) f = f x"

lemma res_bind_Inr [simp]: "res_bind m f = Inr y \<longleftrightarrow> (\<exists>x. m = Inr x \<and> f x = Inr y)"
  by (cases m) auto

text \<open>A read made while the cache is \<open>c\<close>: its error leaves \<open>c\<close>.\<close>

definition read_at :: "asset_cache \<Rightarrow> string + 'a \<Rightarrow> (string \<times> asset_cache) + 'a" where
  "read_at c m = (case m of Inl e \<Rightarrow> Inl (e, c) | Inr x \<Rightarrow> Inr x)"

lemma read_at_Inr [simp]: "read_at c m = Inr x \<longleftrightarrow> m = Inr x"
  by (cases m) (auto simp: read_at_def)

type_synonym loading = "(string \<times> asset_cache) + asset_cache"

definition saturating_pred :: "int \<Rightarrow> int" where
  "saturating_pred n = max (- (2 ^ 63)) (n - 1)"

definition sorted_ids :: "string list \<Rightarrow> string list" where
  "sorted_ids ids = remdups_adj (sort ids)"

lemma set_sorted_ids [simp]: "set (sorted_ids ids) = set ids"
  by (simp add: sorted_ids_def)

section \<open>Backfills and partition status\<close>

definition add_backfill :: "backfill_record \<Rightarrow> backfill_state \<Rightarrow> backfill_state" where
  "add_backfill bf st =
     st\<lparr>bf_assets := fold (\<lambda>a. push_at a (bfr_id bf)) (bfr_asset_selection bf) (bf_assets st),
        bf_partition_keys := (bf_partition_keys st)(bfr_id bf \<mapsto> map canon (bfr_partition_keys bf))\<rparr>"

definition load_active_backfills :: "storage_reads \<Rightarrow> string + backfill_state" where
  "load_active_backfills S =
     res_bind (s_backfills S Requested) (\<lambda>requested.
     res_bind (s_backfills S InProgress) (\<lambda>in_progress.
       Inr (fold add_backfill (filter (\<lambda>bf. bfr_action bf = None) (requested @ in_progress))
              \<lparr>bf_assets = Map.empty, bf_partition_keys = Map.empty\<rparr>)))"

definition load_partition_entry :: "storage_reads \<Rightarrow> string \<Rightarrow> string + partition_status" where
  "load_partition_entry S a =
     res_bind (s_partition_ts S a) (\<lambda>rows.
       let ts = fold (\<lambda>(k, t) m. m(canon k \<mapsto> t)) rows Map.empty
       in res_bind (s_in_progress_partitions S a) (\<lambda>ip.
          res_bind (s_failed_partitions S a ts) (\<lambda>failed.
            Inr \<lparr>ps_in_progress = canon ` set ip, ps_failed = dom failed, ps_failed_timestamps = failed,
                 ps_timestamps = ts\<rparr>)))"

fun load_partition_status_inner :: "storage_reads \<Rightarrow> string list \<Rightarrow> asset_cache \<Rightarrow> loading" where
  "load_partition_status_inner S [] c = Inr c"
| "load_partition_status_inner S (a # as) c =
     res_bind (read_at c (load_partition_entry S a)) (\<lambda>e.
       load_partition_status_inner S as (c\<lparr>c_partition_status := (c_partition_status c)(a \<mapsto> e)\<rparr>))"

section \<open>Initial load\<close>

definition init_run_cursor :: "storage_reads \<Rightarrow> asset_cache \<Rightarrow> loading" where
  "init_run_cursor S c =
     res_bind (read_at c (s_latest_run S)) (\<lambda>recent.
       case recent of
         [] \<Rightarrow> Inr c
       | newest # _ \<Rightarrow>
           (let c1 = c\<lparr>c_last_seen_run_ts := saturating_pred (start_time newest)\<rparr>
            in res_bind (read_at c1 (s_runs_since S (c_last_seen_run_ts c1) None)) (\<lambda>ties.
                 Inr (c1\<lparr>c_applied_runs :=
                    fold (\<lambda>r m. if run_status_is_terminal (run_status r) then m(run_id r \<mapsto> start_time r) else m)
                      ties (c_applied_runs c1)\<rparr>))))"

definition track_live_run :: "run_record \<Rightarrow> asset_cache \<Rightarrow> asset_cache" where
  "track_live_run r c =
     (if is_action r
      then c\<lparr>c_live_actions :=
               AList.update (run_id r) \<lparr>la_node_names = node_names r, la_partition_key = run_partition_key r\<rparr>
                 (c_live_actions c)\<rparr>
      else fold (\<lambda>a. track_in_progress_run a (run_id r) (run_partition_key r)) (node_names r) c)"

fun init_live_runs :: "storage_reads \<Rightarrow> run_status list \<Rightarrow> asset_cache \<Rightarrow> loading" where
  "init_live_runs S [] c = Inr c"
| "init_live_runs S (st # sts) c =
     res_bind (read_at c (s_runs_since S 0 (Some st))) (\<lambda>live. init_live_runs S sts (fold track_live_run live c))"

definition superseded :: "asset_cache \<Rightarrow> (string \<rightharpoonup> int) \<Rightarrow> run_record \<Rightarrow> string \<Rightarrow> bool" where
  "superseded c deletion_ts r a \<longleftrightarrow>
     Option.bind (c_records c a) last_run_id = Some (run_id r) \<or>
     (case Option.bind (c_records c a) last_timestamp of Some mat \<Rightarrow> mat \<ge> run_ts r | None \<Rightarrow> False) \<or>
     (case deletion_ts a of Some del \<Rightarrow> del \<ge> run_ts r | None \<Rightarrow> False)"

definition candidate_floors :: "asset_cache \<Rightarrow> (string \<rightharpoonup> int) \<Rightarrow> run_record list \<Rightarrow> (string \<times> string \<times> int) list" where
  "candidate_floors c deletion_ts failed_runs =
     concat (map (\<lambda>r. if is_action r then []
       else map (\<lambda>a. (a, run_id r, run_ts r))
         (filter (\<lambda>a. \<not> (run_partition_key r \<noteq> None \<and> is_partitioned c a) \<and> \<not> superseded c deletion_ts r a)
           (node_names r))) failed_runs)"

definition raise_floor :: "string \<times> string \<times> int \<Rightarrow> asset_cache \<Rightarrow> asset_cache" where
  "raise_floor f c =
     (case f of (a, rid, ts) \<Rightarrow>
        c\<lparr>c_failed := insert a (c_failed c),
          c_failed_ts := (c_failed_ts c)(a \<mapsto> (case c_failed_ts c a of Some t \<Rightarrow> max t ts | None \<Rightarrow> ts))\<rparr>)"

definition retain_floors :: "(string \<rightharpoonup> int) \<Rightarrow> asset_cache \<Rightarrow> asset_cache" where
  "retain_floors deletion_ts c =
     (let floors = (\<lambda>a. case c_failed_ts c a of
            None \<Rightarrow> None
          | Some ts \<Rightarrow>
              (if (case Option.bind (c_records c a) last_timestamp of Some mat \<Rightarrow> mat < ts | None \<Rightarrow> True) \<and>
                  (case deletion_ts a of Some del \<Rightarrow> del < ts | None \<Rightarrow> True)
               then Some ts else None))
      in c\<lparr>c_failed_ts := floors, c_failed := {a \<in> c_failed c. floors a \<noteq> None},
           c_deletion_ts := deletion_ts\<rparr>)"

definition init_floors :: "storage_reads \<Rightarrow> asset_cache \<Rightarrow> loading" where
  "init_floors S c =
     res_bind (read_at c (s_runs_since S 0 (Some Failure))) (\<lambda>failed_runs.
     res_bind (read_at c (s_deletion_ts S)) (\<lambda>deletion_ts.
       let floors = candidate_floors c deletion_ts failed_runs
       in res_bind (read_at c (if floors = [] then Inr Map.empty
                    else s_materialized_by_runs S (map fst floors) (sorted_ids (map (fst \<circ> snd) floors)))) (\<lambda>built.
            let kept = filter (\<lambda>(a, rid, ts). \<not> (case built a of Some runs \<Rightarrow> rid \<in> runs | None \<Rightarrow> False)) floors
            in Inr (retain_floors deletion_ts (fold raise_floor kept c)))))"

definition adopt_last_run :: "run_record list \<Rightarrow> asset_record \<Rightarrow> asset_cache \<Rightarrow> asset_cache" where
  "adopt_last_run runs rec c =
     (case Option.bind (last_run_id rec) (\<lambda>rid. find (\<lambda>r. run_id r = rid) runs) of
        None \<Rightarrow> c
      | Some r \<Rightarrow>
          (let names = (if is_action r then verb_run_names c (asset_key rec) (run_id r) (node_names r) else node_names r)
           in fold (\<lambda>pk. update_last_run_maps (asset_key rec) pk (run_ts r) (run_tag_list r) names)
                (run_partition_slots (is_partitioned c (asset_key rec)) r) c))"

definition init_last_runs :: "storage_reads \<Rightarrow> asset_record list \<Rightarrow> asset_cache \<Rightarrow> loading" where
  "init_last_runs S recs c =
     (let ids = List.map_filter last_run_id recs
      in if ids = [] then Inr c
         else res_bind (read_at c (s_runs_by_ids S ids)) (\<lambda>runs. Inr (fold (adopt_last_run runs) recs c)))"

definition load_state :: "storage_reads \<Rightarrow> string list \<Rightarrow> asset_cache \<Rightarrow> loading" where
  "load_state S partitioned c =
     res_bind (init_run_cursor S c) (\<lambda>c1.
     res_bind (read_at c1 (s_latest_observation_ts S)) (\<lambda>obs.
       let c2 = c1\<lparr>c_last_observation_ts := (case obs of Some ts \<Rightarrow> ts - 1 | None \<Rightarrow> - 1)\<rparr>
       in res_bind (read_at c2 (s_records S)) (\<lambda>recs.
       let c3 = c2\<lparr>c_records := fold (\<lambda>r m. m(asset_key r \<mapsto> r)) recs Map.empty\<rparr>
       in res_bind (read_at c3 (s_topology S)) (\<lambda>topology.
       let c4 = build_adjacency (case topology of Some es \<Rightarrow> c3\<lparr>c_edges := es\<rparr> | None \<Rightarrow> c3)
       in res_bind (init_live_runs S [Started, NotStarted, Queued] c4) (\<lambda>c5.
       res_bind (init_floors S c5) (\<lambda>c6.
       res_bind (init_last_runs S recs c6) (\<lambda>c7.
       res_bind (read_at c7 (load_active_backfills S)) (\<lambda>bf.
         load_partition_status_inner S partitioned (c7\<lparr>c_backfill := bf\<rparr>)))))))))"

definition initial_load :: "storage_reads \<Rightarrow> string list \<Rightarrow> asset_cache \<Rightarrow> loading" where
  "initial_load S partitioned c =
     res_bind (load_state S partitioned c) (\<lambda>c1. Inr (c1\<lparr>c_initialized := True\<rparr>))"

section \<open>Plan phase of a refresh\<close>

text \<open>
  What the plan phase accumulates besides the delta: the invalidated keys, the runs a sweep saw as
  terminal, and the assets of action runs that completed.
\<close>

record plan_state =
  pl_delta :: refresh_delta
  pl_invalidated :: "string list"
  pl_swept :: "string set"
  pl_actions :: "string list"

definition invalidate :: "string list \<Rightarrow> plan_state \<Rightarrow> plan_state" where
  "invalidate ks s = s\<lparr>pl_invalidated := pl_invalidated s @ ks\<rparr>"

definition on_delta :: "(refresh_delta \<Rightarrow> refresh_delta) \<Rightarrow> plan_state \<Rightarrow> plan_state" where
  "on_delta f s = s\<lparr>pl_delta := f (pl_delta s)\<rparr>"

definition add_actions :: "string list \<Rightarrow> plan_state \<Rightarrow> plan_state" where
  "add_actions ks s = s\<lparr>pl_actions := fold List.insert ks (pl_actions s)\<rparr>"

definition apply_effects :: "asset_cache \<Rightarrow> run_record \<Rightarrow> plan_state \<Rightarrow> bool \<times> plan_state" where
  "apply_effects c r s =
     (case apply_run_effects_to_delta c r (pl_delta s) of (b, d) \<Rightarrow> (b, s\<lparr>pl_delta := d\<rparr>))"

definition terminal :: "run_record \<Rightarrow> bool" where
  "terminal r = run_status_is_terminal (run_status r)"

subsection \<open>Runs in flight\<close>

text \<open>Records whose timestamp moved, and assets whose record did not move.\<close>

fun completion_check ::
  "asset_cache \<Rightarrow> asset_record list \<Rightarrow> plan_state \<times> string list \<times> string list \<times> string list \<Rightarrow>
   plan_state \<times> string list \<times> string list \<times> string list" where
  "completion_check c [] acc = acc"
| "completion_check c (rec # recs) (s, completed, ids, unmoved) =
     (if (case c_records c (asset_key rec) of Some old \<Rightarrow> last_timestamp old \<noteq> last_timestamp rec | None \<Rightarrow> True)
      then completion_check c recs
             (on_delta (\<lambda>d. d\<lparr>d_records := d_records d @ [rec]\<rparr>) s, completed @ [asset_key rec],
              (case last_run_id rec of Some rid \<Rightarrow> List.insert rid ids | None \<Rightarrow> ids), unmoved)
      else completion_check c recs
             (s, completed, ids,
              if map_of (c_in_progress c) (asset_key rec) \<noteq> None then unmoved @ [asset_key rec] else unmoved))"

definition note_outcome :: "asset_cache \<Rightarrow> step_outcome \<Rightarrow> (string \<rightharpoonup> string list) \<Rightarrow> (string \<rightharpoonup> string list)" where
  "note_outcome c oc m =
     (if so_run_id oc \<in> fst ` set (runs_of (c_in_progress c) (so_asset_key oc))
      then (let runs = (case m (so_asset_key oc) of Some rs \<Rightarrow> rs | None \<Rightarrow> [])
            in m(so_asset_key oc \<mapsto> (if so_succeeded oc then List.insert (so_run_id oc) runs else runs)))
      else m)"

definition settle_unmoved ::
  "asset_cache \<Rightarrow> (string \<rightharpoonup> string list) \<Rightarrow> string \<Rightarrow> plan_state \<times> string list \<times> string list \<Rightarrow>
   plan_state \<times> string list \<times> string list" where
  "settle_unmoved c succeeded_runs key acc =
     (case acc of (s, completed, ids) \<Rightarrow>
        case succeeded_runs key of
          None \<Rightarrow> acc
        | Some succeeded \<Rightarrow>
            (if succeeded = [] then s
             else on_delta (\<lambda>d. d\<lparr>d_overrides := fold (add_override key) succeeded (d_overrides d)\<rparr>) s,
             completed @ [key], fold List.insert (map fst (runs_of (c_in_progress c) key)) ids))"

definition sweep_tracked ::
  "asset_cache \<Rightarrow> string set \<Rightarrow> string list \<Rightarrow> run_record \<Rightarrow> plan_state \<times> string set \<Rightarrow> plan_state \<times> string set" where
  "sweep_tracked c new_terminal completed_ids r acc =
     (case acc of (s, swept_applied) \<Rightarrow>
        if \<not> terminal r then acc
        else
          (let s1 = on_delta (\<lambda>d. clear_run r (push_applied r d)) (s\<lparr>pl_swept := insert (run_id r) (pl_swept s)\<rparr>)
           in if run_id r \<notin> new_terminal \<and> run_id r \<notin> set completed_ids \<and> c_applied_runs c (run_id r) = None
              then (case apply_effects c r (invalidate (node_names r) s1) of
                      (applied, s2) \<Rightarrow> (s2, if applied then insert (run_id r) swept_applied else swept_applied))
              else (s1, swept_applied)))"

definition clear_vanished :: "asset_cache \<Rightarrow> string set \<Rightarrow> plan_state \<Rightarrow> plan_state" where
  "clear_vanished c found s =
     fold (\<lambda>(a, runs). fold (\<lambda>(rid, pk) s.
             if rid \<in> found \<or> map_of (c_pending_runs c) rid \<noteq> None then s
             else invalidate [a] (on_delta (\<lambda>d. d\<lparr>d_in_progress := d_in_progress d @ [ClearRun a rid]\<rparr>) s)) runs)
       (c_in_progress c) s"

definition apply_completed :: "asset_cache \<Rightarrow> run_record \<Rightarrow> plan_state \<Rightarrow> plan_state" where
  "apply_completed c r s =
     (if c_applied_runs c (run_id r) \<noteq> None then s
      else invalidate (node_names r) (snd (apply_effects c r s)))"

definition settle_in_progress :: "storage_reads \<Rightarrow> asset_cache \<Rightarrow> plan_state \<Rightarrow> string + plan_state \<times> string list" where
  "settle_in_progress S c s0 =
     res_bind (s_records_by_keys S (map fst (c_in_progress c))) (\<lambda>fresh.
       case completion_check c fresh (s0, [], [], []) of (s1, completed1, ids1, unmoved) \<Rightarrow>
       let probe = sorted_ids (concat (map (\<lambda>k. map fst (runs_of (c_in_progress c) k)) unmoved))
       in res_bind (if unmoved = [] then Inr [] else s_step_outcomes S unmoved probe) (\<lambda>outcomes.
       case fold (settle_unmoved c (fold (note_outcome c) outcomes Map.empty)) unmoved (s1, completed1, ids1) of
         (s2, completed, ids) \<Rightarrow> Inr (invalidate completed s2, ids)))"

definition tracked_ids :: "asset_cache \<Rightarrow> string list" where
  "tracked_ids c = sorted_ids (concat (map (map fst \<circ> snd) (c_in_progress c)))"

definition sweep_in_progress ::
  "storage_reads \<Rightarrow> asset_cache \<Rightarrow> string set \<Rightarrow> plan_state \<Rightarrow> string list \<Rightarrow> string + plan_state \<times> string set" where
  "sweep_in_progress S c new_terminal s completed_ids =
     (let clearable = tracked_ids c
      in res_bind (if clearable = [] then Inr [] else s_runs_by_ids S clearable) (\<lambda>rows.
         case fold (sweep_tracked c new_terminal completed_ids) rows (s, {}) of (s1, swept_applied) \<Rightarrow>
           Inr (if length rows < length clearable then clear_vanished c (run_id ` set rows) s1 else s1, swept_applied)))"

definition plan_in_progress :: "storage_reads \<Rightarrow> asset_cache \<Rightarrow> string set \<Rightarrow> plan_state \<Rightarrow> string + plan_state" where
  "plan_in_progress S c new_terminal s0 =
     (if c_in_progress c = [] then Inr s0
      else res_bind (settle_in_progress S c s0) (\<lambda>(s1, ids).
           res_bind (sweep_in_progress S c new_terminal s1 ids) (\<lambda>(s2, swept_applied).
             let rest = filter (\<lambda>rid. rid \<notin> new_terminal \<and> rid \<notin> swept_applied) ids
             in res_bind (if rest = [] then Inr [] else s_runs_by_ids S rest) (\<lambda>completed_runs.
                  Inr (fold (apply_completed c) completed_runs s2)))))"

subsection \<open>Watched action runs\<close>

definition sweep_action :: "asset_cache \<Rightarrow> string set \<Rightarrow> run_record \<Rightarrow> plan_state \<Rightarrow> plan_state" where
  "sweep_action c new_terminal r s =
     (if \<not> terminal r then s
      else
        (let s1 = on_delta (\<lambda>d. push_applied r (d\<lparr>d_untrack_actions := d_untrack_actions d @ [run_id r]\<rparr>))
                    (s\<lparr>pl_swept := insert (run_id r) (pl_swept s)\<rparr>)
         in if run_id r \<notin> new_terminal \<and> c_applied_runs c (run_id r) = None
            then add_actions (node_names r) (snd (apply_effects c r (invalidate (node_names r) s1)))
            else s1))"

definition drop_vanished_action :: "asset_cache \<Rightarrow> string set \<Rightarrow> string \<times> live_action_run \<Rightarrow> plan_state \<Rightarrow> plan_state" where
  "drop_vanished_action c found e s =
     (case e of (rid, live) \<Rightarrow>
        if rid \<in> found then s
        else on_delta (queue_action_partition_checks c (la_node_names live) (la_partition_key live))
               (add_actions (la_node_names live) (invalidate (la_node_names live)
                 (on_delta (\<lambda>d. d\<lparr>d_untrack_actions := d_untrack_actions d @ [rid]\<rparr>) s))))"

definition plan_actions :: "storage_reads \<Rightarrow> asset_cache \<Rightarrow> string set \<Rightarrow> plan_state \<Rightarrow> string + plan_state" where
  "plan_actions S c new_terminal s0 =
     (if c_live_actions c = [] then Inr s0
      else (let ids = map fst (c_live_actions c)
            in res_bind (s_runs_by_ids S ids) (\<lambda>watched.
               let s1 = fold (sweep_action c new_terminal) watched s0
               in Inr (if length watched < length ids
                       then fold (drop_vanished_action c (run_id ` set watched)) (c_live_actions c) s1 else s1))))"

subsection \<open>New runs\<close>

definition known_in_flight :: "asset_cache \<Rightarrow> run_record \<Rightarrow> bool" where
  "known_in_flight c r \<longleftrightarrow> node_names r \<noteq> [] \<and>
     list_all (\<lambda>a. run_id r \<in> fst ` set (runs_of (c_in_progress c) a)) (node_names r)"

definition has_new_work :: "asset_cache \<Rightarrow> string set \<Rightarrow> run_record list \<Rightarrow> bool" where
  "has_new_work c swept runs =
     list_ex (\<lambda>r. if terminal r then c_applied_runs c (run_id r) = None \<and> run_id r \<notin> swept
                  else \<not> is_action r \<and> \<not> known_in_flight c r) runs"

definition push_runs :: "run_record \<Rightarrow> refresh_delta \<Rightarrow> refresh_delta" where
  "push_runs r d = d\<lparr>d_in_progress := d_in_progress d @ map (\<lambda>a. Push a (run_id r) (run_partition_key r)) (node_names r)\<rparr>"

definition plan_new_run :: "asset_cache \<Rightarrow> run_record \<Rightarrow> plan_state \<Rightarrow> plan_state" where
  "plan_new_run c r s0 =
     (let s = on_delta (\<lambda>d. d\<lparr>d_confirmed := d_confirmed d @ [run_id r]\<rparr>) s0;
          fresh = (c_applied_runs c (run_id r) = None)
      in if \<not> terminal r
         then (if run_id r \<in> pl_swept s then s
               else if \<not> is_action r then on_delta (push_runs r) s
               else on_delta (\<lambda>d. d\<lparr>d_track_actions := d_track_actions d @
                      [(run_id r, \<lparr>la_node_names = node_names r, la_partition_key = run_partition_key r\<rparr>)]\<rparr>) s)
         else
           (let s1 = on_delta (clear_run r) s
            in if run_status r \<noteq> Canceled
               then (if fresh
                     then (let s2 = snd (apply_effects c r s1)
                           in if is_action r then add_actions (node_names r) s2 else s2)
                     else s1)
               else if is_action r \<and> fresh
                    then add_actions (node_names r) (snd (apply_effects c r s1))
                    else on_delta (push_applied r) s1))"

definition plan_new_runs :: "asset_cache \<Rightarrow> run_record list \<Rightarrow> plan_state \<Rightarrow> plan_state" where
  "plan_new_runs c new_runs s =
     (case new_runs of
        [] \<Rightarrow> s
      | r # rs \<Rightarrow>
          on_delta (\<lambda>d. d\<lparr>d_last_seen := Some (saturating_pred (fold max (map start_time rs) (start_time r)))\<rparr>)
            (fold (plan_new_run c) new_runs
              (if has_new_work c (pl_swept s) new_runs then on_delta (\<lambda>d. d\<lparr>d_changed := True\<rparr>) s else s)))"

subsection \<open>Failure and deletion lookups\<close>

definition plan_failures :: "storage_reads \<Rightarrow> plan_state \<Rightarrow> string + plan_state" where
  "plan_failures S s =
     (let adds = d_failed_adds (pl_delta s)
      in if adds = [] then Inr s
         else res_bind (s_materialized_by_runs S (map fst adds) (sorted_ids (map (fr_run_id \<circ> snd) adds))) (\<lambda>built.
           Inr (on_delta (\<lambda>d. d\<lparr>d_failed_adds := map (\<lambda>(a, f).
                  (a, f\<lparr>fr_materialized := (case built a of Some runs \<Rightarrow> fr_run_id f \<in> runs | None \<Rightarrow> False)\<rparr>))
                  adds\<rparr>) s)))"

definition note_deletion :: "asset_cache \<Rightarrow> (string \<rightharpoonup> int) \<Rightarrow> string \<Rightarrow> refresh_delta \<Rightarrow> refresh_delta" where
  "note_deletion c deletion_ts a d =
     (case deletion_ts a of
        None \<Rightarrow> d
      | Some del \<Rightarrow>
          (let d1 = d\<lparr>d_failed_removes := max_entry a del (d_failed_removes d),
                     d_deletions := d_deletions d @ [(a, del)]\<rparr>
           in if (case c_deletion_ts c a of Some seen \<Rightarrow> del > seen | None \<Rightarrow> True) \<and> is_partitioned c a
              then d1\<lparr>d_reloads := insert a (d_reloads d1)\<rparr> else d1))"

definition plan_deletions :: "storage_reads \<Rightarrow> asset_cache \<Rightarrow> plan_state \<Rightarrow> string + plan_state" where
  "plan_deletions S c s =
     (if pl_actions s = [] then Inr s
      else res_bind (s_deletion_ts S) (\<lambda>deletion_ts.
        Inr (on_delta (fold (note_deletion c deletion_ts) (pl_actions s)) s)))"

subsection \<open>Records and partition status of invalidated assets\<close>

text \<open>The keys of a hash set in the order of the sorted list.\<close>

definition fetch_records_with_downstream :: "storage_reads \<Rightarrow> asset_cache \<Rightarrow> string list \<Rightarrow> string + asset_record list" where
  "fetch_records_with_downstream S c ks =
     (let all_ks = sorted_list_of_set (expand_downstream ks c)
      in if all_ks = [] then Inr [] else s_records_by_keys S all_ks)"

definition run_check :: "refresh_delta \<Rightarrow> last_run_update \<Rightarrow> (string \<rightharpoonup> partition_key set) \<Rightarrow> (string \<rightharpoonup> partition_key set)" where
  "run_check d u m =
     (case u of (a, pk, rid, _) \<Rightarrow>
        case pk of
          None \<Rightarrow> m
        | Some k \<Rightarrow>
            (if (case d_overrides d a of Some runs \<Rightarrow> rid \<in> runs | None \<Rightarrow> False) then m
             else m(a \<mapsto> insert k (case m a of Some ks \<Rightarrow> ks | None \<Rightarrow> {}))))"

definition key_set :: "partition_key set option \<Rightarrow> partition_key set" where
  "key_set m = (case m of Some ks \<Rightarrow> ks | None \<Rightarrow> {})"

definition status_cursor :: "bool \<Rightarrow> partition_status \<Rightarrow> int" where
  "status_cursor reload cur = (if reload \<or> ps_timestamps cur = Map.empty then - 1 else Max (ran (ps_timestamps cur)) - 1)"

definition fetch_patch ::
  "storage_reads \<Rightarrow> (string \<rightharpoonup> partition_key set) \<Rightarrow> (string \<rightharpoonup> partition_key set) \<Rightarrow> string set \<Rightarrow>
   string \<Rightarrow> partition_status \<Rightarrow> string + status_patch" where
  "fetch_patch S action_checks run_checks reloads a cur =
     (let reload = (a \<in> reloads)
      in res_bind (s_partition_ts_since S a (status_cursor reload cur)) (\<lambda>raw.
      let fresh = map (\<lambda>(k, t). (canon k, t)) raw
      in res_bind (s_in_progress_partitions S a) (\<lambda>ip.
      res_bind (s_failed_partitions S a (ps_timestamps cur)) (\<lambda>failed.
      let touched = key_set (action_checks a);
          reread = touched \<union> key_set (run_checks a)
      in res_bind (if reread = {} then Inr [] else s_partition_rows S a reread) (\<lambda>rows.
      let row_runs = fold (\<lambda>(k, ts, rid) m. m(canon k \<mapsto> rid)) rows Map.empty;
          gone = {k \<in> touched. row_runs k = None}
      in Inr \<lparr>sp_fresh_timestamps = fresh, sp_in_progress = canon ` set ip, sp_failed = failed,
             sp_deleted = (if reload then gone \<union> (dom (ps_timestamps cur) - fst ` set fresh) else gone),
             sp_last_runs = (\<lambda>k. if k \<in> reread then Some (Option.bind (row_runs k) id) else None)\<rparr>)))))"

fun fetch_patches ::
  "storage_reads \<Rightarrow> asset_cache \<Rightarrow> (string \<rightharpoonup> partition_key set) \<Rightarrow> (string \<rightharpoonup> partition_key set) \<Rightarrow> string set \<Rightarrow>
   string list \<Rightarrow> string + (string \<times> status_patch) list" where
  "fetch_patches S c action_checks run_checks reloads [] = Inr []"
| "fetch_patches S c action_checks run_checks reloads (a # as) =
     (case c_partition_status c a of
        None \<Rightarrow> fetch_patches S c action_checks run_checks reloads as
      | Some cur \<Rightarrow>
          res_bind (fetch_patch S action_checks run_checks reloads a cur) (\<lambda>p.
          res_bind (fetch_patches S c action_checks run_checks reloads as) (\<lambda>ps. Inr ((a, p) # ps))))"

definition plan_invalidated :: "storage_reads \<Rightarrow> asset_cache \<Rightarrow> plan_state \<Rightarrow> string + plan_state" where
  "plan_invalidated S c s =
     (if pl_invalidated s = [] then Inr s
      else res_bind (fetch_records_with_downstream S c (pl_invalidated s)) (\<lambda>recs.
        let d = (pl_delta s)\<lparr>d_changed := True, d_records := d_records (pl_delta s) @ recs\<rparr>
        in res_bind (fetch_patches S c (d_action_checks d) (fold (run_check d) (d_last_runs d) Map.empty)
                      (d_reloads d) (remdups (pl_invalidated s))) (\<lambda>patches.
             Inr (s\<lparr>pl_delta := d\<lparr>d_partition_status := patches\<rparr>\<rparr>))))"

subsection \<open>Backfills, observations, pending runs\<close>

definition plan_backfills :: "storage_reads \<Rightarrow> asset_cache \<Rightarrow> refresh_delta \<Rightarrow> string + refresh_delta" where
  "plan_backfills S c d =
     res_bind (load_active_backfills S) (\<lambda>bf.
       if bf = c_backfill c then Inr d
       else Inr (d\<lparr>d_changed := True,
                   d_backfill_ended := d_backfill_ended d @
                     sorted_list_of_set (dom (bf_assets (c_backfill c)) - dom (bf_assets bf)),
                   d_backfill := Some bf\<rparr>))"

definition observe_record :: "asset_cache \<Rightarrow> string list \<Rightarrow> asset_record \<Rightarrow> refresh_delta \<Rightarrow> refresh_delta" where
  "observe_record c observed rec d =
     (if c_records c (asset_key rec) = Some rec then d
      else d\<lparr>d_changed := True,
             d_in_progress := d_in_progress d @ (if asset_key rec \<in> set observed then [AssetClear (asset_key rec)] else []),
             d_records := d_records d @ [rec]\<rparr>)"

definition fetch_refresh_observations_delta ::
  "storage_reads \<Rightarrow> asset_cache \<Rightarrow> refresh_delta \<Rightarrow> string + refresh_delta" where
  "fetch_refresh_observations_delta S c d =
     res_bind (s_observations_since S (c_last_observation_ts c)) (\<lambda>obs.
       if obs = [] then Inr d
       else (let observed = remdups (List.map_filter ob_asset_key obs);
                 max_ts = fold max (map ob_timestamp obs) (c_last_observation_ts c)
             in res_bind (if observed = [] then Inr [] else fetch_records_with_downstream S c observed) (\<lambda>recs.
                  Inr ((fold (observe_record c observed) recs d)\<lparr>d_last_observation := Some (saturating_pred max_ts)\<rparr>))))"

definition plan_evictions :: "asset_cache \<Rightarrow> int \<Rightarrow> refresh_delta \<Rightarrow> refresh_delta" where
  "plan_evictions c tnow d =
     (let evicted = d_evicted d @ map (\<lambda>(rid, p). (rid, pr_asset_keys p))
            (filter (\<lambda>(rid, p). rid \<notin> set (d_confirmed d) \<and> tnow - first_seen_ts p > c_pending_grace c)
              (c_pending_runs c))
      in d\<lparr>d_evicted := evicted, d_changed := (d_changed d \<or> evicted \<noteq> [])\<rparr>)"

subsection \<open>The refresh\<close>

definition fetch_refresh_delta :: "storage_reads \<Rightarrow> int \<Rightarrow> asset_cache \<Rightarrow> string + refresh_delta" where
  "fetch_refresh_delta S tnow c =
     res_bind (s_runs_since S (c_last_seen_run_ts c) None) (\<lambda>new_runs.
       let s0 = \<lparr>pl_delta = empty_delta\<lparr>d_clear_tick := True\<rparr>,
                 pl_invalidated = concat (map node_names
                   (filter (\<lambda>r. terminal r \<and> c_applied_runs c (run_id r) = None) new_runs)),
                 pl_swept = {}, pl_actions = []\<rparr>;
           new_terminal = run_id ` set (filter terminal new_runs)
       in res_bind (plan_in_progress S c new_terminal s0) (\<lambda>s1.
          res_bind (plan_actions S c new_terminal s1) (\<lambda>s2.
          res_bind (plan_failures S (plan_new_runs c new_runs s2)) (\<lambda>s3.
          res_bind (plan_deletions S c s3) (\<lambda>s4.
          res_bind (plan_invalidated S c s4) (\<lambda>s5.
          res_bind (plan_backfills S c (pl_delta s5)) (\<lambda>d6.
          res_bind (fetch_refresh_observations_delta S c d6) (\<lambda>d7.
            Inr (plan_evictions c tnow d7)))))))))"

text \<open>\<open>partitioned\<close> is the set of partitioned assets in the order the load visits it.\<close>

definition refresh :: "storage_reads \<Rightarrow> string list \<Rightarrow> int \<Rightarrow> asset_cache \<Rightarrow> asset_cache \<times> (string + bool)" where
  "refresh S partitioned tnow c =
     (if \<not> c_initialized c
      then (case initial_load S partitioned c of Inl (e, c') \<Rightarrow> (c', Inl e) | Inr c' \<Rightarrow> (c', Inr True))
      else (case fetch_refresh_delta S tnow c of
              Inl e \<Rightarrow> (c, Inl e)
            | Inr d \<Rightarrow> (case apply_refresh_delta d c of (c', changed) \<Rightarrow> (c', Inr changed))))"

section \<open>Failed reads\<close>

text \<open>The parts of the cache that no load touches, whether it succeeds or fails.\<close>

definition load_frame :: "asset_cache \<Rightarrow> asset_cache \<Rightarrow> bool" where
  "load_frame c c' \<longleftrightarrow>
     c_initialized c' = c_initialized c \<and> c_pending_runs c' = c_pending_runs c \<and>
     c_pending_grace c' = c_pending_grace c \<and> c_partitioned c' = c_partitioned c \<and>
     c_needs_tick_tags c' = c_needs_tick_tags c \<and> c_tick_tags c' = c_tick_tags c"

lemma load_frame_refl [simp]: "load_frame c c"
  by (simp add: load_frame_def)

lemma load_frame_trans: "load_frame c c1 \<Longrightarrow> load_frame c1 c2 \<Longrightarrow> load_frame c c2"
  by (simp add: load_frame_def)

lemma load_frame_simps [simp]:
  "load_frame c0 (c\<lparr>c_records := v1\<rparr>) = load_frame c0 c"
  "load_frame c0 (c\<lparr>c_edges := v2\<rparr>) = load_frame c0 c"
  "load_frame c0 (build_adjacency c) = load_frame c0 c"
  "load_frame c0 (c\<lparr>c_in_progress := v3\<rparr>) = load_frame c0 c"
  "load_frame c0 (c\<lparr>c_live_actions := v4\<rparr>) = load_frame c0 c"
  "load_frame c0 (c\<lparr>c_failed_ts := v5, c_failed := v6, c_deletion_ts := v7\<rparr>) = load_frame c0 c"
  "load_frame c0 (c\<lparr>c_failed := v6, c_failed_ts := v5\<rparr>) = load_frame c0 c"
  "load_frame c0 (c\<lparr>c_last_seen_run_ts := v8\<rparr>) = load_frame c0 c"
  "load_frame c0 (c\<lparr>c_last_observation_ts := v9\<rparr>) = load_frame c0 c"
  "load_frame c0 (c\<lparr>c_applied_runs := v10\<rparr>) = load_frame c0 c"
  "load_frame c0 (c\<lparr>c_partition_status := v11\<rparr>) = load_frame c0 c"
  "load_frame c0 (c\<lparr>c_backfill := v12\<rparr>) = load_frame c0 c"
  "load_frame c0 (update_last_run_maps a pk ts tg ns c) = load_frame c0 c"
  by (simp_all add: load_frame_def build_adjacency_def update_last_run_maps_def)

text \<open>The cache a load ends with, after an error or a success.\<close>

fun end_cache :: "loading \<Rightarrow> asset_cache" where
  "end_cache (Inl (e, c)) = c"
| "end_cache (Inr c) = c"

lemma end_cache_read:
  assumes "load_frame c0 c" and "\<And>x. m = Inr x \<Longrightarrow> load_frame c0 (end_cache (f x))"
  shows "load_frame c0 (end_cache (res_bind (read_at c m) f))"
  using assms by (cases m) (simp_all add: read_at_def)

lemma end_cache_bind:
  assumes "load_frame c0 (end_cache m)" and "\<And>c. load_frame c0 c \<Longrightarrow> load_frame c0 (end_cache (f c))"
  shows "load_frame c0 (end_cache (res_bind m f))"
  using assms by (cases m) auto

lemma frame_fold: "(\<And>x c. load_frame c0 c \<Longrightarrow> load_frame c0 (f x c)) \<Longrightarrow> load_frame c0 c \<Longrightarrow> load_frame c0 (fold f xs c)"
  by (rule fold_keeps)

lemma frame_status: "load_frame c0 c \<Longrightarrow> load_frame c0 (end_cache (load_partition_status_inner S ks c))"
  by (induction S ks c rule: load_partition_status_inner.induct) (auto intro!: end_cache_read)

lemma frame_live: "load_frame c0 c \<Longrightarrow> load_frame c0 (end_cache (init_live_runs S sts c))"
proof (induction S sts c rule: init_live_runs.induct)
  case (2 S st sts c)
  have "load_frame c0 (track_live_run r c)" if "load_frame c0 c" for r c
    unfolding track_live_run_def using that by (auto intro!: frame_fold simp: track_in_progress_run_def)
  then have "load_frame c0 (fold track_live_run rs c)" for rs using "2.prems" by (rule frame_fold)
  then show ?case using 2 by (auto intro!: end_cache_read)
qed simp

lemma frame_floors: "load_frame c0 c \<Longrightarrow> load_frame c0 (end_cache (init_floors S c))"
  unfolding init_floors_def Let_def
  by (intro end_cache_read) (auto simp: retain_floors_def Let_def raise_floor_def split: prod.split intro!: frame_fold)

lemma frame_last_runs: "load_frame c0 c \<Longrightarrow> load_frame c0 (end_cache (init_last_runs S recs c))"
  by (auto simp: init_last_runs_def adopt_last_run_def Let_def intro!: end_cache_read frame_fold split: option.split)

lemma frame_cursor: "load_frame c0 c \<Longrightarrow> load_frame c0 (end_cache (init_run_cursor S c))"
  unfolding init_run_cursor_def by (auto intro!: end_cache_read split: list.split simp: Let_def)

lemma frame_load: "load_frame c (end_cache (load_state S ks c))"
  unfolding load_state_def Let_def
  by (intro end_cache_bind[OF frame_cursor] end_cache_bind[OF frame_live] end_cache_bind[OF frame_floors]
      end_cache_bind[OF frame_last_runs] end_cache_read frame_status) (auto split: option.split)

text \<open>
  C24: A failed read is harmless. In the steady state a refresh that fails leaves the cache exactly as it
  was. A failed initial load leaves the cache marked as not loaded, so that the next refresh loads it
  again, and keeps the dispatches awaiting their rows and the settings; a load that succeeds keeps them too.
\<close>

theorem refresh_failure_safe:
  "case refresh S ks tnow c of
     (c', Inl e) \<Rightarrow> load_frame c c' \<and> (c_initialized c \<longrightarrow> c' = c)
   | (c', Inr changed) \<Rightarrow> \<not> c_initialized c \<longrightarrow> c_initialized c' \<and> load_frame (c\<lparr>c_initialized := True\<rparr>) c'"
proof (cases "c_initialized c")
  case True
  then show ?thesis by (cases "fetch_refresh_delta S tnow c") (simp_all add: refresh_def split: prod.split)
next
  case False
  show ?thesis
  proof (cases "load_state S ks c")
    case (Inl ec)
    then show ?thesis using False frame_load[of c S ks] by (cases ec) (simp add: refresh_def initial_load_def)
  next
    case (Inr c1)
    then have "load_frame c c1" using frame_load[of c S ks] by simp
    then have "load_frame (c\<lparr>c_initialized := True\<rparr>) (c1\<lparr>c_initialized := True\<rparr>)" by (simp add: load_frame_def)
    then show ?thesis using False Inr by (simp add: refresh_def initial_load_def)
  qed
qed

text \<open>A storage with one finished run.\<close>

definition finished_run :: run_record where
  "finished_run =
     \<lparr>run_id = ''r1'', run_code_location = ''cl'', run_job_name = None, run_status = Success, start_time = 5,
      end_time = Some 9, run_tag_list = [], node_names = [''a''], run_priority = 0, run_partition_key = None,
      block_reason = None, run_action = None\<rparr>"

definition finished_storage :: storage_reads where
  "finished_storage =
     \<lparr>s_latest_run = Inr [finished_run], s_runs_since = (\<lambda>t st. Inr []),
      s_runs_by_ids = (\<lambda>ids. Inr (if ''r1'' \<in> set ids then [finished_run] else [])), s_records = Inr [],
      s_records_by_keys = (\<lambda>ks. Inr []), s_topology = Inr None, s_step_outcomes = (\<lambda>ks ids. Inr []),
      s_materialized_by_runs = (\<lambda>ks ids. Inr Map.empty), s_deletion_ts = Inr Map.empty,
      s_latest_observation_ts = Inr None, s_observations_since = (\<lambda>t. Inr []), s_backfills = (\<lambda>st. Inr []),
      s_partition_ts = (\<lambda>a. Inr []), s_partition_ts_since = (\<lambda>a t. Inr []), s_partition_rows = (\<lambda>a ks. Inr []),
      s_in_progress_partitions = (\<lambda>a. Inr []), s_failed_partitions = (\<lambda>a m. Inr Map.empty)\<rparr>"

theorem refresh_failure_safe_witness:
  "case refresh (finished_storage\<lparr>s_records := Inl ''down''\<rparr>) [] 0 new_cache of
     (c', Inl e) \<Rightarrow> e = ''down'' \<and> \<not> c_initialized c' \<and> c_last_seen_run_ts c' = 4
   | (c', Inr changed) \<Rightarrow> False"
proof -
  have "refresh (finished_storage\<lparr>s_records := Inl ''down''\<rparr>) [] 0 new_cache =
      (new_cache\<lparr>c_last_seen_run_ts := 4, c_last_observation_ts := - 1\<rparr>, Inl ''down'')"
    by (simp add: refresh_def initial_load_def load_state_def init_run_cursor_def finished_storage_def
        finished_run_def read_at_def new_cache_def saturating_pred_def)
  then show ?thesis
    using refresh_failure_safe[where S = "finished_storage\<lparr>s_records := Inl ''down''\<rparr>" and ks = "[]" and tnow = 0 and c = new_cache]
    by (simp add: load_frame_def new_cache_def)
qed

end
