(* ===== verification/Cache_Liveness.thy ===== *)
theory Cache_Liveness
  imports Cache_Refresh
begin

text \<open>
  The in-progress guard of the condition cache. A run that the cache tracks against an asset keeps
  the asset from being dispatched again; a run that stays tracked after it has finished would keep
  the asset from ever running. The lemmas follow the guard through the plan phase (which changes it
  queues) and the apply phase (what the changes leave tracked).
\<close>

section \<open>What is tracked\<close>

definition tracked :: "asset_cache \<Rightarrow> string \<Rightarrow> string \<Rightarrow> bool" where
  "tracked c a rid \<longleftrightarrow> rid \<in> fst ` set (runs_of (c_in_progress c) a)"

lemma runs_of_update [simp]: "runs_of (AList.update a rs ip) b = (if b = a then rs else runs_of ip b)"
  by (simp add: runs_of_def update_conv')

lemma runs_of_delete [simp]: "runs_of (AList.delete a ip) b = (if b = a then [] else runs_of ip b)"
  by (simp add: runs_of_def delete_conv')

lemma keys_delete [simp]: "fst ` set (AList.delete k al) = fst ` set al - {k}"
  by (auto simp: AList.delete_eq image_iff)

lemma tracked_track [simp]:
  "tracked (track_in_progress_run a rid pk c) b r \<longleftrightarrow> (b = a \<and> r = rid) \<or> tracked c b r"
  by (auto simp: tracked_def track_in_progress_run_def track_run_def dom_update)

lemma tracked_untrack [simp]:
  "tracked (untrack_in_progress_run a rid c) b r \<longleftrightarrow> tracked c b r \<and> \<not> (b = a \<and> r = rid)"
proof -
  have "fst ` set (runs_of (untrack_run a rid ip) b) = fst ` set (runs_of ip b) - (if b = a then {rid} else {})" for ip
  proof (cases "map_of ip a")
    case None
    then show ?thesis by (auto simp: untrack_run_def runs_of_def)
  next
    case (Some rs)
    moreover have "AList.delete rid rs = [] \<Longrightarrow> fst ` set rs - {rid} = {}"
      using keys_delete[of rid rs] by simp
    ultimately show ?thesis
      by (auto simp: untrack_run_def Let_def runs_of_def[of ip] simp flip: keys_delete)
  qed
  then show ?thesis by (auto simp: tracked_def untrack_in_progress_run_def split: if_splits)
qed

lemma tracked_change:
  "tracked (apply_change ch c) a rid \<Longrightarrow>
     (\<exists>pk. ch = Push a rid pk) \<or> tracked c a rid \<and> ch \<noteq> ClearRun a rid"
  by (cases ch) (auto simp: tracked_def[of "c\<lparr>c_in_progress := _\<rparr>"] tracked_def[of c] split: if_splits)

lemma tracked_changes:
  "tracked (fold apply_change chs c) a rid \<Longrightarrow>
     (\<exists>pk. Push a rid pk \<in> set chs) \<or> tracked c a rid \<and> ClearRun a rid \<notin> set chs"
  by (induction chs arbitrary: c) (fastforce dest: tracked_change)+

section \<open>The apply phase\<close>

lemma in_progress_frames [simp]:
  "c_in_progress (apply_records d c) = c_in_progress c"
  "c_in_progress (apply_action_watch d c) = c_in_progress c"
  "c_in_progress (apply_cursors d c) = c_in_progress c"
  "c_in_progress (apply_failures d c) = c_in_progress c"
  "c_in_progress (apply_run_maps d c) = c_in_progress c"
  "c_in_progress (fold apply_patch ps c) = c_in_progress c"
  by (auto simp: apply_records_def apply_action_watch_def apply_cursors_def Let_def apply_failures_def
      apply_run_maps_def apply_failed_remove_def apply_failed_add_def clear_floor_def apply_last_run_def
      update_last_run_maps_def apply_deletion_def apply_tick_tag_def update_tick_materialization_tags_def
      apply_patch_def split: prod.split intro!: fold_frame[where f = c_in_progress] trans[OF fold_frame[where f = c_in_progress]])

lemma pending_change [simp]: "c_pending_runs (apply_change ch c) = c_pending_runs c"
  by (cases ch) (simp_all add: track_in_progress_run_def untrack_in_progress_run_def)

lemma pending_frames [simp]:
  "c_pending_runs (apply_records d c) = c_pending_runs c"
  "c_pending_runs (apply_action_watch d c) = c_pending_runs c"
  "c_pending_runs (apply_cursors d c) = c_pending_runs c"
  "c_pending_runs (apply_failures d c) = c_pending_runs c"
  "c_pending_runs (apply_run_maps d c) = c_pending_runs c"
  "c_pending_runs (fold apply_patch ps c) = c_pending_runs c"
  "c_pending_runs (apply_backfill d c) = c_pending_runs c"
  "c_pending_runs (fold apply_change chs c) = c_pending_runs c"
  by (auto simp: apply_records_def apply_action_watch_def apply_cursors_def Let_def apply_failures_def
      apply_run_maps_def apply_failed_remove_def apply_failed_add_def clear_floor_def apply_last_run_def
      update_last_run_maps_def apply_deletion_def apply_tick_tag_def update_tick_materialization_tags_def
      apply_patch_def apply_backfill_def clear_predispatch_mark_def split: prod.split option.split list.split
      intro!: fold_frame[where f = c_pending_runs] trans[OF fold_frame[where f = c_pending_runs]])

lemma runs_of_predispatch [simp]: "runs_of (c_in_progress (clear_predispatch_mark a c)) b = runs_of (c_in_progress c) b"
  by (auto simp: clear_predispatch_mark_def runs_of_def delete_conv' split: option.split list.split)

lemma tracked_backfill [simp]: "tracked (apply_backfill d c) a rid = tracked c a rid"
proof -
  have "runs_of (c_in_progress (fold clear_predispatch_mark as c')) a = runs_of (c_in_progress c') a" for as c'
    by (induction as arbitrary: c') auto
  then show ?thesis by (auto simp: tracked_def apply_backfill_def split: option.split)
qed

lemma untrack_all:
  "tracked (fold (\<lambda>a. untrack_in_progress_run a rid) ks c) b r \<longleftrightarrow> tracked c b r \<and> \<not> (b \<in> set ks \<and> r = rid)"
  by (induction ks arbitrary: c) auto

lemma tracked_evict:
  "tracked (evict_pending (rid, ks) c) b r \<longleftrightarrow> tracked c b r \<and> \<not> (b \<in> set ks \<and> r = rid)"
  by (simp add: evict_pending_def untrack_all) (simp add: tracked_def)

lemma pending_evict [simp]: "c_pending_runs (evict_pending (rid, ks) c) = AList.delete rid (c_pending_runs c)"
  by (simp add: evict_pending_def)
     (rule trans[OF fold_frame[where f = c_pending_runs]], simp_all add: untrack_in_progress_run_def)

lemma tracked_evictions:
  "tracked (fold evict_pending es c) b r \<longleftrightarrow> tracked c b r \<and> (\<forall>ks. (r, ks) \<in> set es \<longrightarrow> b \<notin> set ks)"
  by (induction es arbitrary: c) (auto simp: tracked_evict)

lemma pending_evictions:
  "map_of (c_pending_runs (fold evict_pending es c)) r =
     (if r \<in> fst ` set es then None else map_of (c_pending_runs c) r)"
  by (induction es arbitrary: c) (auto simp: delete_conv')

lemma map_of_deletes: "map_of (fold AList.delete ks m) r = (if r \<in> set ks then None else map_of m r)"
  by (induction ks arbitrary: m) (auto simp: delete_conv')

lemma tracked_apply:
  assumes "tracked (fst (apply_refresh_delta d c)) a rid"
  shows "((\<exists>pk. Push a rid pk \<in> set (d_in_progress d)) \<or> tracked c a rid \<and> ClearRun a rid \<notin> set (d_in_progress d)) \<and>
         (\<forall>ks. (rid, ks) \<in> set (d_evicted d) \<longrightarrow> a \<notin> set ks)"
proof -
  define c1 where "c1 = fold apply_change (d_in_progress d) (apply_records d (apply_action_watch d c))"
  have "tracked c1 a rid \<and> (\<forall>ks. (rid, ks) \<in> set (d_evicted d) \<longrightarrow> a \<notin> set ks)"
    using assms unfolding apply_refresh_delta_def fst_conv c1_def[symmetric] apply_pending_def tracked_evictions
    by (simp add: tracked_def) (simp add: tracked_def[symmetric], simp add: tracked_def)
  then show ?thesis using tracked_changes[of "d_in_progress d" "apply_records d (apply_action_watch d c)" a rid]
    unfolding c1_def by (simp add: tracked_def)
qed

lemma pending_apply:
  "map_of (c_pending_runs (fst (apply_refresh_delta d c))) rid =
     (if rid \<in> set (d_confirmed d) \<or> rid \<in> fst ` set (d_evicted d) then None else map_of (c_pending_runs c) rid)"
  unfolding apply_refresh_delta_def fst_conv apply_pending_def pending_evictions
  by (simp add: map_of_deletes)

section \<open>The plan phase\<close>

text \<open>The part of the plan that decides the guard.\<close>

definition guard_part :: "refresh_delta \<Rightarrow> in_progress_change list \<times> string list \<times> (string \<times> string list) list" where
  "guard_part d = (d_in_progress d, d_confirmed d, d_evicted d)"

definition plan_part :: "plan_state \<Rightarrow> (in_progress_change list \<times> string list \<times> (string \<times> string list) list) \<times> string set" where
  "plan_part s = (guard_part (pl_delta s), pl_swept s)"

lemma guard_part_effects: "guard_part (snd (apply_run_effects_to_delta c r d)) = guard_part d"
proof -
  have slot: "guard_part (queue_slot c r a pk d) = guard_part d" for a pk d
    by (simp add: queue_slot_def guard_part_def Let_def)
  have runs: "guard_part (queue_last_run_updates c r d) = guard_part d" for d
    unfolding queue_last_run_updates_def by (intro fold_frame slot)
  have checks: "guard_part (queue_action_partition_checks c ns pk d) = guard_part d" for ns pk d
    unfolding queue_action_partition_checks_def
    by (cases pk) (simp_all, rule fold_frame, simp add: guard_part_def)
  have asset: "guard_part (fold (asset_run_effects c r) ns d) = guard_part d" for ns d
    by (rule fold_frame) (auto simp: guard_part_def asset_run_effects_def Let_def)
  show ?thesis
    by (simp add: apply_run_effects_to_delta_def runs checks asset) (simp add: guard_part_def push_applied_def)
qed

lemma plan_part_simps [simp]:
  "plan_part (invalidate ks s) = plan_part s"
  "plan_part (add_actions ks s) = plan_part s"
  "plan_part (snd (apply_effects c r s)) = plan_part s"
  using guard_part_effects[of c r "pl_delta s"]
  by (auto simp: plan_part_def invalidate_def add_actions_def apply_effects_def split: prod.split)

definition changes :: "plan_state \<Rightarrow> in_progress_change set" where
  "changes s = set (d_in_progress (pl_delta s))"

definition clears :: "run_record \<Rightarrow> in_progress_change set" where
  "clears r = (\<lambda>a. ClearRun a (run_id r)) ` set (node_names r)"

lemma plan_partD:
  "plan_part s = plan_part t \<Longrightarrow> changes s = changes t \<and> pl_swept s = pl_swept t \<and>
     d_confirmed (pl_delta s) = d_confirmed (pl_delta t) \<and> d_evicted (pl_delta s) = d_evicted (pl_delta t)"
  by (simp add: plan_part_def guard_part_def changes_def)

lemmas part_simps [simp] =
  plan_partD[OF plan_part_simps(1), THEN conjunct1] plan_partD[OF plan_part_simps(2), THEN conjunct1]
  plan_partD[OF plan_part_simps(3), THEN conjunct1]
  plan_partD[OF plan_part_simps(1), THEN conjunct2, THEN conjunct1]
  plan_partD[OF plan_part_simps(2), THEN conjunct2, THEN conjunct1]
  plan_partD[OF plan_part_simps(3), THEN conjunct2, THEN conjunct1]

lemma completion_check_part: "plan_part (fst (completion_check c recs (s, x))) = plan_part s"
proof (induction recs arbitrary: s x)
  case (Cons rec recs)
  obtain completed ids unmoved where x: "x = (completed, ids, unmoved)" by (cases x)
  have "plan_part (on_delta (\<lambda>d. d\<lparr>d_records := rs\<rparr>) s) = plan_part s" for rs
    by (simp add: plan_part_def guard_part_def on_delta_def)
  moreover have "on_delta (\<lambda>d. d\<lparr>d_records := d_records d @ [rec]\<rparr>) s =
      on_delta (\<lambda>d. d\<lparr>d_records := d_records (pl_delta s) @ [rec]\<rparr>) s" by (simp add: on_delta_def)
  ultimately show ?case using Cons.IH by (simp add: x)
qed simp

lemma settle_part: "plan_part (fst (fold (settle_unmoved c m) ks acc)) = plan_part (fst acc)"
  by (rule fold_frame[where f = "plan_part \<circ> fst", simplified])
     (auto simp: settle_unmoved_def plan_part_def guard_part_def on_delta_def split: prod.split option.split)

lemma completed_part: "plan_part (fold (apply_completed c) rs s) = plan_part s"
  by (rule fold_frame) (simp add: apply_completed_def)

lemma sweep_step:
  "changes (fst (sweep_tracked c nt ids r acc)) = changes (fst acc) \<union> (if terminal r then clears r else {})"
  "pl_swept (fst (sweep_tracked c nt ids r acc)) = pl_swept (fst acc) \<union> (if terminal r then {run_id r} else {})"
proof -
  obtain s sa where acc: "acc = (s, sa)" by (cases acc)
  define s1 where "s1 = on_delta (\<lambda>d. clear_run r (push_applied r d)) (s\<lparr>pl_swept := insert (run_id r) (pl_swept s)\<rparr>)"
  have s1: "changes s1 = changes s \<union> clears r" "pl_swept s1 = insert (run_id r) (pl_swept s)"
    by (auto simp: s1_def changes_def clears_def on_delta_def clear_run_def push_applied_def)
  have "fst (sweep_tracked c nt ids r acc) =
      (if \<not> terminal r then s
       else if run_id r \<notin> nt \<and> run_id r \<notin> set ids \<and> c_applied_runs c (run_id r) = None
            then snd (apply_effects c r (invalidate (node_names r) s1)) else s1)"
    by (simp add: sweep_tracked_def acc s1_def Let_def case_prod_beta)
  then show "changes (fst (sweep_tracked c nt ids r acc)) = changes (fst acc) \<union> (if terminal r then clears r else {})"
    "pl_swept (fst (sweep_tracked c nt ids r acc)) = pl_swept (fst acc) \<union> (if terminal r then {run_id r} else {})"
    using s1 by (simp_all add: acc)
qed

lemma sweep_all:
  "changes (fst (fold (sweep_tracked c nt ids) rs acc)) = changes (fst acc) \<union> (\<Union>r \<in> {r \<in> set rs. terminal r}. clears r) \<and>
   pl_swept (fst (fold (sweep_tracked c nt ids) rs acc)) = pl_swept (fst acc) \<union> run_id ` {r \<in> set rs. terminal r}"
  by (induction rs arbitrary: acc) (auto simp: sweep_step split: if_splits)

lemma vanished_changes:
  "changes (clear_vanished c found s) = changes s \<union>
     (\<Union>(a, rs) \<in> set (c_in_progress c).
        ClearRun a ` {rid \<in> fst ` set rs. rid \<notin> found \<and> map_of (c_pending_runs c) rid = None})"
proof -
  define step where "step = (\<lambda>a (rid, pk :: partition_key option) s.
      if rid \<in> found \<or> map_of (c_pending_runs c) rid \<noteq> None then s
      else invalidate [a] (on_delta (\<lambda>d. d\<lparr>d_in_progress := d_in_progress d @ [ClearRun a rid]\<rparr>) s))"
  define gone where "gone = (\<lambda>a rs :: run_map.
      ClearRun a ` {rid \<in> fst ` set rs. rid \<notin> found \<and> map_of (c_pending_runs c) rid = None})"
  have one: "changes (step a (rid, pk) s) = changes s \<union>
      (if rid \<in> found \<or> map_of (c_pending_runs c) rid \<noteq> None then {} else {ClearRun a rid})" for a rid pk s
    by (simp add: step_def) (simp add: changes_def on_delta_def)
  have runs: "changes (fold (step a) rs s) = changes s \<union> gone a rs" for a rs s
    by (induction rs arbitrary: s) (auto simp: one gone_def split: if_splits)
  have "changes (fold (\<lambda>(a, rs). fold (step a) rs) ip s) = changes s \<union> (\<Union>(a, rs) \<in> set ip. gone a rs)" for ip
    by (induction ip arbitrary: s) (auto simp: runs)
  then show ?thesis unfolding clear_vanished_def step_def gone_def .
qed

lemma vanished_swept: "pl_swept (clear_vanished c found s) = pl_swept s"
  unfolding clear_vanished_def
  by (rule fold_frame, clarify, rule fold_frame, clarify) (simp add: invalidate_def on_delta_def)

text \<open>The confirmed and evicted runs of the plan.\<close>

definition pending_part :: "plan_state \<Rightarrow> string list \<times> (string \<times> string list) list" where
  "pending_part s = (d_confirmed (pl_delta s), d_evicted (pl_delta s))"

lemma pending_partD: "plan_part s = plan_part t \<Longrightarrow> pending_part s = pending_part t"
  by (simp add: plan_part_def guard_part_def pending_part_def)

lemmas pending_simps [simp] = pending_partD[OF plan_part_simps(1)] pending_partD[OF plan_part_simps(2)]
  pending_partD[OF plan_part_simps(3)]

lemma pending_clear [simp]:
  "pending_part (on_delta (\<lambda>d. clear_run r (push_applied r d)) s) = pending_part s"
  "pending_part (on_delta (clear_run r) s) = pending_part s"
  "pending_part (on_delta (push_applied r) s) = pending_part s"
  "pending_part (s\<lparr>pl_swept := x\<rparr>) = pending_part s"
  by (simp_all add: pending_part_def on_delta_def clear_run_def push_applied_def)

lemma sweep_pending: "pending_part (fst (fold (sweep_tracked c nt ids) rs acc)) = pending_part (fst acc)"
  by (rule fold_frame[where f = "pending_part \<circ> fst", simplified])
     (simp add: sweep_tracked_def case_prod_beta Let_def)

lemma vanished_pending: "pending_part (clear_vanished c found s) = pending_part s"
  unfolding clear_vanished_def
  by (rule fold_frame, clarify, rule fold_frame, clarify) (simp add: invalidate_def on_delta_def pending_part_def)

section \<open>Consistency of the run table\<close>

text \<open>
  The run table as the refresh reads it: the query for new runs sees the rows \<open>T0\<close>, the later
  queries by id see the rows \<open>T1\<close>. A run id names one row, and a run keeps its assets.
\<close>

definition run_reads :: "storage_reads \<Rightarrow> run_record set \<Rightarrow> run_record set \<Rightarrow> bool" where
  "run_reads S T0 T1 \<longleftrightarrow>
     (\<forall>t. \<exists>rs. s_runs_since S t None = Inr rs \<and> set rs \<subseteq> T0) \<and>
     (\<forall>ids. \<exists>rs. s_runs_by_ids S ids = Inr rs \<and> distinct (map run_id rs) \<and>
        set rs = {r \<in> T1. run_id r \<in> set ids}) \<and>
     (\<forall>r0 \<in> T0. \<forall>r1 \<in> T1. run_id r0 = run_id r1 \<longrightarrow> node_names r0 = node_names r1)"

text \<open>A tracked asset is one of the run's assets, as the row and the pending dispatch have them.\<close>

definition tracking_covered :: "run_record set \<Rightarrow> asset_cache \<Rightarrow> bool" where
  "tracking_covered T c \<longleftrightarrow>
     (\<forall>a rid. tracked c a rid \<longrightarrow>
        (\<forall>r \<in> T. run_id r = rid \<longrightarrow> a \<in> set (node_names r)) \<and>
        (\<forall>p. map_of (c_pending_runs c) rid = Some p \<longrightarrow> a \<in> set (pr_asset_keys p)))"

lemma vanished_detected:
  assumes "distinct (map run_id rs)" and "set rs = {r \<in> T. run_id r \<in> set ids}"
    and "rid \<in> set ids" and "rid \<notin> run_id ` T"
  shows "length rs < length ids"
proof -
  have "set (map run_id rs) \<subset> set ids" using assms by auto
  then have "card (set (map run_id rs)) < card (set ids)" by (rule psubset_card_mono[rotated]) simp
  then show ?thesis using assms(1) distinct_card card_length[of ids] by (metis le_trans length_map not_le)
qed

lemma tracked_entry: "tracked c a rid \<Longrightarrow> \<exists>rs. (a, rs) \<in> set (c_in_progress c) \<and> rid \<in> fst ` set rs"
  unfolding tracked_def runs_of_def by (cases "map_of (c_in_progress c) a") (auto dest!: map_of_SomeD intro: rev_image_eqI)

lemma tracked_in_ids: "tracked c a rid \<Longrightarrow> rid \<in> set (tracked_ids c)"
  by (drule tracked_entry) (force simp: tracked_ids_def)

lemma settle_shape: "settle_in_progress S c s0 = Inr (s, ids) \<Longrightarrow> plan_part s = plan_part s0"
  by (auto simp: settle_in_progress_def Let_def case_prod_beta settle_part completion_check_part)

lemma sweep_shape:
  assumes "sweep_in_progress S c nt s0 ids = Inr (s, sa)"
  shows "\<exists>rows. (if tracked_ids c = [] then Inr [] else s_runs_by_ids S (tracked_ids c)) = Inr rows \<and>
     changes s = changes s0 \<union> (\<Union>r \<in> {r \<in> set rows. terminal r}. clears r) \<union>
       (if length rows < length (tracked_ids c)
        then (\<Union>(a, rs) \<in> set (c_in_progress c).
                ClearRun a ` {rid \<in> fst ` set rs. rid \<notin> run_id ` set rows \<and> map_of (c_pending_runs c) rid = None})
        else {}) \<and>
     pl_swept s = pl_swept s0 \<union> run_id ` {r \<in> set rows. terminal r} \<and> pending_part s = pending_part s0"
proof -
  obtain rows where rows: "(if tracked_ids c = [] then Inr [] else s_runs_by_ids S (tracked_ids c)) = Inr rows"
    and s: "s = (let s1 = fst (fold (sweep_tracked c nt ids) rows (s0, {}))
                 in if length rows < length (tracked_ids c) then clear_vanished c (run_id ` set rows) s1 else s1)"
    using assms by (auto simp: sweep_in_progress_def Let_def case_prod_beta simp del: o_apply)
  show ?thesis
    using sweep_all[of c nt ids rows "(s0, {})"] sweep_pending[of c nt ids rows "(s0, {})"]
    by (intro exI[of _ rows] conjI rows) (simp_all add: s Let_def vanished_changes vanished_swept vanished_pending)
qed

lemma plan_in_progress_shape:
  assumes "plan_in_progress S c nt s0 = Inr s" and "c_in_progress c \<noteq> []"
  shows "\<exists>s1 ids s2 sa. settle_in_progress S c s0 = Inr (s1, ids) \<and>
     sweep_in_progress S c nt s1 ids = Inr (s2, sa) \<and> plan_part s = plan_part s2"
  using assms by (auto simp: plan_in_progress_def Let_def completed_part split: if_splits)

text \<open>What the first stage queues, in terms of the run table.\<close>

lemma plan_in_progress_guard:
  assumes reads: "run_reads S T0 T1" and cov: "tracking_covered T1 c"
    and plan: "plan_in_progress S c nt s0 = Inr s" and ne: "c_in_progress c \<noteq> []"
  shows "pending_part s = pending_part s0"
    and "Push a rid pk \<in> changes s \<longleftrightarrow> Push a rid pk \<in> changes s0"
    and "r \<in> T1 \<Longrightarrow> terminal r \<Longrightarrow> tracked c a (run_id r) \<Longrightarrow>
           run_id r \<in> pl_swept s \<and> ClearRun a (run_id r) \<in> changes s"
    and "tracked c a rid \<Longrightarrow> rid \<notin> run_id ` T1 \<Longrightarrow> map_of (c_pending_runs c) rid = None \<Longrightarrow>
           ClearRun a rid \<in> changes s"
proof -
  obtain s1 ids s2 sa where st: "settle_in_progress S c s0 = Inr (s1, ids)"
    and sp: "sweep_in_progress S c nt s1 ids = Inr (s2, sa)" and part: "plan_part s = plan_part s2"
    using plan_in_progress_shape[OF plan ne] by blast
  note parts = plan_partD[OF part] pending_partD[OF part]
    plan_partD[OF settle_shape[OF st]] pending_partD[OF settle_shape[OF st]]
  obtain rows where rows: "(if tracked_ids c = [] then Inr [] else s_runs_by_ids S (tracked_ids c)) = Inr rows"
    and ch: "changes s2 = changes s1 \<union> (\<Union>r \<in> {r \<in> set rows. terminal r}. clears r) \<union>
     (if length rows < length (tracked_ids c)
      then (\<Union>(a, rs) \<in> set (c_in_progress c).
              ClearRun a ` {rid \<in> fst ` set rs. rid \<notin> run_id ` set rows \<and> map_of (c_pending_runs c) rid = None})
      else {})"
    and sw: "pl_swept s2 = pl_swept s1 \<union> run_id ` {r \<in> set rows. terminal r}" and pp: "pending_part s2 = pending_part s1"
    using sweep_shape[OF sp] by blast
  obtain rs where "s_runs_by_ids S (tracked_ids c) = Inr rs" "distinct (map run_id rs)"
      "set rs = {r \<in> T1. run_id r \<in> set (tracked_ids c)}"
    using reads unfolding run_reads_def by blast
  then have R: "distinct (map run_id rows)" "set rows = {r \<in> T1. run_id r \<in> set (tracked_ids c)}"
    using rows by (auto split: if_splits)
  show "pending_part s = pending_part s0" using parts pp by simp
  show "Push a rid pk \<in> changes s \<longleftrightarrow> Push a rid pk \<in> changes s0" using parts ch by (auto simp: clears_def)
  { assume r: "r \<in> T1" "terminal r" "tracked c a (run_id r)"
    then have "r \<in> set rows" using tracked_in_ids R(2) by blast
    moreover have "a \<in> set (node_names r)" using cov r unfolding tracking_covered_def by blast
    ultimately show "run_id r \<in> pl_swept s \<and> ClearRun a (run_id r) \<in> changes s"
      using parts ch sw r(2) by (auto simp: clears_def) }
  { assume r: "tracked c a rid" "rid \<notin> run_id ` T1" "map_of (c_pending_runs c) rid = None"
    then have "length rows < length (tracked_ids c)"
      using vanished_detected[OF R] tracked_in_ids by blast
    moreover have "rid \<notin> run_id ` set rows" using R(2) r(2) by auto
    moreover obtain rs where e: "(a, rs) \<in> set (c_in_progress c)" "rid \<in> fst ` set rs"
      using tracked_entry[OF r(1)] by blast
    ultimately have "ClearRun a rid \<in> changes s2"
      unfolding ch using UN_I[OF e(1), of "ClearRun a rid"] e(2) r(3) by simp
    then show "ClearRun a rid \<in> changes s" using parts by simp }
qed

text \<open>The second stage queues no change; the third queues those of the new runs.\<close>

lemma plan_actions_guard:
  assumes "plan_actions S c nt s0 = Inr s"
  shows "changes s = changes s0" and "pending_part s = pending_part s0" and "pl_swept s0 \<subseteq> pl_swept s"
proof -
  have sweep: "changes (sweep_action c nt r s) = changes s \<and> pending_part (sweep_action c nt r s) = pending_part s \<and>
      pl_swept s \<subseteq> pl_swept (sweep_action c nt r s)" for r s
    by (auto simp: sweep_action_def Let_def)
       (auto simp: changes_def pending_part_def on_delta_def push_applied_def)
  have checks: "guard_part (queue_action_partition_checks c ns pk d) = guard_part d" for ns pk d
    unfolding queue_action_partition_checks_def
    by (cases pk) (simp_all, rule fold_frame, simp add: guard_part_def)
  have drop: "plan_part (drop_vanished_action c found e s) = plan_part s" for found e s
    by (auto simp: drop_vanished_action_def split: prod.split)
       (simp add: plan_part_def on_delta_def checks, simp add: guard_part_def add_actions_def invalidate_def)
  have sweeps: "changes (fold (sweep_action c nt) rs s) = changes s \<and> pending_part (fold (sweep_action c nt) rs s) = pending_part s \<and>
      pl_swept s \<subseteq> pl_swept (fold (sweep_action c nt) rs s)" for rs s
    by (induction rs arbitrary: s) (use sweep in \<open>auto, blast\<close>)
  have drops: "plan_part (fold (drop_vanished_action c found) es s) = plan_part s" for found es s
    by (rule fold_frame) (rule drop)
  show "changes s = changes s0" "pending_part s = pending_part s0" "pl_swept s0 \<subseteq> pl_swept s"
    using assms sweeps plan_partD[OF drops] pending_partD[OF drops]
    by (auto simp: plan_actions_def Let_def split: if_splits) (use sweeps in blast)+
qed

definition pushes :: "run_record \<Rightarrow> in_progress_change set" where
  "pushes r = (\<lambda>a. Push a (run_id r) (run_partition_key r)) ` set (node_names r)"

lemma plan_new_run_guard:
  "changes (plan_new_run c r s) = changes s \<union>
     (if terminal r then clears r else if run_id r \<in> pl_swept s \<or> is_action r then {} else pushes r)"
  "pl_swept (plan_new_run c r s) = pl_swept s"
  "pending_part (plan_new_run c r s) = (d_confirmed (pl_delta s) @ [run_id r], d_evicted (pl_delta s))"
proof -
  define s1 where "s1 = on_delta (\<lambda>d. d\<lparr>d_confirmed := d_confirmed d @ [run_id r]\<rparr>) s"
  have s1: "changes s1 = changes s" "pl_swept s1 = pl_swept s"
    "pending_part s1 = (d_confirmed (pl_delta s) @ [run_id r], d_evicted (pl_delta s))"
    by (simp_all add: s1_def changes_def pending_part_def on_delta_def)
  have clear: "changes (on_delta (clear_run r) t) = changes t \<union> clears r" "pl_swept (on_delta (clear_run r) t) = pl_swept t" for t
    by (auto simp: changes_def clears_def on_delta_def clear_run_def)
  have applied: "changes (on_delta (push_applied r) t) = changes t" "pl_swept (on_delta (push_applied r) t) = pl_swept t" for t
    by (auto simp: changes_def on_delta_def push_applied_def)
  have push: "changes (on_delta (push_runs r) t) = changes t \<union> pushes r" "pl_swept (on_delta (push_runs r) t) = pl_swept t"
    "pending_part (on_delta (push_runs r) t) = pending_part t" for t
    by (auto simp: changes_def pushes_def on_delta_def push_runs_def pending_part_def)
  have track: "changes (on_delta (\<lambda>d. d\<lparr>d_track_actions := f d\<rparr>) t) = changes t"
    "pl_swept (on_delta (\<lambda>d. d\<lparr>d_track_actions := f d\<rparr>) t) = pl_swept t"
    "pending_part (on_delta (\<lambda>d. d\<lparr>d_track_actions := f d\<rparr>) t) = pending_part t" for t f
    by (auto simp: changes_def on_delta_def pending_part_def)
  show "changes (plan_new_run c r s) = changes s \<union>
      (if terminal r then clears r else if run_id r \<in> pl_swept s \<or> is_action r then {} else pushes r)"
    "pl_swept (plan_new_run c r s) = pl_swept s"
    "pending_part (plan_new_run c r s) = (d_confirmed (pl_delta s) @ [run_id r], d_evicted (pl_delta s))"
    by (simp_all add: plan_new_run_def Let_def s1_def[symmetric] s1 clear applied push track)
qed

lemma plan_new_runs_guard:
  "changes (plan_new_runs c rs s) = changes s \<union>
     (\<Union>r \<in> set rs. if terminal r then clears r else if run_id r \<in> pl_swept s \<or> is_action r then {} else pushes r)"
  "pending_part (plan_new_runs c rs s) = (d_confirmed (pl_delta s) @ map run_id rs, d_evicted (pl_delta s))"
proof -
  define step where "step = (\<lambda>sw r. if terminal r then clears r else if run_id r \<in> sw \<or> is_action r then {} else pushes r)"
  have all: "changes (fold (plan_new_run c) rs s) = changes s \<union> (\<Union>r \<in> set rs. step (pl_swept s) r) \<and>
      pending_part (fold (plan_new_run c) rs s) = (d_confirmed (pl_delta s) @ map run_id rs, d_evicted (pl_delta s))" for rs s
  proof (induction rs arbitrary: s)
    case (Cons r rs)
    have "d_confirmed (pl_delta (plan_new_run c r s)) = d_confirmed (pl_delta s) @ [run_id r]"
      "d_evicted (pl_delta (plan_new_run c r s)) = d_evicted (pl_delta s)"
      using plan_new_run_guard(3)[of c r s] by (simp_all add: pending_part_def)
    then show ?case using Cons.IH[of "plan_new_run c r s"]
      by (simp add: plan_new_run_guard(1,2) step_def[symmetric] Un_assoc)
         (simp add: step_def)
  qed (simp add: pending_part_def)
  have flag: "changes (on_delta (\<lambda>d. d\<lparr>d_changed := True\<rparr>) t) = changes t" "pl_swept (on_delta (\<lambda>d. d\<lparr>d_changed := True\<rparr>) t) = pl_swept t"
    "d_confirmed (pl_delta (on_delta (\<lambda>d. d\<lparr>d_changed := True\<rparr>) t)) = d_confirmed (pl_delta t)"
    "d_evicted (pl_delta (on_delta (\<lambda>d. d\<lparr>d_changed := True\<rparr>) t)) = d_evicted (pl_delta t)"
    "changes (on_delta (\<lambda>d. d\<lparr>d_last_seen := x\<rparr>) t) = changes t"
    "pending_part (on_delta (\<lambda>d. d\<lparr>d_last_seen := x\<rparr>) t) = pending_part t" for t x
    by (auto simp: changes_def on_delta_def pending_part_def)
  define s' where "s' = (if has_new_work c (pl_swept s) rs then on_delta (\<lambda>d. d\<lparr>d_changed := True\<rparr>) s else s)"
  have s': "changes s' = changes s" "pl_swept s' = pl_swept s" "d_confirmed (pl_delta s') = d_confirmed (pl_delta s)"
    "d_evicted (pl_delta s') = d_evicted (pl_delta s)" by (simp_all add: s'_def flag)
  have "rs = [] \<and> plan_new_runs c rs s = s \<or>
      (\<exists>x. plan_new_runs c rs s = on_delta (\<lambda>d. d\<lparr>d_last_seen := x\<rparr>) (fold (plan_new_run c) rs s'))"
    by (cases rs) (auto simp: plan_new_runs_def s'_def)
  then have "changes (plan_new_runs c rs s) = changes s \<union> (\<Union>r \<in> set rs. step (pl_swept s) r) \<and>
      pending_part (plan_new_runs c rs s) = (d_confirmed (pl_delta s) @ map run_id rs, d_evicted (pl_delta s))"
    using all[of rs s'] s' by (elim disjE exE conjE) (simp_all add: flag, simp add: pending_part_def)
  then show "changes (plan_new_runs c rs s) = changes s \<union>
     (\<Union>r \<in> set rs. if terminal r then clears r else if run_id r \<in> pl_swept s \<or> is_action r then {} else pushes r)"
    "pending_part (plan_new_runs c rs s) = (d_confirmed (pl_delta s) @ map run_id rs, d_evicted (pl_delta s))"
    unfolding step_def by blast+
qed

lemma plan_lookups_guard:
  "plan_failures S s = Inr t \<Longrightarrow> plan_part t = plan_part s"
  "plan_deletions S c s = Inr t \<Longrightarrow> plan_part t = plan_part s"
  "plan_invalidated S c s = Inr t \<Longrightarrow> plan_part t = plan_part s"
proof -
  have "guard_part (note_deletion c m a d) = guard_part d" for m a d
    by (auto simp: note_deletion_def guard_part_def Let_def split: option.split)
  then have "guard_part (fold (note_deletion c m) as d) = guard_part d" for m as d by (intro fold_frame)
  then show "plan_deletions S c s = Inr t \<Longrightarrow> plan_part t = plan_part s"
    by (auto simp: plan_deletions_def plan_part_def on_delta_def split: if_splits)
qed (auto simp: plan_failures_def plan_invalidated_def plan_part_def on_delta_def guard_part_def Let_def split: if_splits)

lemma observe_guard:
  assumes "fetch_refresh_observations_delta S c d = Inr d'"
  shows "set (d_in_progress d) \<subseteq> set (d_in_progress d') \<and> set (d_in_progress d') \<subseteq> set (d_in_progress d) \<union> range AssetClear \<and>
     d_confirmed d' = d_confirmed d \<and> d_evicted d' = d_evicted d"
proof -
  have "set (d_in_progress d) \<subseteq> set (d_in_progress (fold (observe_record c ks) recs d)) \<and>
     set (d_in_progress (fold (observe_record c ks) recs d)) \<subseteq> set (d_in_progress d) \<union> range AssetClear \<and>
     d_confirmed (fold (observe_record c ks) recs d) = d_confirmed d \<and> d_evicted (fold (observe_record c ks) recs d) = d_evicted d" for ks recs
    by (rule fold_keeps[where P = "\<lambda>d'. set (d_in_progress d) \<subseteq> set (d_in_progress d') \<and>
           set (d_in_progress d') \<subseteq> set (d_in_progress d) \<union> range AssetClear \<and>
           d_confirmed d' = d_confirmed d \<and> d_evicted d' = d_evicted d"])
       (auto simp: observe_record_def)
  note obs = this
  have "d' = d \<or> (\<exists>ks recs x. d' = (fold (observe_record c ks) recs d)\<lparr>d_last_observation := x\<rparr>)"
    using assms unfolding fetch_refresh_observations_delta_def Let_def res_bind_Inr
    by (elim exE conjE, split if_split_asm) (auto simp only: res_bind_Inr Inr_inject)
  then show ?thesis
  proof (elim disjE exE)
    fix ks recs x
    assume "d' = (fold (observe_record c ks) recs d)\<lparr>d_last_observation := x\<rparr>"
    then show ?thesis using obs[of ks recs] by simp
  qed simp
qed

section \<open>The guard after a refresh\<close>

text \<open>All other reads of a refresh succeed.\<close>

definition reads_answer :: "storage_reads \<Rightarrow> bool" where
  "reads_answer S \<longleftrightarrow>
     (\<forall>ks. \<exists>x. s_records_by_keys S ks = Inr x) \<and> (\<forall>ks ids. \<exists>x. s_step_outcomes S ks ids = Inr x) \<and>
     (\<forall>ks ids. \<exists>x. s_materialized_by_runs S ks ids = Inr x) \<and> (\<exists>x. s_deletion_ts S = Inr x) \<and>
     (\<forall>t. \<exists>x. s_observations_since S t = Inr x) \<and> (\<forall>st. \<exists>x. s_backfills S st = Inr x) \<and>
     (\<forall>a t. \<exists>x. s_partition_ts_since S a t = Inr x) \<and> (\<forall>a ks. \<exists>x. s_partition_rows S a ks = Inr x) \<and>
     (\<forall>a. \<exists>x. s_in_progress_partitions S a = Inr x) \<and> (\<forall>a m. \<exists>x. s_failed_partitions S a m = Inr x)"

lemma res_bind_total: "(\<exists>x. m = Inr x) \<Longrightarrow> (\<And>x. m = Inr x \<Longrightarrow> \<exists>y. f x = Inr y) \<Longrightarrow> \<exists>y. res_bind m f = Inr y"
  by auto

lemma fetch_patches_total:
  assumes "reads_answer S"
  shows "\<exists>ps. fetch_patches S c ac rc rl as = Inr ps"
proof (induction as)
  case (Cons a as)
  have "\<exists>p. fetch_patch S ac rc rl a cur = Inr p" for cur
    using assms unfolding fetch_patch_def Let_def reads_answer_def by (intro res_bind_total) auto
  then show ?case using Cons.IH by (auto split: option.split simp del: res_bind_Inr intro!: res_bind_total)
qed simp

lemma records_total: "reads_answer S \<Longrightarrow> \<exists>rs. fetch_records_with_downstream S c ks = Inr rs"
  by (auto simp: fetch_records_with_downstream_def reads_answer_def Let_def)

lemma plan_total:
  assumes "run_reads S T0 T1" and "reads_answer S"
  shows "\<exists>s. plan_in_progress S c nt s0 = Inr s" and "\<exists>s. plan_actions S c nt s0 = Inr s"
    and "\<exists>s. plan_failures S s0 = Inr s" and "\<exists>s. plan_deletions S c s0 = Inr s"
    and "\<exists>s. plan_invalidated S c s0 = Inr s" and "\<exists>d. plan_backfills S c d0 = Inr d"
    and "\<exists>d. fetch_refresh_observations_delta S c d0 = Inr d"
proof -
  have ids: "\<exists>rs. s_runs_by_ids S xs = Inr rs" for xs using assms(1) by (auto simp: run_reads_def)
  show "\<exists>s. plan_in_progress S c nt s0 = Inr s"
    unfolding plan_in_progress_def settle_in_progress_def sweep_in_progress_def Let_def case_prod_beta
    using ids assms(2) by (auto simp del: res_bind_Inr simp: reads_answer_def intro!: res_bind_total)
  show "\<exists>s. plan_actions S c nt s0 = Inr s" "\<exists>s. plan_failures S s0 = Inr s" "\<exists>s. plan_deletions S c s0 = Inr s"
    unfolding plan_actions_def plan_failures_def plan_deletions_def Let_def
    using ids assms(2) by (auto simp del: res_bind_Inr simp: reads_answer_def intro!: res_bind_total)
  show "\<exists>s. plan_invalidated S c s0 = Inr s"
    unfolding plan_invalidated_def Let_def
    using records_total[OF assms(2)] fetch_patches_total[OF assms(2)]
    by (auto simp del: res_bind_Inr intro!: res_bind_total)
  show "\<exists>d. plan_backfills S c d0 = Inr d"
    unfolding plan_backfills_def load_active_backfills_def
    using assms(2) by (auto simp del: res_bind_Inr simp: reads_answer_def intro!: res_bind_total)
  show "\<exists>d. fetch_refresh_observations_delta S c d0 = Inr d"
    unfolding fetch_refresh_observations_delta_def Let_def
    using assms(2) records_total[OF assms(2)] by (auto simp del: res_bind_Inr simp: reads_answer_def intro!: res_bind_total)
qed

lemma first_stage_guard:
  assumes "run_reads S T0 T1" and "tracking_covered T1 c" and "plan_in_progress S c nt s0 = Inr s"
  shows "pending_part s = pending_part s0 \<and> (\<forall>a rid pk. Push a rid pk \<in> changes s \<longleftrightarrow> Push a rid pk \<in> changes s0) \<and>
    (\<forall>r \<in> T1. \<forall>a. terminal r \<longrightarrow> tracked c a (run_id r) \<longrightarrow>
       run_id r \<in> pl_swept s \<and> ClearRun a (run_id r) \<in> changes s) \<and>
    (\<forall>a rid. tracked c a rid \<longrightarrow> rid \<notin> run_id ` T1 \<longrightarrow> map_of (c_pending_runs c) rid = None \<longrightarrow>
       ClearRun a rid \<in> changes s)"
proof (cases "c_in_progress c = []")
  case True
  then have "s = s0" "\<not> tracked c a rid" for a rid
    using assms(3) tracked_entry[of c a rid] by (auto simp: plan_in_progress_def)
  then show ?thesis by simp
next
  case False
  show ?thesis
    using plan_in_progress_guard(1,2)[OF assms False] plan_in_progress_guard(3,4)[OF assms False] by blast
qed

text \<open>What the plan of a refresh says about the guard, with \<open>rs\<close> the new runs it saw.\<close>

definition guard_plan ::
  "run_record set \<Rightarrow> run_record set \<Rightarrow> int \<Rightarrow> asset_cache \<Rightarrow> run_record list \<Rightarrow> refresh_delta \<Rightarrow> bool" where
  "guard_plan T0 T1 tnow c rs d \<longleftrightarrow>
     set rs \<subseteq> T0 \<and> d_confirmed d = map run_id rs \<and>
     d_evicted d = map (\<lambda>(rid, p). (rid, pr_asset_keys p))
       (filter (\<lambda>(rid, p). rid \<notin> run_id ` set rs \<and> tnow - first_seen_ts p > c_pending_grace c) (c_pending_runs c)) \<and>
     (\<forall>a rid pk. Push a rid pk \<in> set (d_in_progress d) \<longrightarrow>
        (\<exists>r \<in> set rs. run_id r = rid \<and> \<not> terminal r \<and> a \<in> set (node_names r)) \<and>
        (\<forall>r \<in> T1. tracked c a rid \<longrightarrow> run_id r = rid \<longrightarrow> \<not> terminal r)) \<and>
     (\<forall>r \<in> T1. \<forall>a. terminal r \<longrightarrow> tracked c a (run_id r) \<longrightarrow> ClearRun a (run_id r) \<in> set (d_in_progress d)) \<and>
     (\<forall>a rid. tracked c a rid \<longrightarrow> rid \<notin> run_id ` T1 \<longrightarrow> map_of (c_pending_runs c) rid = None \<longrightarrow>
        ClearRun a rid \<in> set (d_in_progress d)) \<and>
     (\<forall>r \<in> set rs. \<forall>a. terminal r \<longrightarrow> a \<in> set (node_names r) \<longrightarrow> ClearRun a (run_id r) \<in> set (d_in_progress d))"

lemma fetch_guard:
  assumes reads: "run_reads S T0 T1" and cov: "tracking_covered T1 c" and fetch: "fetch_refresh_delta S tnow c = Inr d"
  shows "\<exists>rs. guard_plan T0 T1 tnow c rs d"
proof -
  obtain rs where rs: "s_runs_since S (c_last_seen_run_ts c) None = Inr rs" "set rs \<subseteq> T0"
    using reads unfolding run_reads_def by blast
  define s0 where "s0 = \<lparr>pl_delta = empty_delta\<lparr>d_clear_tick := True\<rparr>,
                 pl_invalidated = concat (map node_names (filter (\<lambda>r. terminal r \<and> c_applied_runs c (run_id r) = None) rs)),
                 pl_swept = {}, pl_actions = []\<rparr>"
  have s0: "changes s0 = {}" "pending_part s0 = ([], [])"
    by (simp_all add: s0_def changes_def pending_part_def empty_delta_def)
  obtain s1 s2 s3 s4 s5 d6 d7 where st: "plan_in_progress S c (run_id ` set (filter terminal rs)) s0 = Inr s1"
    "plan_actions S c (run_id ` set (filter terminal rs)) s1 = Inr s2" "plan_failures S (plan_new_runs c rs s2) = Inr s3"
    "plan_deletions S c s3 = Inr s4" "plan_invalidated S c s4 = Inr s5" "plan_backfills S c (pl_delta s5) = Inr d6"
    "fetch_refresh_observations_delta S c d6 = Inr d7" "d = plan_evictions c tnow d7"
    using fetch rs(1) unfolding fetch_refresh_delta_def Let_def s0_def by auto
  note one = first_stage_guard[OF reads cov st(1)]
  note two = plan_actions_guard[OF st(2)]
  have three: "plan_part s5 = plan_part (plan_new_runs c rs s2)"
    using plan_lookups_guard(1)[OF st(3)] plan_lookups_guard(2)[OF st(4)] plan_lookups_guard(3)[OF st(5)] by simp
  have d6: "guard_part d6 = guard_part (pl_delta s5)"
    using st(6) by (auto simp: plan_backfills_def guard_part_def split: if_splits)
  note obs = observe_guard[OF st(7)]
  have pend: "d_confirmed d7 = map run_id rs" "d_evicted d7 = []"
    using obs d6 plan_partD[OF three] plan_new_runs_guard(2)[of c rs s2] one two(2) s0(2)
    by (simp_all add: guard_part_def pending_part_def)
  have ch: "changes (plan_new_runs c rs s2) \<subseteq> set (d_in_progress d)"
    "set (d_in_progress d) \<subseteq> changes (plan_new_runs c rs s2) \<union> range AssetClear"
    using obs d6 plan_partD[OF three] st(8) by (auto simp: guard_part_def changes_def plan_evictions_def Let_def)
  note new = plan_new_runs_guard(1)[of c rs s2]
  have pushed: "(\<exists>r \<in> set rs. run_id r = rid \<and> \<not> terminal r \<and> a \<in> set (node_names r)) \<and>
      (\<forall>r \<in> T1. tracked c a rid \<longrightarrow> run_id r = rid \<longrightarrow> \<not> terminal r)"
    if "Push a rid pk \<in> set (d_in_progress d)" for a rid pk
  proof -
    have "Push a rid pk \<in> changes (plan_new_runs c rs s2)" using ch(2) that by blast
    moreover have "Push a rid pk \<notin> changes s2" using one two(1) s0(1) by simp
    ultimately obtain r where "r \<in> set rs" "\<not> terminal r" "run_id r \<notin> pl_swept s2" "Push a rid pk \<in> pushes r"
      unfolding new by (auto simp: clears_def split: if_splits)
    moreover have "run_id r1 \<in> pl_swept s2" if "r1 \<in> T1" "terminal r1" "tracked c a (run_id r1)" for r1
      using one two(3) that by blast
    ultimately show ?thesis by (auto simp: pushes_def) metis
  qed
  have cleared: "ClearRun a (run_id r) \<in> set (d_in_progress d)" if "r \<in> set rs" "terminal r" "a \<in> set (node_names r)" for r a
  proof -
    have "ClearRun a (run_id r) \<in> changes (plan_new_runs c rs s2)"
      unfolding new using that by (auto simp: clears_def intro!: bexI[of _ r])
    then show ?thesis using ch(1) by blast
  qed
  have "changes s1 \<subseteq> set (d_in_progress d)" using two(1) new ch(1) by blast
  then have "guard_plan T0 T1 tnow c rs d"
    unfolding guard_plan_def using rs(2) pend st(8) pushed cleared one
    by (intro conjI) (simp_all add: plan_evictions_def Let_def, blast+)
  then show ?thesis ..
qed

text \<open>
  Why a run may stay tracked after a refresh: its row is live; or the query for new runs saw it live
  and the later queries cannot contradict that (the run was not tracked before, or its row is gone);
  or it was dispatched less than the grace period ago and its row is awaited.
\<close>

definition guard_justified :: "run_record set \<Rightarrow> run_record set \<Rightarrow> int \<Rightarrow> asset_cache \<Rightarrow> asset_cache \<Rightarrow> string \<Rightarrow> string \<Rightarrow> bool" where
  "guard_justified T0 T1 tnow c c' a rid \<longleftrightarrow>
     (\<exists>r \<in> T1. run_id r = rid \<and> \<not> terminal r) \<or>
     (\<exists>r \<in> T0. run_id r = rid \<and> \<not> terminal r \<and> (\<not> tracked c a rid \<or> rid \<notin> run_id ` T1)) \<or>
     (\<exists>p. map_of (c_pending_runs c') rid = Some p \<and> tnow - first_seen_ts p \<le> c_pending_grace c)"

lemma pending_justified:
  assumes cov: "tracking_covered (T0 \<union> T1) c" and dist: "distinct (map fst (c_pending_runs c))"
    and plan: "guard_plan T0 T1 tnow c rs d"
    and tr: "tracked c a rid" "ClearRun a rid \<notin> set (d_in_progress d)" "rid \<notin> run_id ` T1"
    and p: "map_of (c_pending_runs c) rid = Some p" and kept: "\<forall>ks. (rid, ks) \<in> set (d_evicted d) \<longrightarrow> a \<notin> set ks"
  shows "guard_justified T0 T1 tnow c (fst (apply_refresh_delta d c)) a rid"
proof (cases "rid \<in> run_id ` set rs")
  case True
  then obtain r where r: "r \<in> set rs" "run_id r = rid" by blast
  have T0: "r \<in> T0" using plan r(1) unfolding guard_plan_def by blast
  then have "a \<in> set (node_names r)" using cov tr(1) r(2) unfolding tracking_covered_def by blast
  then have "\<not> terminal r" using plan r tr(2) unfolding guard_plan_def by blast
  then show ?thesis using r T0 tr(3) unfolding guard_justified_def by blast
next
  case False
  have a: "a \<in> set (pr_asset_keys p)" using cov tr(1) p unfolding tracking_covered_def by blast
  have ev: "d_evicted d = map (\<lambda>(rid, p). (rid, pr_asset_keys p))
      (filter (\<lambda>(rid, p). rid \<notin> run_id ` set rs \<and> tnow - first_seen_ts p > c_pending_grace c) (c_pending_runs c))"
    using plan unfolding guard_plan_def by blast
  have grace: "\<not> tnow - first_seen_ts p > c_pending_grace c"
  proof
    assume "tnow - first_seen_ts p > c_pending_grace c"
    then have "(rid, pr_asset_keys p) \<in> set (d_evicted d)"
      unfolding ev using False map_of_SomeD[OF p] by (auto intro!: image_eqI[of _ _ "(rid, p)"])
    then show False using kept a by blast
  qed
  have "q = p" if "(rid, q) \<in> set (c_pending_runs c)" for q
    using map_of_is_SomeI[OF dist that] p by simp
  then have "rid \<notin> fst ` set (d_evicted d)" unfolding ev using grace by auto
  moreover have "rid \<notin> set (d_confirmed d)" using plan False unfolding guard_plan_def by auto
  ultimately show ?thesis using p grace unfolding guard_justified_def pending_apply by auto
qed

lemma guard_plan_push:
  assumes "guard_plan T0 T1 tnow c rs d" and "Push a rid pk \<in> set (d_in_progress d)"
  obtains r where "r \<in> set rs" "r \<in> T0" "run_id r = rid" "\<not> terminal r" "a \<in> set (node_names r)"
    "\<forall>r \<in> T1. tracked c a rid \<longrightarrow> run_id r = rid \<longrightarrow> \<not> terminal r"
proof -
  have sub: "set rs \<subseteq> T0" and all: "\<forall>a rid pk. Push a rid pk \<in> set (d_in_progress d) \<longrightarrow>
        (\<exists>r \<in> set rs. run_id r = rid \<and> \<not> terminal r \<and> a \<in> set (node_names r)) \<and>
        (\<forall>r \<in> T1. tracked c a rid \<longrightarrow> run_id r = rid \<longrightarrow> \<not> terminal r)"
    using assms(1) unfolding guard_plan_def by - (elim conjE, assumption)+
  from all[rule_format, OF assms(2)] sub show thesis using that by (elim conjE bexE) (rule that, auto)
qed

lemma guard_plan_swept:
  "guard_plan T0 T1 tnow c rs d \<Longrightarrow> r \<in> T1 \<Longrightarrow> terminal r \<Longrightarrow> tracked c a (run_id r) \<Longrightarrow>
     ClearRun a (run_id r) \<in> set (d_in_progress d)"
  by (simp add: guard_plan_def)

lemma guard_plan_gone:
  "guard_plan T0 T1 tnow c rs d \<Longrightarrow> tracked c a rid \<Longrightarrow> rid \<notin> run_id ` T1 \<Longrightarrow>
     map_of (c_pending_runs c) rid = None \<Longrightarrow> ClearRun a rid \<in> set (d_in_progress d)"
  by (simp add: guard_plan_def)

lemma apply_justified:
  assumes "tracking_covered (T0 \<union> T1) c" and "distinct (map fst (c_pending_runs c))" and plan: "guard_plan T0 T1 tnow c rs d"
    and tr: "tracked (fst (apply_refresh_delta d c)) a rid"
  shows "guard_justified T0 T1 tnow c (fst (apply_refresh_delta d c)) a rid"
proof -
  consider (push) pk where "Push a rid pk \<in> set (d_in_progress d)"
    | (old) "tracked c a rid" "ClearRun a rid \<notin> set (d_in_progress d)" "\<forall>ks. (rid, ks) \<in> set (d_evicted d) \<longrightarrow> a \<notin> set ks"
    using tracked_apply[OF tr] by blast
  then show ?thesis
  proof cases
    case push
    obtain r where r: "r \<in> T0" "run_id r = rid" "\<not> terminal r"
      and live: "\<forall>r \<in> T1. tracked c a rid \<longrightarrow> run_id r = rid \<longrightarrow> \<not> terminal r"
      using guard_plan_push[OF plan push] by blast
    show ?thesis
    proof (cases "tracked c a rid \<and> rid \<in> run_id ` T1")
      case True
      then show ?thesis using live unfolding guard_justified_def by blast
    qed (use r in \<open>unfold guard_justified_def, blast\<close>)
  next
    case old
    show ?thesis
    proof (cases "rid \<in> run_id ` T1")
      case True
      then obtain r where r: "r \<in> T1" "run_id r = rid" by blast
      then have "\<not> terminal r" using guard_plan_swept[OF plan r(1)] old(1,2) by auto
      then show ?thesis using r unfolding guard_justified_def by blast
    next
      case False
      then obtain p where "map_of (c_pending_runs c) rid = Some p"
        using guard_plan_gone[OF plan old(1) False] old(2) by blast
      then show ?thesis using pending_justified[OF assms(1-3) old(1,2) False] old(3) by blast
    qed
  qed
qed

lemma apply_covered:
  assumes reads: "run_reads S T0 T1" and cov: "tracking_covered (T0 \<union> T1) c" and plan: "guard_plan T0 T1 tnow c rs d"
    and one: "inj_on run_id T0"
  shows "tracking_covered (T0 \<union> T1) (fst (apply_refresh_delta d c))"
  unfolding tracking_covered_def
proof (intro allI impI)
  fix a rid
  assume "tracked (fst (apply_refresh_delta d c)) a rid"
  then consider (push) pk where "Push a rid pk \<in> set (d_in_progress d)" | (old) "tracked c a rid"
    using tracked_apply by blast
  then show "(\<forall>r \<in> T0 \<union> T1. run_id r = rid \<longrightarrow> a \<in> set (node_names r)) \<and>
      (\<forall>p. map_of (c_pending_runs (fst (apply_refresh_delta d c))) rid = Some p \<longrightarrow> a \<in> set (pr_asset_keys p))"
  proof cases
    case push
    obtain r where r: "r \<in> set rs" "run_id r = rid" "a \<in> set (node_names r)" and T0: "r \<in> T0"
      using guard_plan_push[OF plan push] by blast
    then have "rid \<in> set (d_confirmed d)" using plan unfolding guard_plan_def by auto
    moreover have "a \<in> set (node_names r')" if "r' \<in> T0 \<union> T1" "run_id r' = rid" for r'
      using that r T0 reads one unfolding run_reads_def inj_on_def by (metis Un_iff)
    ultimately show ?thesis by (simp add: pending_apply)
  next
    case old
    then show ?thesis using cov unfolding tracking_covered_def by (simp add: pending_apply)
  qed
qed

text \<open>
  C3: No asset stays blocked by a run that is over. Against a storage that answers, a refresh of an
  initialized cache succeeds, and every run it leaves tracked as in flight is justified: the run's row
  is live, or the query for new runs saw it live and no later query of the same refresh can tell
  otherwise, or the run was dispatched within the grace period and its row is awaited. In particular
  a tracked run whose row is terminal or deleted is dropped even when the run cursor has passed it,
  and a stale snapshot of the new runs does not bring it back. The tracked assets stay among the
  assets of their runs, so the same holds of the next refresh.
\<close>

theorem refresh_never_wedges:
  assumes "run_reads S T0 T1" and "inj_on run_id T0" and "reads_answer S" and "c_initialized c"
    and "tracking_covered (T0 \<union> T1) c" and "distinct (map fst (c_pending_runs c))"
  shows "\<exists>c' changed. refresh S partitioned tnow c = (c', Inr changed) \<and> tracking_covered (T0 \<union> T1) c' \<and>
     (\<forall>a rid. tracked c' a rid \<longrightarrow> guard_justified T0 T1 tnow c c' a rid)"
proof -
  have cov1: "tracking_covered T1 c" using assms(5) by (auto simp: tracking_covered_def)
  have "\<exists>rs. s_runs_since S (c_last_seen_run_ts c) None = Inr rs" using assms(1) unfolding run_reads_def by blast
  then have "\<exists>d. fetch_refresh_delta S tnow c = Inr d"
    unfolding fetch_refresh_delta_def Let_def by (intro res_bind_total plan_total[OF assms(1,3)]) auto
  then obtain d where d: "fetch_refresh_delta S tnow c = Inr d" ..
  then have "refresh S partitioned tnow c = (fst (apply_refresh_delta d c), Inr (d_changed d))"
    using assms(4) by (simp add: refresh_def apply_refresh_delta_def)
  moreover obtain rs where plan: "guard_plan T0 T1 tnow c rs d" using fetch_guard[OF assms(1) cov1 d] by blast
  ultimately show ?thesis
    using apply_justified[OF assms(5,6) plan] apply_covered[OF assms(1,5) plan assms(2)] by blast
qed

definition tracking_cache :: asset_cache where
  "tracking_cache = new_cache\<lparr>c_initialized := True, c_last_seen_run_ts := 50, c_in_progress := [(''a'', [(''r1'', None)])]\<rparr>"

theorem refresh_never_wedges_witness:
  "tracked tracking_cache ''a'' ''r1'' \<and>
   (\<exists>c' changed. refresh finished_storage [] 100 tracking_cache = (c', Inr changed) \<and> \<not> tracked c' ''a'' ''r1'')"
proof -
  have reads: "run_reads finished_storage {} {finished_run}" "reads_answer finished_storage"
    by (auto simp: run_reads_def reads_answer_def finished_storage_def finished_run_def)
  have cov: "tracking_covered ({} \<union> {finished_run}) tracking_cache"
    by (auto simp: tracking_covered_def tracked_def tracking_cache_def new_cache_def runs_of_def finished_run_def
        split: if_splits)
  obtain c' changed where ret: "refresh finished_storage [] 100 tracking_cache = (c', Inr changed)"
    and just: "\<forall>a rid. tracked c' a rid \<longrightarrow> guard_justified {} {finished_run} 100 tracking_cache c' a rid"
    using refresh_never_wedges[OF reads(1) _ reads(2) _ cov, of "[]" 100] by (auto simp: tracking_cache_def new_cache_def)
  have init: "c_initialized tracking_cache" "c_pending_runs tracking_cache = []"
    by (simp_all add: tracking_cache_def new_cache_def)
  obtain d where "c' = fst (apply_refresh_delta d tracking_cache)"
    using ret init(1) by (auto simp: refresh_def split: sum.splits prod.splits) (metis fst_conv)
  then have "map_of (c_pending_runs c') ''r1'' = None" by (simp add: pending_apply init(2))
  then have "\<not> guard_justified {} {finished_run} 100 tracking_cache c' ''a'' ''r1''"
    by (simp add: guard_justified_def terminal_def finished_run_def)
  then show ?thesis using ret just by (auto simp: tracked_def tracking_cache_def runs_of_def)
qed

end
