(* ===== verification/Partition_Universes.thy ===== *)
theory Partition_Universes
  imports Partition_Keys Time_Grids
begin

text \<open>
  How the set of partition keys of an asset evolves
  (\<open>rivers-core/src/condition/pass/universe.rs\<close>): time windows enter as time passes, dynamic
  keys mirror a storage namespace, and a product of dimensions is recomputed by an odometer over
  the dimensions' key lists. An \<open>OrderSet\<close> is a list without duplicates; the code's \<open>insert\<close>
  closures are functions that return whether the key was new together with the changed
  collection.
\<close>

datatype dimension_kind = DFrozen | DTimeWindow time_grid int | DDynamic string

record dimension_universe =
  dim_keys :: "string list"
  dim_kind :: dimension_kind

datatype partition_universe =
    UFrozen
  | UTimeWindow time_grid int
  | UDynamic string
  | UMulti "(string \<times> dimension_universe) list"

section \<open>Advancing an axis\<close>

definition insert_all :: "(string \<Rightarrow> 's \<Rightarrow> bool \<times> 's) \<Rightarrow> string list \<Rightarrow> 's \<Rightarrow> bool \<times> 's" where
  "insert_all ins ks s =
     fold (\<lambda>k (changed, s). let (new, s') = ins k s in (changed \<or> new, s')) ks (False, s)"

definition advance_time_window_axis ::
  "('b, 'c) time_lib \<Rightarrow> time_grid \<Rightarrow> int \<Rightarrow> int \<Rightarrow> (string \<Rightarrow> 's \<Rightarrow> bool \<times> 's) \<Rightarrow> 's \<Rightarrow> bool \<times> int \<times> 's" where
  "advance_time_window_axis L g enumerated_to now ins s =
     (let bound = (case tg_end g of Some e \<Rightarrow> min e now | None \<Rightarrow> now)
      in if bound \<le> enumerated_to then (False, enumerated_to, s)
         else (case window_starts_in L g enumerated_to bound of
                 Inl err \<Rightarrow> (False, enumerated_to, s)
               | Inr new_keys \<Rightarrow>
                   (let (changed, s') = insert_all ins new_keys s in (changed, bound, s'))))"

definition dynamic_axis_changed :: "string set \<Rightarrow> nat \<Rightarrow> (string \<Rightarrow> bool) \<Rightarrow> bool" where
  "dynamic_axis_changed fresh current_len contains \<longleftrightarrow>
     card fresh \<noteq> current_len \<or> \<not> (\<forall>k \<in> fresh. contains k)"

definition insert_key :: "string \<Rightarrow> partition_key set \<Rightarrow> bool \<times> partition_key set" where
  "insert_key k ks = (Single [k] \<notin> ks, insert (Single [k]) ks)"

definition insert_dim :: "string \<Rightarrow> string list \<Rightarrow> bool \<times> string list" where
  "insert_dim k ks = (if k \<in> set ks then (False, ks) else (True, ks @ [k]))"

section \<open>The product of dimensions\<close>

text \<open>
  The inner loop of the odometer goes from the last dimension to the first, so it runs over the
  reversed lists: the first digit that can be incremented is, and those passed are reset.
\<close>

fun bump :: "nat list \<Rightarrow> nat list \<Rightarrow> nat list option" where
  "bump (n # ns) (i # is) = (if i + 1 < n then Some ((i + 1) # is) else map_option (Cons 0) (bump ns is))"
| "bump _ _ = None"

definition combo_at :: "(string \<times> dimension_universe) list \<Rightarrow> nat list \<Rightarrow> partition_key" where
  "combo_at dims idx =
     canon (Multi (map (\<lambda>((name, du), i). (name, [dim_keys du ! i])) (zip dims idx)))"

definition dim_lens :: "(string \<times> dimension_universe) list \<Rightarrow> nat list" where
  "dim_lens dims = map (\<lambda>(name, du). length (dim_keys du)) dims"

fun remaining :: "nat list \<Rightarrow> nat list \<Rightarrow> nat" where
  "remaining (n # ns) (i # is) = (n - 1 - i) + max 1 n * remaining ns is"
| "remaining _ _ = 0"

lemma bump_remaining: "bump ns is = Some js \<Longrightarrow> remaining ns js < remaining ns is"
proof (induction ns "is" arbitrary: js rule: bump.induct)
  case (1 n ns i "is")
  show ?case
  proof (cases "i + 1 < n")
    case True
    then show ?thesis using "1.prems" by auto
  next
    case False
    then obtain ks where ks: "bump ns is = Some ks" "js = 0 # ks" using "1.prems" by auto
    then have "remaining ns ks + 1 \<le> remaining ns is" using "1.IH" False by simp
    then have "max 1 n * (remaining ns ks + 1) \<le> max 1 n * remaining ns is"
      by (intro mult_left_mono) auto
    then show ?thesis using ks by (auto simp: max_def split: if_splits)
  qed
qed simp_all

function cartesian_loop ::
  "(string \<times> dimension_universe) list \<Rightarrow> nat list \<Rightarrow> partition_key set \<Rightarrow> partition_key set" where
  "cartesian_loop dims idx out =
     (let out' = insert (combo_at dims idx) out
      in case bump (rev (dim_lens dims)) (rev idx) of
           None \<Rightarrow> out'
         | Some js \<Rightarrow> cartesian_loop dims (rev js) out')"
  by pat_completeness auto
termination
  by (relation "measure (\<lambda>(dims, idx, out). remaining (rev (dim_lens dims)) (rev idx))")
     (auto dest: bump_remaining)

declare cartesian_loop.simps [simp del]

definition cartesian_universe :: "(string \<times> dimension_universe) list \<Rightarrow> partition_key set" where
  "cartesian_universe dims =
     (if dims = [] \<or> list_ex (\<lambda>(name, du). dim_keys du = []) dims then {}
      else cartesian_loop dims (replicate (length dims) 0) {})"

section \<open>Refreshing a universe\<close>

definition refresh_dimension ::
  "('b, 'c) time_lib \<Rightarrow> int \<Rightarrow> (string \<rightharpoonup> string set) \<Rightarrow> dimension_universe \<Rightarrow> bool \<times> dimension_universe" where
  "refresh_dimension L now dynamic_keys du =
     (case dim_kind du of
        DFrozen \<Rightarrow> (False, du)
      | DTimeWindow g e \<Rightarrow>
          (case advance_time_window_axis L g e now insert_dim (dim_keys du) of
             (changed, e', ks) \<Rightarrow> (changed, du\<lparr>dim_keys := ks, dim_kind := DTimeWindow g e'\<rparr>))
      | DDynamic namespace \<Rightarrow>
          (case dynamic_keys namespace of
             Some keys \<Rightarrow>
               (if dynamic_axis_changed keys (length (dim_keys du)) (\<lambda>k. k \<in> set (dim_keys du))
                then (True, du\<lparr>dim_keys := sorted_list_of_set keys\<rparr>) else (False, du))
           | None \<Rightarrow> (False, du)))"

definition refresh_universe ::
  "('b, 'c) time_lib \<Rightarrow> int \<Rightarrow> (string \<rightharpoonup> string set) \<Rightarrow> partition_universe \<Rightarrow> partition_key set \<Rightarrow>
   bool \<times> partition_universe \<times> partition_key set" where
  "refresh_universe L now dynamic_keys u all_keys =
     (case u of
        UFrozen \<Rightarrow> (False, u, all_keys)
      | UTimeWindow g e \<Rightarrow>
          (case advance_time_window_axis L g e now insert_key all_keys of
             (changed, e', ks) \<Rightarrow> (changed, UTimeWindow g e', ks))
      | UDynamic namespace \<Rightarrow>
          (case dynamic_keys namespace of
             None \<Rightarrow> (False, u, all_keys)
           | Some keys \<Rightarrow>
               (if \<not> dynamic_axis_changed keys (card all_keys) (\<lambda>k. Single [k] \<in> all_keys)
                then (False, u, all_keys)
                else (True, u, (\<lambda>k. Single [k]) ` keys)))
      | UMulti dims \<Rightarrow>
          (let rs = map (\<lambda>(name, du). (name, refresh_dimension L now dynamic_keys du)) dims;
               changed = list_ex (\<lambda>(name, r). fst r) rs;
               dims' = map (\<lambda>(name, r). (name, snd r)) rs
           in (changed, UMulti dims', if changed then cartesian_universe dims' else all_keys)))"

fun universe_namespaces :: "partition_universe \<Rightarrow> string set \<Rightarrow> string set" where
  "universe_namespaces (UDynamic namespace) out = insert namespace out"
| "universe_namespaces (UMulti dims) out =
     fold (\<lambda>(name, du) out. case dim_kind du of DDynamic namespace \<Rightarrow> insert namespace out | _ \<Rightarrow> out) dims out"
| "universe_namespaces _ out = out"

section \<open>The odometer visits every combination\<close>

fun valid_idx :: "nat list \<Rightarrow> nat list \<Rightarrow> bool" where
  "valid_idx [] [] = True"
| "valid_idx (n # ns) (i # is) = (i < n \<and> valid_idx ns is)"
| "valid_idx _ _ = False"

fun odo_value :: "nat list \<Rightarrow> nat list \<Rightarrow> nat" where
  "odo_value (n # ns) (i # is) = i + n * odo_value ns is"
| "odo_value _ _ = 0"

lemma digit_eq: "i < n \<Longrightarrow> j < n \<Longrightarrow> i + n * x = j + n * y \<Longrightarrow> i = j \<and> x = (y :: nat)"
proof -
  assume lt: "i < n" "j < n" and eq: "i + n * x = j + n * y"
  have "(i + n * x) mod n = i" "(i + n * x) div n = x" "(j + n * y) mod n = j" "(j + n * y) div n = y"
    using lt by simp_all
  then show ?thesis using eq by simp
qed

lemma odo_value_inj: "valid_idx ns is \<Longrightarrow> valid_idx ns js \<Longrightarrow> odo_value ns is = odo_value ns js \<Longrightarrow> is = js"
proof (induction ns "is" arbitrary: js rule: valid_idx.induct)
  case (2 n ns i "is")
  obtain j js' where js: "js = j # js'" "j < n" "valid_idx ns js'" using "2.prems"(2) by (cases js) auto
  have "i + n * odo_value ns is = j + n * odo_value ns js'" using "2.prems"(3) js by simp
  moreover have "i < n" using "2.prems"(1) by simp
  ultimately have "i = j" "odo_value ns is = odo_value ns js'"
    using js(2) digit_eq by blast+
  then show ?case using "2.IH" "2.prems"(1) js by simp
next
  case 1
  then show ?case by (cases js) auto
qed simp_all

lemma bump_Some:
  "valid_idx ns is \<Longrightarrow> bump ns is = Some js \<Longrightarrow> valid_idx ns js \<and> odo_value ns js = odo_value ns is + 1"
proof (induction ns "is" arbitrary: js rule: valid_idx.induct)
  case (2 n ns i "is")
  show ?case
  proof (cases "i + 1 < n")
    case True
    then show ?thesis using "2.prems" by auto
  next
    case False
    then obtain ks where ks: "bump ns is = Some ks" "js = 0 # ks" using "2.prems" by auto
    then have "valid_idx ns ks" "odo_value ns ks = odo_value ns is + 1" using "2.IH" "2.prems"(1) by auto
    then show ?thesis using ks "2.prems"(1) False by auto
  qed
qed simp_all

lemma bump_None:
  "valid_idx ns is \<Longrightarrow> bump ns is = None \<Longrightarrow> valid_idx ns js \<Longrightarrow> odo_value ns js \<le> odo_value ns is"
proof (induction ns "is" arbitrary: js rule: valid_idx.induct)
  case (2 n ns i "is")
  obtain j js' where js: "js = j # js'" "j < n" "valid_idx ns js'" using "2.prems"(3) by (cases js) auto
  have last: "\<not> i + 1 < n" "bump ns is = None" using "2.prems"(2) by (auto split: if_splits)
  then have "odo_value ns js' \<le> odo_value ns is" using "2.IH" "2.prems"(1) js(3) by simp
  then have "n * odo_value ns js' \<le> n * odo_value ns is" by simp
  moreover have "j \<le> i" using js(2) last(1) by simp
  ultimately show ?case using js(1) by (simp add: add_mono)
next
  case 1
  then show ?case by (cases js) auto
qed simp_all

lemma cartesian_loop_visits:
  assumes "valid_idx (rev (dim_lens dims)) (rev idx)"
  shows "cartesian_loop dims idx out =
         out \<union> (combo_at dims \<circ> rev) ` {is. valid_idx (rev (dim_lens dims)) is \<and>
            odo_value (rev (dim_lens dims)) (rev idx) \<le> odo_value (rev (dim_lens dims)) is}"
  using assms
proof (induction dims idx out rule: cartesian_loop.induct)
  case (1 dims idx out)
  let ?ns = "rev (dim_lens dims)"
  let ?from = "\<lambda>v. {is. valid_idx ?ns is \<and> v \<le> odo_value ?ns is}"
  have here: "?from (odo_value ?ns (rev idx)) = insert (rev idx) (?from (odo_value ?ns (rev idx) + 1))"
    using "1.prems" odo_value_inj[OF "1.prems"] by (auto simp: Suc_le_eq order_le_less)
  show ?case
  proof (cases "bump ?ns (rev idx)")
    case None
    then have none: "?from (odo_value ?ns (rev idx) + 1) = {}" using bump_None[OF "1.prems" None] by fastforce
    show ?thesis unfolding here none by (subst cartesian_loop.simps) (simp add: None)
  next
    case (Some js)
    then have js: "valid_idx ?ns js" "odo_value ?ns js = odo_value ?ns (rev idx) + 1"
      using bump_Some[OF "1.prems"] by blast+
    then have "cartesian_loop dims (rev js) (insert (combo_at dims idx) out) =
        insert (combo_at dims idx) out \<union> (combo_at dims \<circ> rev) ` ?from (odo_value ?ns (rev idx) + 1)"
      using "1.IH"[OF refl Some] by simp
    then show ?thesis using Some unfolding here by (subst cartesian_loop.simps) simp
  qed
qed

lemma valid_idx_iff: "valid_idx ns is \<longleftrightarrow> list_all2 (<) is ns"
  by (induction ns "is" rule: valid_idx.induct) auto

definition dim_choice :: "string \<times> string list \<Rightarrow> string \<times> dimension_universe \<Rightarrow> bool" where
  "dim_choice d nd \<longleftrightarrow> fst d = fst nd \<and> (\<exists>k \<in> set (dim_keys (snd nd)). snd d = [k])"

lemma choices_image:
  "(\<lambda>idx. map (\<lambda>((name, du), i). (name, [dim_keys du ! i])) (zip dims idx)) ` {idx. list_all2 (<) idx (dim_lens dims)} =
   {ds. list_all2 dim_choice ds dims}"
proof (induction dims)
  case Nil
  then show ?case by (auto simp: dim_lens_def)
next
  case (Cons nd dims)
  obtain name du where nd: "nd = (name, du)" by force
  let ?f = "\<lambda>dims idx. map (\<lambda>((name, du), i). (name, [dim_keys du ! i])) (zip dims idx)"
  have "?f (nd # dims) ` {idx. list_all2 (<) idx (dim_lens (nd # dims))} =
        {(name, [dim_keys du ! i]) # ds |i ds. i < length (dim_keys du) \<and> ds \<in> ?f dims ` {idx. list_all2 (<) idx (dim_lens dims)}}"
    by (force simp: nd dim_lens_def list_all2_Cons2 image_iff)
  also have "\<dots> = {ds. list_all2 dim_choice ds (nd # dims)}"
    unfolding Cons by (force simp: nd dim_choice_def list_all2_Cons2 in_set_conv_nth)
  finally show ?case .
qed

text \<open>
  Recomputing a product universe ends and yields exactly the combinations of one current key
  per dimension, in the dimensions' order; a product without dimensions, or with an empty one, has
  no keys.
\<close>

theorem cartesian_universe_exact:
  "cartesian_universe dims =
     (if dims = [] then {} else (canon \<circ> Multi) ` {ds. list_all2 dim_choice ds dims})"
proof (cases "dims = [] \<or> list_ex (\<lambda>(name, du). dim_keys du = []) dims")
  case True
  have "\<not> list_all2 dim_choice ds dims" if "list_ex (\<lambda>(name, du). dim_keys du = []) dims" for ds
    using that by (fastforce simp: list_ex_iff list_all2_conv_all_nth dim_choice_def in_set_conv_nth)
  then show ?thesis using True by (auto simp: cartesian_universe_def)
next
  case False
  let ?zero = "replicate (length dims) 0"
  let ?ns = "rev (dim_lens dims)"
  have "\<forall>n \<in> set ?ns. 0 < n" using False by (auto simp: dim_lens_def list_ex_iff)
  then have valid: "valid_idx ?ns (rev ?zero)"
    by (auto simp: valid_idx_iff list_all2_conv_all_nth dim_lens_def rev_nth)
  have zero: "odo_value ns (replicate k 0) = 0" for ns k
    by (induction k arbitrary: ns) (auto, metis odo_value.simps(1,2) add_0 list.exhaust mult_0_right)
  have img: "rev ` {is. valid_idx ?ns is} = {idx. list_all2 (<) idx (dim_lens dims)}"
    by (force simp: valid_idx_iff image_iff list_all2_rev1 intro: exI[of _ "rev _"])
  have "cartesian_universe dims = (combo_at dims \<circ> rev) ` {is. valid_idx ?ns is}"
    using False zero by (simp add: cartesian_universe_def cartesian_loop_visits[OF valid])
  also have "\<dots> = combo_at dims ` {idx. list_all2 (<) idx (dim_lens dims)}"
    unfolding image_comp[symmetric] img ..
  also have "\<dots> = (canon \<circ> Multi) ` {ds. list_all2 dim_choice ds dims}"
    unfolding choices_image[symmetric] image_image combo_at_def comp_def ..
  finally show ?thesis using False by simp
qed

section \<open>Universes that follow time and storage\<close>

lemma fold_insert_key:
  "fold (\<lambda>k (changed, s). let (new, s') = insert_key k s in (changed \<or> new, s')) ks (ch, K) =
     (ch \<or> \<not> (\<lambda>k. Single [k]) ` set ks \<subseteq> K, K \<union> (\<lambda>k. Single [k]) ` set ks)"
  by (induction ks arbitrary: ch K) (auto simp: insert_key_def)

lemma insert_all_key:
  "insert_all insert_key ks K = (K \<union> (\<lambda>k. Single [k]) ` set ks \<noteq> K, K \<union> (\<lambda>k. Single [k]) ` set ks)"
  unfolding insert_all_def fold_insert_key by auto

definition axis_bound :: "time_grid \<Rightarrow> int \<Rightarrow> int" where
  "axis_bound g now = (case tg_end g of Some e \<Rightarrow> min e now | None \<Rightarrow> now)"

definition windows_before :: "time_grid \<Rightarrow> int \<Rightarrow> int \<Rightarrow> int set" where
  "windows_before g i e =
     {t. on_grid (tg_start g) i t \<and> t < e \<and> (case tg_end g of Some x \<Rightarrow> t < x | None \<Rightarrow> True)}"

definition window_key :: "('b, 'c) time_lib \<Rightarrow> time_grid \<Rightarrow> int \<Rightarrow> partition_key" where
  "window_key L g t = Single [strftime L (tg_fmt g) t]"

lemma axis_starts:
  assumes wf: "wf_interval_grid L g i" and now: "tg_end g = None \<longrightarrow> now \<le> now_dt L"
    and "e \<le> axis_bound g now"
  shows "\<exists>ts. window_starts_in L g e (axis_bound g now) = Inr (map (strftime L (tg_fmt g)) ts) \<and>
           windows_before g i (axis_bound g now) = windows_before g i e \<union> set ts"
proof -
  have bound: "axis_bound g now \<le> end_bound L g"
    using now by (auto simp: axis_bound_def end_bound_def split: option.split)
  obtain ts where ts: "window_starts_in L g e (axis_bound g now) = Inr (map (strftime L (tg_fmt g)) ts)"
      "set ts = {t. e \<le> t \<and> t < axis_bound g now \<and> on_grid (tg_start g) i t \<and> t < end_bound L g}"
    using window_starts_spec[OF wf] by blast
  have "windows_before g i (axis_bound g now) = windows_before g i e \<union> set ts"
    unfolding ts(2) using bound assms(3)
    by (auto simp: windows_before_def axis_bound_def split: option.splits)
  then show ?thesis using ts(1) by blast
qed



lemma dynamic_changed_iff:
  assumes "finite K"
  shows "dynamic_axis_changed keys (card K) (\<lambda>k. Single [k] \<in> K) \<longleftrightarrow> (\<lambda>k. Single [k]) ` keys \<noteq> K"
proof -
  let ?S = "(\<lambda>k. Single [k]) ` keys"
  have "card ?S = card keys" by (rule card_image) (simp add: inj_on_def)
  moreover have "?S = K" if "card ?S = card K" "?S \<subseteq> K" using that assms by (simp add: card_subset_eq)
  ultimately show ?thesis by (auto simp: dynamic_axis_changed_def)
qed

text \<open>
  Refreshing a dynamic universe makes it mirror its storage namespace: when the namespace was
  fetched the keys become exactly its keys, and a change is reported exactly when they differ from
  the keys before, although the code compares sizes and membership only; when it was not fetched
  nothing changes.
\<close>

theorem dynamic_universe_mirrors:
  assumes "finite K"
  shows "refresh_universe L now dyn (UDynamic ns) K =
     (case dyn ns of
        None \<Rightarrow> (False, UDynamic ns, K)
      | Some keys \<Rightarrow> ((\<lambda>k. Single [k]) ` keys \<noteq> K, UDynamic ns, (\<lambda>k. Single [k]) ` keys))"
  by (auto simp: refresh_universe_def dynamic_changed_iff[OF assms] split: option.split)

theorem dynamic_universe_mirrors_witness:
  "refresh_universe unary_lib 8 [''ns'' \<mapsto> {''a'', ''b''}] (UDynamic ''ns'') {Single [''a'']} =
     (True, UDynamic ''ns'', {Single [''a''], Single [''b'']})"
  by (subst dynamic_universe_mirrors) auto

end
