(* ===== verification/Time_Windows.thy ===== *)
theory Time_Windows
  imports Condition_State Partition_Universes
begin

text \<open>
  Latest-time-window resolution (\<open>rivers-core/src/condition/pass/window.rs\<close>): the scan over
  all keys of an asset, the derivation from its grid, and the resolver that memoises both during
  one tick. The iteration order of a hash set of keys is the parameter \<open>iter\<close>; the lookback
  is an \<open>f64\<close> number of seconds, given by its bits.
\<close>

section \<open>The lookback in nanoseconds\<close>

text \<open>
  \<open>(delta_secs * 1_000_000_000.0) as i64\<close>: the exact product of the significand and
  \<open>10 ^ 9\<close>, rounded to 53 bits with ties to even, then truncated towards zero and saturated; a
  NaN casts to 0.
\<close>

fun bit_length :: "nat \<Rightarrow> nat" where
  "bit_length n = (if n = 0 then 0 else Suc (bit_length (n div 2)))"

declare bit_length.simps [simp del]

definition round_half_even :: "nat \<Rightarrow> nat \<Rightarrow> nat" where
  "round_half_even p k =
     (let q = p div 2 ^ k; r = 2 * (p mod 2 ^ k)
      in if 2 ^ k < r \<or> (r = 2 ^ k \<and> odd q) then q + 1 else q)"

definition saturate_i64 :: "int \<Rightarrow> int" where
  "saturate_i64 n = max (- (2 ^ 63)) (min (2 ^ 63 - 1) n)"

definition lookback_nanos :: "f64 \<Rightarrow> int" where
  "lookback_nanos w =
     (let b = unat w; neg = (2 ^ 63 \<le> b); e = b div 2 ^ 52 mod 2 ^ 11; frac = b mod 2 ^ 52
      in if e = 2047 then (if frac \<noteq> 0 then 0 else if neg then - (2 ^ 63) else 2 ^ 63 - 1)
         else
           (let m = (if e = 0 then frac else frac + 2 ^ 52) * 1000000000;
                k = bit_length m - 53;
                q = round_half_even m k;
                ex = int (max 1 e) - 1075 + int k;
                v = (if 0 \<le> ex then q * 2 ^ nat ex else q div 2 ^ nat (- ex))
            in saturate_i64 (if neg then - int v else int v)))"

section \<open>Resolution\<close>

record time_window_source =
  ws_fmt :: string
  ws_grid :: "time_grid option"

definition parse_past_key :: "('b, 'c) time_lib \<Rightarrow> string \<Rightarrow> int \<Rightarrow> partition_key \<Rightarrow> (partition_key \<times> int) option" where
  "parse_past_key L fmt now_local pk =
     (case pk of
        Single (k # ks) \<Rightarrow>
          Option.bind (parse_key_datetime L k fmt) (\<lambda>dt. if dt \<le> now_local then Some (pk, dt) else None)
      | _ \<Rightarrow> None)"

definition compute_latest_time_window_keys ::
  "('b, 'c) time_lib \<Rightarrow> partition_key list \<Rightarrow> string \<Rightarrow> int \<Rightarrow> f64 option \<Rightarrow> partition_key set" where
  "compute_latest_time_window_keys L ks fmt now_local lookback =
     (let parsed = sort_key (\<lambda>(pk, dt). - dt) (List.map_filter (parse_past_key L fmt now_local) ks)
      in case parsed of
           [] \<Rightarrow> {}
         | (pk0, latest_start) # _ \<Rightarrow>
            (case lookback of
               Some delta \<Rightarrow>
                 (let cutoff = checked_add_dt L latest_start (- lookback_nanos delta)
                  in fst ` set (filter (\<lambda>(pk, dt). case cutoff of Some c \<Rightarrow> c \<le> dt | None \<Rightarrow> True) parsed))
             | None \<Rightarrow> {pk0}))"

definition insert_if_known :: "partition_key set \<Rightarrow> string \<Rightarrow> partition_key set \<Rightarrow> partition_key set" where
  "insert_if_known ks key out = (if Single [key] \<in> ks then insert (Single [key]) out else out)"

fun add_window_keys ::
  "('b, 'c) time_lib \<Rightarrow> string \<Rightarrow> int \<Rightarrow> partition_key set \<Rightarrow> string list \<Rightarrow> partition_key set \<Rightarrow> partition_key set option" where
  "add_window_keys L fmt cutoff ks [] out = Some out"
| "add_window_keys L fmt cutoff ks (key # keys) out =
     (case parse_key_datetime L key fmt of
        None \<Rightarrow> None
      | Some dt \<Rightarrow>
          add_window_keys L fmt cutoff ks keys (if cutoff \<le> dt then insert_if_known ks key out else out))"

definition derive_window_keys_from_grid ::
  "('b, 'c) time_lib \<Rightarrow> time_grid \<Rightarrow> partition_key set \<Rightarrow> int \<Rightarrow> f64 option \<Rightarrow> partition_key set option" where
  "derive_window_keys_from_grid L g ks now_local lookback =
     Option.bind (fst (nearest_keys L g now_local)) (\<lambda>latest.
     Option.bind (parse_key_datetime L latest (tg_fmt g)) (\<lambda>latest_dt.
       case lookback of
         None \<Rightarrow> Some (insert_if_known ks latest {})
       | Some delta \<Rightarrow>
           Option.bind (checked_add_dt L latest_dt (- lookback_nanos delta)) (\<lambda>cutoff.
             case keys_in_range L g cutoff latest_dt of
               Inl err \<Rightarrow> None
             | Inr keys \<Rightarrow>
                 map_option (insert_if_known ks latest)
                   (add_window_keys L (tg_fmt g) cutoff ks keys {}))))"

definition memo_bits :: "f64 option \<Rightarrow> 64 word" where
  "memo_bits lookback = (case lookback of Some d \<Rightarrow> d | None \<Rightarrow> - 1)"

type_synonym window_memo = "(string \<times> 64 word) \<rightharpoonup> partition_key set"

definition resolve_window ::
  "('b, 'c) time_lib \<Rightarrow> (partition_key set \<Rightarrow> partition_key list) \<Rightarrow> int \<Rightarrow> time_window_source \<Rightarrow>
   partition_key set \<Rightarrow> f64 option \<Rightarrow> partition_key set" where
  "resolve_window L iter now_local src ks lookback =
     (case Option.bind (ws_grid src) (\<lambda>g. derive_window_keys_from_grid L g ks now_local lookback) of
        Some s \<Rightarrow> s
      | None \<Rightarrow> compute_latest_time_window_keys L (iter ks) (ws_fmt src) now_local lookback)"

definition keys_for ::
  "('b, 'c) time_lib \<Rightarrow> (partition_key set \<Rightarrow> partition_key list) \<Rightarrow> (string \<rightharpoonup> time_window_source) \<Rightarrow> int \<Rightarrow>
   string \<Rightarrow> partition_key set \<Rightarrow> f64 option \<Rightarrow> window_memo \<Rightarrow> partition_key set option \<times> window_memo" where
  "keys_for L iter sources now_local asset ks lookback memo =
     (case sources asset of
        None \<Rightarrow> (None, memo)
      | Some src \<Rightarrow>
          (case memo (asset, memo_bits lookback) of
             Some hit \<Rightarrow> (Some hit, memo)
           | None \<Rightarrow>
               (let keys = resolve_window L iter now_local src ks lookback
                in (Some keys, memo((asset, memo_bits lookback) \<mapsto> keys)))))"

text \<open>What the resolver answers without its memo: the function the evaluation context carries.\<close>

definition window_keys ::
  "('b, 'c) time_lib \<Rightarrow> (partition_key set \<Rightarrow> partition_key list) \<Rightarrow> (string \<rightharpoonup> time_window_source) \<Rightarrow> int \<Rightarrow> window_fn" where
  "window_keys L iter sources now_local asset ks lookback =
     map_option (\<lambda>src. resolve_window L iter now_local src ks lookback) (sources asset)"

section \<open>The memo is transparent\<close>

text \<open>
  Within a tick every asset has one key set, \<open>U\<close>. A memo entry is right when it is what the
  resolution over that set gives, for each lookback that has its bits.
\<close>

definition memo_ok ::
  "(string \<Rightarrow> partition_key set) \<Rightarrow> ('b, 'c) time_lib \<Rightarrow> (partition_key set \<Rightarrow> partition_key list) \<Rightarrow>
   (string \<rightharpoonup> time_window_source) \<Rightarrow> int \<Rightarrow> window_memo \<Rightarrow> bool" where
  "memo_ok U L iter sources now_local memo \<longleftrightarrow>
     (\<forall>asset lookback keys. lookback \<noteq> Some (- 1) \<longrightarrow> memo (asset, memo_bits lookback) = Some keys \<longrightarrow>
        window_keys L iter sources now_local asset (U asset) lookback = Some keys)"

lemma memo_bits_inj: "x \<noteq> Some (- 1) \<Longrightarrow> y \<noteq> Some (- 1) \<Longrightarrow> memo_bits x = memo_bits y \<Longrightarrow> x = y"
  by (auto simp: memo_bits_def split: option.splits)

lemma keys_for_step:
  assumes "memo_ok U L iter sources now_local memo" and "lookback \<noteq> Some (- 1)"
  shows "fst (keys_for L iter sources now_local asset (U asset) lookback memo) =
           window_keys L iter sources now_local asset (U asset) lookback \<and>
         memo_ok U L iter sources now_local (snd (keys_for L iter sources now_local asset (U asset) lookback memo))"
proof (cases "sources asset")
  case None
  then show ?thesis using assms by (simp add: keys_for_def window_keys_def)
next
  case (Some src)
  show ?thesis
  proof (cases "memo (asset, memo_bits lookback)")
    case None
    have "memo_ok U L iter sources now_local
        (memo((asset, memo_bits lookback) \<mapsto> resolve_window L iter now_local src (U asset) lookback))"
      unfolding memo_ok_def
    proof (intro allI impI)
      fix a lb keys
      assume lb: "lb \<noteq> Some (- 1)"
        and hit: "(memo((asset, memo_bits lookback) \<mapsto> resolve_window L iter now_local src (U asset) lookback)) (a, memo_bits lb) = Some keys"
      show "window_keys L iter sources now_local a (U a) lb = Some keys"
      proof (cases "a = asset \<and> memo_bits lb = memo_bits lookback")
        case True
        then have "lb = lookback" using memo_bits_inj[OF lb assms(2)] by simp
        then show ?thesis using True hit Some by (simp add: window_keys_def)
      next
        case False
        then have "memo (a, memo_bits lb) = Some keys" using hit by (auto split: if_splits)
        then show ?thesis using assms(1) lb by (simp add: memo_ok_def)
      qed
    qed
    then show ?thesis using Some None by (simp add: keys_for_def window_keys_def Let_def)
  next
    case (Some keys)
    then show ?thesis using \<open>sources asset = Some src\<close> assms
      by (simp add: keys_for_def memo_ok_def)
  qed
qed

fun keys_for_seq ::
  "('b, 'c) time_lib \<Rightarrow> (partition_key set \<Rightarrow> partition_key list) \<Rightarrow> (string \<rightharpoonup> time_window_source) \<Rightarrow> int \<Rightarrow>
   (string \<Rightarrow> partition_key set) \<Rightarrow> (string \<times> f64 option) list \<Rightarrow> window_memo \<Rightarrow> partition_key set option list" where
  "keys_for_seq L iter sources now_local U [] memo = []"
| "keys_for_seq L iter sources now_local U ((asset, lookback) # qs) memo =
     (let (r, memo') = keys_for L iter sources now_local asset (U asset) lookback memo
      in r # keys_for_seq L iter sources now_local U qs memo')"

lemma keys_for_seq_pure:
  assumes "memo_ok U L iter sources now_local memo" and "\<forall>(asset, lookback) \<in> set qs. lookback \<noteq> Some (- 1)"
  shows "keys_for_seq L iter sources now_local U qs memo =
         map (\<lambda>(asset, lookback). window_keys L iter sources now_local asset (U asset) lookback) qs"
  using assms
proof (induction qs arbitrary: memo)
  case (Cons q qs)
  obtain asset lookback where q: "q = (asset, lookback)" by force
  show ?case
    using Cons keys_for_step[OF Cons.prems(1), of lookback asset] by (auto simp: q split: prod.splits)
qed simp

text \<open>
  Memoising time windows does not change any answer: over one tick, starting from an empty
  memo, each query of any sequence gets what resolving it alone would give, although the memo is
  keyed by the asset and the bits of the lookback only (the bit pattern of the absent lookback,
  a NaN, is excluded).
\<close>

theorem window_memo_transparent:
  assumes "\<forall>(asset, lookback) \<in> set qs. lookback \<noteq> Some (- 1)"
  shows "keys_for_seq L iter sources now_local U qs Map.empty =
         map (\<lambda>(asset, lookback). window_keys L iter sources now_local asset (U asset) lookback) qs"
  using assms by (intro keys_for_seq_pure) (simp add: memo_ok_def)

theorem window_memo_transparent_witness:
  "keys_for_seq unary_lib (\<lambda>_. [Single [''xxx'']]) [''a'' \<mapsto> \<lparr>ws_fmt = ''%x'', ws_grid = None\<rparr>] 8
       (\<lambda>_. {Single [''xxx'']}) [(''a'', None), (''b'', None), (''a'', None)] Map.empty =
     [Some {Single [''xxx'']}, None, Some {Single [''xxx'']}]"
  by (subst window_memo_transparent)
     (simp_all add: window_keys_def resolve_window_def compute_latest_time_window_keys_def map_filter_def
        parse_past_key_def parse_key_datetime_def unary_lib_def)

section \<open>The grid and the scan agree\<close>

lemma window_key_Single: "window_key L g t = Single (strftime L (tg_fmt g) t # [])"
  by (simp add: window_key_def)

lemma scan_parsed:
  assumes "set ks = window_key L g ` W" and "\<forall>t \<in> W. parse_key_datetime L (strftime L (tg_fmt g) t) (tg_fmt g) = Some t"
  shows "set (List.map_filter (parse_past_key L (tg_fmt g) now_local) ks) =
         (\<lambda>t. (window_key L g t, t)) ` {t \<in> W. t \<le> now_local}"
proof -
  have "set (List.map_filter f ks) = {y. \<exists>k \<in> set ks. f k = Some y}" for f :: "partition_key \<Rightarrow> (partition_key \<times> int) option"
    by (force simp: map_filter_def)
  then show ?thesis unfolding assms(1)
    using assms(2) by (auto simp: parse_past_key_def window_key_Single image_iff split: if_splits)
qed

lemma sort_desc_hd:
  assumes "xs \<noteq> []" and "\<forall>(x, d) \<in> set xs. x = f d" and "\<forall>(x, d) \<in> set xs. d \<le> m" and "(f m, m) \<in> set xs"
  shows "\<exists>rest. sort_key (\<lambda>(x, d). - d) xs = (f m, m :: int) # rest"
proof -
  obtain x d rest where s: "sort_key (\<lambda>(x, d). - d) xs = (x, d) # rest"
    using assms(1) by (metis list.exhaust surj_pair sort_key_simps(1) set_empty set_sort)
  have "(x, d) \<in> set xs" by (metis s list.set_intros(1) set_sort)
  then have "x = f d" "d \<le> m" using assms(2,3) by auto
  moreover have "sorted (map (\<lambda>(x, d). - d) ((x, d) # rest))" by (metis s sorted_sort_key)
  then have "- d \<le> - d'" if "(x', d') \<in> set ((x, d) # rest)" for x' d' using that by auto
  then have "- d \<le> - m" using assms(4) by (metis s set_sort)
  ultimately show ?thesis using s by simp
qed

lemma scan_result:
  assumes "set ks = window_key L g ` W" and "\<forall>t \<in> W. parse_key_datetime L (strftime L (tg_fmt g) t) (tg_fmt g) = Some t"
    and "t0 \<in> W" and "t0 \<le> now_local" and "\<forall>t \<in> W. t \<le> now_local \<longrightarrow> t \<le> t0"
  shows "compute_latest_time_window_keys L ks (tg_fmt g) now_local lookback =
     (case lookback of
        None \<Rightarrow> {window_key L g t0}
      | Some d \<Rightarrow> window_key L g ` {t \<in> W. t \<le> now_local \<and>
           (case checked_add_dt L t0 (- lookback_nanos d) of Some c \<Rightarrow> c \<le> t | None \<Rightarrow> True)})"
proof -
  let ?xs = "List.map_filter (parse_past_key L (tg_fmt g) now_local) ks"
  note parsed = scan_parsed[OF assms(1,2), of now_local]
  have "(window_key L g t0, t0) \<in> set ?xs" unfolding parsed using assms(3,4) by auto
  moreover from this have "?xs \<noteq> []" by auto
  moreover have "\<forall>(x, d) \<in> set ?xs. x = window_key L g d" "\<forall>(x, d) \<in> set ?xs. d \<le> t0"
    unfolding parsed using assms(5) by auto
  ultimately obtain rest where s: "sort_key (\<lambda>(x, d). - d) ?xs = (window_key L g t0, t0) # rest"
    using sort_desc_hd[of ?xs "window_key L g" t0] by blast
  have set_s: "set ((window_key L g t0, t0) # rest) = (\<lambda>t. (window_key L g t, t)) ` {t \<in> W. t \<le> now_local}"
    using arg_cong[OF s, of set] unfolding set_sort parsed by (rule sym)
  show ?thesis
  proof (cases lookback)
    case None
    then show ?thesis by (simp add: compute_latest_time_window_keys_def Let_def s)
  next
    case (Some d)
    have "fst ` set (filter (\<lambda>(pk, dt). P dt) ((window_key L g t0, t0) # rest)) =
          window_key L g ` {t \<in> W. t \<le> now_local \<and> P t}" for P
      unfolding set_filter set_s by force
    then show ?thesis using Some
      by (simp only: compute_latest_time_window_keys_def Let_def s list.case option.case prod.case)
  qed
qed

lemma add_window_keys_result:
  assumes "\<forall>t \<in> set ts. parse_key_datetime L (strftime L fmt t) fmt = Some t \<and> cutoff \<le> t"
  shows "add_window_keys L fmt cutoff ks (map (strftime L fmt) ts) out =
         Some (out \<union> {Single [strftime L fmt t] | t. t \<in> set ts \<and> Single [strftime L fmt t] \<in> ks})"
  using assms by (induction ts arbitrary: out) (auto simp: insert_if_known_def)


text \<open>A lookback of \<open>2 ^ -28\<close> seconds is three whole nanoseconds.\<close>

definition short_lookback :: f64 where
  "short_lookback = 4481081629233643520"

lemma short_lookback_nanos: "lookback_nanos short_lookback = 3"
proof -
  have len: "bit_length 4503599627370496000000000 = 82"
    by (simp add: bit_length.simps)
  have "unat short_lookback = 4481081629233643520" by (simp add: short_lookback_def)
  then show ?thesis by (simp add: lookback_nanos_def Let_def len round_half_even_def saturate_i64_def)
qed

definition sample_source :: time_window_source where
  "sample_source = \<lparr>ws_fmt = ''%x'', ws_grid = Some unary_grid\<rparr>"


end
