(* ===== verification/Condition_Pass.thy ===== *)
theory Condition_Pass
  imports Condition_Domains Condition_Cache Time_Windows
begin

text \<open>
  One tick of the condition engine (\<open>rivers-core/src/condition/pass/mod.rs\<close>): the pass and its
  construction, the evaluation of every condition, the classification of what fired into the
  three dispatch shapes, the commit of the tick, the dispatch intent persisted before the
  runs go out, and the recovery of an interrupted tick.

  The environment of a pass is a record of parameters: the calendar library, the iteration order
  of a hash set of keys, the local wall clock, and what the evaluator calls. The code's indexing
  \<open>eval_state.assets[key]\<close> and \<open>unwrap\<close> are explicit: an operation that would panic returns
  \<open>None\<close>. Measured durations and log output are left out.
\<close>

record ('b, 'c) pass_env =
  pv_lib :: "('b, 'c) time_lib"
  pv_iter :: "partition_key set \<Rightarrow> partition_key list"
  pv_local :: "int \<Rightarrow> int"
  pv_eval :: eval_env

record partition_info =
  pi_all_keys :: "partition_key set"
  pi_mappings :: "((string \<times> string) \<times> mapping_kind) list"
  pi_time_window_fmt :: "string option"
  pi_universe :: partition_universe

record asset_info =
  ai_asset_key :: string
  ai_condition :: condition_node
  ai_partition_info :: "partition_info option"

record eval_row =
  row_idx :: nat
  row_result :: eval_result
  row_tree :: "eval_tree option"

record materialization_plan =
  mp_unpartitioned :: "string list"
  mp_single :: "(partition_key \<times> string list) list"
  mp_multi :: "(string \<times> partition_key list) list"

definition plan_is_empty :: "materialization_plan \<Rightarrow> bool" where
  "plan_is_empty mp \<longleftrightarrow> mp_unpartitioned mp = [] \<and> mp_single mp = [] \<and> mp_multi mp = []"

definition dispatched_asset_keys :: "materialization_plan \<Rightarrow> string list" where
  "dispatched_asset_keys mp = mp_unpartitioned mp @ concat (map snd (mp_single mp)) @ map fst (mp_multi mp)"

record pass_output =
  po_results :: "eval_row list"
  po_plan :: materialization_plan

record condition_pass =
  p_cache :: asset_cache
  p_eval_state :: eval_state
  p_conditions :: "asset_info list"
  p_by_key :: "string \<rightharpoonup> nat"
  p_active :: "string set"
  p_has_time_based :: bool
  p_time_set :: "string set option"
  p_upstream_keys :: "string \<rightharpoonup> partition_key set"
  p_upstream_universes :: "(string \<times> partition_universe) list"
  p_window_sources :: "string \<rightharpoonup> time_window_source"
  p_needs_retry :: bool

section \<open>Construction\<close>

definition index_by_key :: "asset_info list \<Rightarrow> string \<rightharpoonup> nat" where
  "index_by_key infos = fold (\<lambda>(i, c) m. m(ai_asset_key c \<mapsto> i)) (enumerate 0 infos) Map.empty"

definition seed_assets :: "asset_info list \<Rightarrow> (string \<rightharpoonup> asset_state) \<Rightarrow> (string \<rightharpoonup> asset_state)" where
  "seed_assets infos m =
     fold (\<lambda>c m. case m (ai_asset_key c) of
                   Some s \<Rightarrow> m | None \<Rightarrow> m(ai_asset_key c \<mapsto> default_asset_state)) infos m"

definition partitioned_assets :: "asset_info list \<Rightarrow> string list" where
  "partitioned_assets infos =
     fold (\<lambda>c acc. case ai_partition_info c of
                     None \<Rightarrow> acc
                   | Some pi \<Rightarrow> fold (\<lambda>((down, up), kind) acc. if up \<in> set acc then acc else acc @ [up]) (pi_mappings pi) acc)
       infos (map ai_asset_key (filter (\<lambda>c. ai_partition_info c \<noteq> None) infos))"

definition rehydrate_floors :: "(string \<rightharpoonup> int) \<Rightarrow> asset_cache \<Rightarrow> asset_cache" where
  "rehydrate_floors floors c =
     c\<lparr>c_failed := c_failed c \<union> dom floors,
       c_failed_ts := (\<lambda>a. case c_failed_ts c a of Some t \<Rightarrow> Some t | None \<Rightarrow> floors a)\<rparr>"

definition universe_grid :: "partition_universe \<Rightarrow> time_grid option" where
  "universe_grid u = (case u of UTimeWindow g e \<Rightarrow> Some g | _ \<Rightarrow> None)"

definition window_sources ::
  "asset_info list \<Rightarrow> (string \<times> partition_universe) list \<Rightarrow> (string \<rightharpoonup> time_window_source)" where
  "window_sources infos universes =
     fold (\<lambda>(asset, u) m.
             case universe_grid u of
               None \<Rightarrow> m
             | Some g \<Rightarrow> (case m asset of
                            Some s \<Rightarrow> m
                          | None \<Rightarrow> m(asset \<mapsto> \<lparr>ws_fmt = tg_fmt g, ws_grid = Some g\<rparr>))) universes
       (fold (\<lambda>c m.
                case ai_partition_info c of
                  None \<Rightarrow> m
                | Some pi \<Rightarrow> (case pi_time_window_fmt pi of
                                None \<Rightarrow> m
                              | Some fmt \<Rightarrow> m(ai_asset_key c \<mapsto> \<lparr>ws_fmt = fmt, ws_grid = universe_grid (pi_universe pi)\<rparr>)))
          infos Map.empty)"

definition new_pass ::
  "asset_cache \<Rightarrow> eval_state \<Rightarrow> asset_info list \<Rightarrow> (string \<times> partition_key set \<times> partition_universe) list \<Rightarrow>
   condition_pass" where
  "new_pass c es infos upstream =
     (let keys_map = map_of (map (\<lambda>(a, ks, u). (a, ks)) upstream);
          universes = map (\<lambda>(a, ks, u). (a, u)) upstream;
          es' = es\<lparr>es_assets := seed_assets infos (es_assets es)\<rparr>;
          c' = rehydrate_floors (es_failed_assets es')
                 (set_needs_tick_tags (map ai_condition infos)
                   (set_partitioned_assets (partitioned_assets infos) c))
      in \<lparr>p_cache = c', p_eval_state = es', p_conditions = infos, p_by_key = index_by_key infos,
          p_active = ai_asset_key ` set infos,
          p_has_time_based = list_ex (\<lambda>c. has_time_based_conditions (ai_condition c)) infos,
          p_time_set = None, p_upstream_keys = keys_map, p_upstream_universes = universes,
          p_window_sources = window_sources infos universes, p_needs_retry = False\<rparr>)"

section \<open>Universes\<close>

definition dynamic_universe_namespaces :: "condition_pass \<Rightarrow> string set" where
  "dynamic_universe_namespaces p =
     fold (\<lambda>(asset, u). universe_namespaces u) (p_upstream_universes p)
       (fold (\<lambda>c out. case ai_partition_info c of Some pi \<Rightarrow> universe_namespaces (pi_universe pi) out | None \<Rightarrow> out)
          (p_conditions p) {})"

fun refresh_infos ::
  "('b, 'c) time_lib \<Rightarrow> int \<Rightarrow> (string \<rightharpoonup> string set) \<Rightarrow> asset_info list \<Rightarrow> (string \<rightharpoonup> partition_key set) \<Rightarrow>
   bool \<times> asset_info list \<times> (string \<rightharpoonup> partition_key set)" where
  "refresh_infos L t dyn [] ups = (False, [], ups)"
| "refresh_infos L t dyn (c # cs) ups =
     (case ai_partition_info c of
        None \<Rightarrow> (case refresh_infos L t dyn cs ups of (ch, cs', ups') \<Rightarrow> (ch, c # cs', ups'))
      | Some pi \<Rightarrow>
          (case refresh_universe L t dyn (pi_universe pi) (pi_all_keys pi) of
             (pi_changed, u', ks') \<Rightarrow>
               (let c' = c\<lparr>ai_partition_info := Some (pi\<lparr>pi_all_keys := ks', pi_universe := u'\<rparr>)\<rparr>;
                    ups1 = (if pi_changed \<and> ups (ai_asset_key c) \<noteq> None
                            then ups(ai_asset_key c \<mapsto> ks') else ups)
                in case refresh_infos L t dyn cs ups1 of
                     (ch, cs', ups') \<Rightarrow> (pi_changed \<or> ch, c' # cs', ups'))))"

fun refresh_upstreams ::
  "('b, 'c) time_lib \<Rightarrow> int \<Rightarrow> (string \<rightharpoonup> string set) \<Rightarrow> (string \<times> partition_universe) list \<Rightarrow>
   (string \<rightharpoonup> partition_key set) \<Rightarrow> bool \<times> (string \<times> partition_universe) list \<times> (string \<rightharpoonup> partition_key set)" where
  "refresh_upstreams L t dyn [] ups = (False, [], ups)"
| "refresh_upstreams L t dyn ((asset, u) # us) ups =
     (case ups asset of
        None \<Rightarrow> (case refresh_upstreams L t dyn us ups of (ch, us', ups') \<Rightarrow> (ch, (asset, u) # us', ups'))
      | Some ks \<Rightarrow>
          (case refresh_universe L t dyn u ks of
             (u_changed, u', ks') \<Rightarrow>
               (case refresh_upstreams L t dyn us (ups(asset \<mapsto> ks')) of
                  (ch, us', ups') \<Rightarrow> (u_changed \<or> ch, (asset, u') # us', ups'))))"

definition refresh_partition_universes ::
  "('b, 'c) time_lib \<Rightarrow> int \<Rightarrow> (string \<rightharpoonup> string set) \<Rightarrow> condition_pass \<Rightarrow> condition_pass \<times> bool" where
  "refresh_partition_universes L t dyn p =
     (let (ch1, infos, ups1) = refresh_infos L t dyn (p_conditions p) (p_upstream_keys p);
          (ch2, us, ups2) = refresh_upstreams L t dyn (p_upstream_universes p) ups1
      in (p\<lparr>p_conditions := infos, p_upstream_universes := us, p_upstream_keys := ups2\<rparr>, ch1 \<or> ch2))"

definition ensure_time_based_eval_set :: "condition_pass \<Rightarrow> condition_pass" where
  "ensure_time_based_eval_set p =
     (if \<not> p_has_time_based p \<or> \<not> c_initialized (p_cache p) \<or> p_time_set p \<noteq> None then p
      else p\<lparr>p_time_set := Some (compute_time_based_eval_set
               (map (\<lambda>c. (ai_asset_key c, ai_condition c)) (p_conditions p)) (p_cache p))\<rparr>)"

definition should_skip :: "condition_pass \<Rightarrow> bool \<Rightarrow> bool" where
  "should_skip p has_changes \<longleftrightarrow>
     \<not> p_needs_retry p \<and> \<not> has_changes \<and> c_initialized (p_cache p) \<and>
     \<not> es_is_initial (p_eval_state p) \<and> \<not> p_has_time_based p"

section \<open>Evaluation\<close>

definition failed_keys :: "asset_cache \<Rightarrow> string set" where
  "failed_keys c =
     c_failed c \<union> {a. case c_partition_status c a of Some st \<Rightarrow> ps_failed st \<noteq> {} | None \<Rightarrow> False}"

definition asset_partition_context ::
  "('b, 'c) pass_env \<Rightarrow> condition_pass \<Rightarrow> int \<Rightarrow> asset_info \<Rightarrow> partition_context option" where
  "asset_partition_context V p tick info =
     (let c = p_cache p;
          pending = in_progress_partition_keys (ai_asset_key info) c
      in case (ai_partition_info info, c_partition_status c (ai_asset_key info)) of
           (Some pi, Some st) \<Rightarrow>
             Some \<lparr>all_keys = pi_all_keys pi,
                   pc_in_progress = (if pending = {} then ps_in_progress st else ps_in_progress st \<union> pending),
                   pc_failed = ps_failed st, pc_timestamps = ps_timestamps st,
                   pc_resolver = \<lparr>mappings = map_of (pi_mappings pi), upstream_partition_keys = p_upstream_keys p\<rparr>,
                   time_windows = Some (window_keys (pv_lib V) (pv_iter V) (p_window_sources p) (pv_local V tick)),
                   all_partition_statuses = c_partition_status c, dep_root_floor = None\<rparr>
         | _ \<Rightarrow> None)"

definition asset_context ::
  "('b, 'c) pass_env \<Rightarrow> condition_pass \<Rightarrow> int \<Rightarrow> (string \<rightharpoonup> key_selection) \<Rightarrow> asset_info \<Rightarrow> asset_record \<Rightarrow>
   asset_state \<Rightarrow> eval_context" where
  "asset_context V p tick requested info rec prev =
     (let c = p_cache p
      in \<lparr>target_key = ai_asset_key info, root_key = ai_asset_key info, target_record = rec,
          cache = \<lparr>records = c_records c, upstream_deps = c_upstream c,
                   in_progress_assets = fst ` set (c_in_progress c), failed_assets = failed_keys c,
                   failed_asset_timestamps = c_failed_ts c, backfill = c_backfill c\<rparr>,
          tags = \<lparr>last_run_tags = c_last_run_tags c, tick_materialization_tags = c_tick_tags c,
                  last_run_asset_names = c_last_run_names c\<rparr>,
          prev_state = prev, all_asset_states = es_assets (p_eval_state p),
          requested_this_tick = requested, now = tick,
          is_initial = (es_is_initial (p_eval_state p) \<or> asset_is_initial prev),
          partitions = asset_partition_context V p tick info, root_partition_floor = None,
          env = pv_eval V\<rparr>)"

fun evaluate_loop ::
  "('b, 'c) pass_env \<Rightarrow> condition_pass \<Rightarrow> int \<Rightarrow> bool \<Rightarrow> (nat \<times> asset_info) list \<Rightarrow> (string \<rightharpoonup> key_selection) \<Rightarrow>
   eval_row list option" where
  "evaluate_loop V p tick selective [] requested = Some []"
| "evaluate_loop V p tick selective ((idx, info) # rest) requested =
     (if selective \<and> (case p_time_set p of Some s \<Rightarrow> ai_asset_key info \<notin> s | None \<Rightarrow> False)
      then evaluate_loop V p tick selective rest requested
      else (case c_records (p_cache p) (ai_asset_key info) of
              None \<Rightarrow> evaluate_loop V p tick selective rest requested
            | Some rec \<Rightarrow>
                (case es_assets (p_eval_state p) (ai_asset_key info) of
                   None \<Rightarrow> None
                 | Some prev \<Rightarrow>
                     (let (res, tree) = evaluate_with_tree (pv_lib V) (ai_condition info)
                                          (asset_context V p tick requested info rec prev);
                          requested' = (if fired res
                                        then requested(ai_asset_key info \<mapsto>
                                               (case result_selection res of Some s \<Rightarrow> s | None \<Rightarrow> SelAll))
                                        else requested)
                      in map_option (Cons \<lparr>row_idx = idx, row_result = res, row_tree = tree\<rparr>)
                           (evaluate_loop V p tick selective rest requested')))))"

definition evaluate_pass ::
  "('b, 'c) pass_env \<Rightarrow> condition_pass \<Rightarrow> int \<Rightarrow> bool \<Rightarrow> eval_row list option" where
  "evaluate_pass V p tick selective =
     evaluate_loop V p tick selective (enumerate 0 (p_conditions p)) Map.empty"

section \<open>Classification\<close>

definition partition_info_for :: "condition_pass \<Rightarrow> string \<Rightarrow> partition_info option" where
  "partition_info_for p key =
     Option.bind (p_by_key p key)
       (\<lambda>i. if i < length (p_conditions p) then ai_partition_info (p_conditions p ! i) else None)"

definition mark_in_progress :: "string \<Rightarrow> (string \<times> run_map) list \<Rightarrow> (string \<times> run_map) list" where
  "mark_in_progress key ip = AList.update key (runs_of ip key) ip"

type_synonym classified = "(string \<times> run_map) list \<times> string list \<times> (string \<times> partition_key list) list"

definition classify_one ::
  "('b, 'c) pass_env \<Rightarrow> condition_pass \<Rightarrow> string \<times> key_selection option \<Rightarrow> classified \<Rightarrow> classified" where
  "classify_one V p tm acc =
     (case (tm, acc) of ((key, sel), (ip, unpart, parts)) \<Rightarrow>
        let dispatch_keys = (\<lambda>ks. if ks = [] then acc else (mark_in_progress key ip, unpart, parts @ [(key, ks)]));
            dispatch_whole = (mark_in_progress key ip, unpart @ [key], parts);
            dispatch_all = (case partition_info_for p key of
                              Some pi \<Rightarrow> dispatch_keys (pv_iter V (pi_all_keys pi)) | None \<Rightarrow> dispatch_whole)
        in case sel of
             None \<Rightarrow> dispatch_all
           | Some SelAll \<Rightarrow> dispatch_all
           | Some SelEmpty \<Rightarrow> dispatch_whole
           | Some (SelKeys ks) \<Rightarrow>
               (if ks = {} then dispatch_whole
                else dispatch_keys
                  (case partition_info_for p key of
                     Some pi \<Rightarrow> filter (\<lambda>k. k \<in> pi_all_keys pi) (pv_iter V ks)
                   | None \<Rightarrow> pv_iter V ks)))"

definition group_one ::
  "string \<times> partition_key list \<Rightarrow>
   (partition_key \<times> string list) list \<times> (string \<times> partition_key list) list \<Rightarrow>
   (partition_key \<times> string list) list \<times> (string \<times> partition_key list) list" where
  "group_one e acc =
     (case (e, acc) of ((key, ks), (single, multi)) \<Rightarrow>
        let sorted_keys = sort_key to_display ks
        in case sorted_keys of
             [k] \<Rightarrow> (AList.update k ((case map_of single k of Some as \<Rightarrow> as | None \<Rightarrow> []) @ [key]) single, multi)
           | _ \<Rightarrow> (single, multi @ [(key, sorted_keys)]))"

definition classify_materializations ::
  "('b, 'c) pass_env \<Rightarrow> (string \<times> key_selection option) list \<Rightarrow> condition_pass \<Rightarrow>
   condition_pass \<times> materialization_plan" where
  "classify_materializations V tms p =
     (let (ip, unpart, parts) = fold (classify_one V p) tms (c_in_progress (p_cache p), [], []);
          (single, multi) = fold group_one parts ([], [])
      in (p\<lparr>p_cache := (p_cache p)\<lparr>c_in_progress := ip\<rparr>\<rparr>,
          \<lparr>mp_unpartitioned = unpart, mp_single = single, mp_multi = multi\<rparr>))"

section \<open>Planning and committing a tick\<close>

definition info_key :: "condition_pass \<Rightarrow> nat \<Rightarrow> string option" where
  "info_key p i = (if i < length (p_conditions p) then Some (ai_asset_key (p_conditions p ! i)) else None)"

text \<open>Index and selection of the rows that fired; an index out of range would panic.\<close>

fun to_materialize :: "condition_pass \<Rightarrow> eval_row list \<Rightarrow> (string \<times> key_selection option) list option" where
  "to_materialize p [] = Some []"
| "to_materialize p (row # rows) =
     (if fired (row_result row)
      then Option.bind (info_key p (row_idx row)) (\<lambda>key.
             map_option (Cons (key, result_selection (row_result row))) (to_materialize p rows))
      else to_materialize p rows)"

definition plan_tick ::
  "('b, 'c) pass_env \<Rightarrow> int \<Rightarrow> bool \<Rightarrow> condition_pass \<Rightarrow> (condition_pass \<times> pass_output) option" where
  "plan_tick V tick selective p =
     Option.bind (evaluate_pass V p tick selective) (\<lambda>results.
     (let p1 = p\<lparr>p_eval_state := (p_eval_state p)\<lparr>es_is_initial := False\<rparr>\<rparr>
      in map_option (\<lambda>tms.
           let (p2, plan) = classify_materializations V tms p1
           in (p2, \<lparr>po_results = results, po_plan = plan\<rparr>)) (to_materialize p1 results)))"

fun skipped_assets :: "condition_pass \<Rightarrow> materialization_plan \<Rightarrow> eval_row list \<Rightarrow> string set \<Rightarrow> string set option" where
  "skipped_assets p mp [] skip = Some skip"
| "skipped_assets p mp (row # rows) skip =
     (if fired (row_result row)
      then Option.bind (info_key p (row_idx row)) (\<lambda>key.
             skipped_assets p mp rows (if key \<in> set (dispatched_asset_keys mp) then skip else insert key skip))
      else skipped_assets p mp rows skip)"

definition row_update_context :: "condition_pass \<Rightarrow> asset_info \<Rightarrow> asset_record \<Rightarrow> asset_state \<Rightarrow> int \<Rightarrow> update_context" where
  "row_update_context p info rec prev tick =
     \<lparr>uc_record_timestamp = last_timestamp rec, uc_data_version = last_data_version rec, uc_now = tick,
      uc_is_initial = asset_is_initial prev,
      uc_partition_timestamps =
        (if ai_partition_info info = None then None
         else map_option ps_timestamps (c_partition_status (p_cache p) (ai_asset_key info)))\<rparr>"

fun commit_rows ::
  "condition_pass \<Rightarrow> string set \<Rightarrow> int \<Rightarrow> eval_row list \<Rightarrow> (string \<rightharpoonup> asset_state) \<Rightarrow> string list \<Rightarrow>
   ((string \<rightharpoonup> asset_state) \<times> string list) option" where
  "commit_rows p skip tick [] assets roots = Some (assets, roots)"
| "commit_rows p skip tick (row # rows) assets roots =
     (if \<not> row_idx row < length (p_conditions p) then None
      else
        (let info = p_conditions p ! row_idx row; key = ai_asset_key info
         in if key \<in> skip then commit_rows p skip tick rows assets roots
            else (case c_records (p_cache p) key of
                    None \<Rightarrow> commit_rows p skip tick rows assets roots
                  | Some rec \<Rightarrow>
                      (case assets key of
                         None \<Rightarrow> None
                       | Some prev \<Rightarrow>
                           commit_rows p skip tick rows
                             (assets(key \<mapsto> update_condition_state (row_update_context p info rec prev tick)
                                              (row_result row) prev))
                             (if fired (row_result row) \<or> asset_is_initial prev then roots @ [key] else roots)))))"

definition mark_partitions_handled ::
  "string \<Rightarrow> partition_key list \<Rightarrow> (string \<rightharpoonup> asset_state) \<Rightarrow> (string \<rightharpoonup> asset_state)" where
  "mark_partitions_handled key ks assets =
     (case assets key of
        None \<Rightarrow> assets
      | Some s \<Rightarrow>
          (let ps = (case partition_state s of Some ps \<Rightarrow> ps | None \<Rightarrow> default_partition_state)
           in assets(key \<mapsto> s\<lparr>partition_state := Some (ps\<lparr>pst_handled := pst_handled ps \<union> canon ` set ks\<rparr>)\<rparr>)))"

definition mark_dispatched ::
  "materialization_plan \<Rightarrow> string set \<Rightarrow> (string \<rightharpoonup> asset_state) \<Rightarrow> (string \<rightharpoonup> asset_state)" where
  "mark_dispatched mp skip assets =
     fold (\<lambda>(key, ks) m. if key \<in> skip then m else mark_partitions_handled key ks m) (mp_multi mp)
       (fold (\<lambda>(pk, keys). fold (\<lambda>key m. if key \<in> skip then m else mark_partitions_handled key [pk] m) keys)
          (mp_single mp) assets)"

definition stamp_dispatched_handled ::
  "materialization_plan \<Rightarrow> string set \<Rightarrow> int \<Rightarrow> (string \<rightharpoonup> asset_state) \<Rightarrow> (string \<rightharpoonup> asset_state)" where
  "stamp_dispatched_handled mp skip tick assets =
     (\<lambda>key. if key \<in> set (dispatched_asset_keys mp) \<and> key \<notin> skip
            then map_option (\<lambda>s. s\<lparr>last_handled_timestamp := Some tick\<rparr>) (assets key) else assets key)"

definition commit_tick ::
  "pass_output \<Rightarrow> string set \<Rightarrow> int \<Rightarrow> condition_pass \<Rightarrow> (condition_pass \<times> bool) option" where
  "commit_tick out dispatch_failed tick p =
     Option.bind (skipped_assets p (po_plan out) (po_results out) dispatch_failed) (\<lambda>skip.
     Option.bind (commit_rows p skip tick (po_results out) (es_assets (p_eval_state p)) []) (\<lambda>(assets, roots).
     (let assets1 = (if roots = [] then assets
                     else update_dep_baselines roots (c_upstream (p_cache p)) (p_active p)
                            (c_partition_status (p_cache p)) (c_records (p_cache p)) assets);
          assets2 = stamp_dispatched_handled (po_plan out) skip tick (mark_dispatched (po_plan out) skip assets1);
          es = p_eval_state p;
          floors_moved = (es_failed_assets es \<noteq> c_failed_ts (p_cache p))
      in Some (p\<lparr>p_eval_state := es\<lparr>es_assets := assets2, es_failed_assets := c_failed_ts (p_cache p)\<rparr>,
                 p_needs_retry := (skip \<noteq> {})\<rparr>,
               roots \<noteq> [] \<or> floors_moved))))"

definition run_tick ::
  "('b, 'c) pass_env \<Rightarrow> int \<Rightarrow> bool \<Rightarrow> condition_pass \<Rightarrow> (condition_pass \<times> pass_output) option" where
  "run_tick V tick selective p =
     Option.bind (plan_tick V tick selective p) (\<lambda>(p1, out).
       map_option (\<lambda>(p2, advanced). (p2, out)) (commit_tick out {} tick p1))"

section \<open>The dispatch intent\<close>

definition row_dispatched_keys :: "materialization_plan \<Rightarrow> string \<Rightarrow> partition_key list" where
  "row_dispatched_keys mp key =
     map fst (filter (\<lambda>(pk, keys). key \<in> set keys) (mp_single mp)) @
     concat (map snd (filter (\<lambda>(a, ks). a = key) (mp_multi mp)))"

definition pending_state :: "condition_pass \<Rightarrow> eval_row \<Rightarrow> asset_info \<Rightarrow> asset_record \<Rightarrow> asset_state \<Rightarrow> int \<Rightarrow> asset_state" where
  "pending_state p row info rec prev tick =
     (let s = update_condition_state
                \<lparr>uc_record_timestamp = last_timestamp rec, uc_data_version = last_data_version rec,
                 uc_now = tick, uc_is_initial = asset_is_initial prev, uc_partition_timestamps = None\<rparr>
                (row_result row) (scalar_clone prev);
          deps = (case c_upstream (p_cache p) (ai_asset_key info) of Some ds \<Rightarrow> ds | None \<Rightarrow> [])
      in s\<lparr>dep_baselines :=
             fold (\<lambda>dep m. if dep \<in> p_active p then m
                           else m(dep \<mapsto> record_baseline (c_records (p_cache p)) dep)) deps (dep_baselines s),
           last_handled_timestamp := Some tick\<rparr>)"

fun pending_dispatch_states ::
  "condition_pass \<Rightarrow> materialization_plan \<Rightarrow> int \<Rightarrow> eval_row list \<Rightarrow>
   (string \<times> asset_state \<times> partition_key list) list option" where
  "pending_dispatch_states p mp tick [] = Some []"
| "pending_dispatch_states p mp tick (row # rows) =
     (if \<not> fired (row_result row) then pending_dispatch_states p mp tick rows
      else if \<not> row_idx row < length (p_conditions p) then None
      else
        (let info = p_conditions p ! row_idx row; key = ai_asset_key info
         in case (c_records (p_cache p) key, es_assets (p_eval_state p) key) of
              (Some rec, Some prev) \<Rightarrow>
                (if key \<in> set (dispatched_asset_keys mp)
                 then map_option (Cons (key, pending_state p row info rec prev tick, row_dispatched_keys mp key))
                        (pending_dispatch_states p mp tick rows)
                 else pending_dispatch_states p mp tick rows)
            | _ \<Rightarrow> pending_dispatch_states p mp tick rows))"

section \<open>Recovery\<close>

text \<open>
  Recovery reads the persisted intent, the runs that exist among the intent's run ids, and the
  backfills; any read may fail. The result lists the writes in order: a crash or a failed write
  leaves a prefix of them done.
\<close>

record backfill_row =
  br_backfill_id :: string
  br_create_time :: int
  br_asset_selection :: "string list"

record recovery_reads =
  rr_pending :: "string + pending_dispatch option"
  rr_runs :: "string list \<Rightarrow> string + string list"
  rr_backfills :: "string + backfill_row list"

datatype recovery_write = WriteEvalState eval_state | ClearPending

definition entry_dispatched :: "int \<Rightarrow> string list \<Rightarrow> backfill_row list \<Rightarrow> pending_entry \<Rightarrow> bool" where
  "entry_dispatched tick_ts existing backfills e =
     (if pe_run_ids e \<noteq> [] then list_ex (\<lambda>rid. rid \<in> set existing) (pe_run_ids e)
      else if pe_backfill_ids e \<noteq> []
           then list_ex (\<lambda>bid. list_ex (\<lambda>b. br_backfill_id b = bid) backfills) (pe_backfill_ids e)
      else list_ex (\<lambda>b. br_create_time b \<ge> tick_ts \<and> pe_asset_key e \<in> set (br_asset_selection b)) backfills)"

definition splice_entry :: "pending_entry \<Rightarrow> asset_state option \<Rightarrow> asset_state" where
  "splice_entry e slot =
     (let kept = Option.bind slot partition_state
      in (pe_committed e)\<lparr>partition_state :=
           (if pe_dispatched_keys e = [] then kept
            else (let ps = (case kept of Some ps \<Rightarrow> ps | None \<Rightarrow> default_partition_state)
                  in Some (ps\<lparr>pst_handled := pst_handled ps \<union> canon ` set (pe_dispatched_keys e)\<rparr>)))\<rparr>)"

definition entry_stale :: "int \<Rightarrow> (string \<rightharpoonup> asset_state) \<Rightarrow> pending_entry \<Rightarrow> bool" where
  "entry_stale tick_ts assets e =
     (case Option.bind (assets (pe_asset_key e)) last_tick_timestamp of Some lt \<Rightarrow> lt \<ge> tick_ts | None \<Rightarrow> False)"

fun recover_entries ::
  "int \<Rightarrow> string list \<Rightarrow> backfill_row list \<Rightarrow> pending_entry list \<Rightarrow> (string \<rightharpoonup> asset_state) \<Rightarrow>
   (string \<rightharpoonup> asset_state) \<times> nat" where
  "recover_entries tick_ts existing backfills [] assets = (assets, 0)"
| "recover_entries tick_ts existing backfills (e # es) assets =
     (if entry_stale tick_ts assets e \<or> \<not> entry_dispatched tick_ts existing backfills e
      then recover_entries tick_ts existing backfills es assets
      else (case recover_entries tick_ts existing backfills es
                   (assets(pe_asset_key e \<mapsto> splice_entry e (assets (pe_asset_key e)))) of
              (assets', n) \<Rightarrow> (assets', Suc n)))"

definition recover_pending_dispatch ::
  "recovery_reads \<Rightarrow> eval_state \<Rightarrow> eval_state \<times> recovery_write list \<times> (string + unit)" where
  "recover_pending_dispatch R es =
     (case rr_pending R of
        Inl err \<Rightarrow> (es, [], Inl err)
      | Inr None \<Rightarrow> (es, [], Inr ())
      | Inr (Some pd) \<Rightarrow>
          if pd_entries pd = [] then (es, [], Inr ())
          else
            (let es1 = es\<lparr>es_is_initial := False\<rparr>;
                 ids = concat (map pe_run_ids (pd_entries pd))
             in case (if ids = [] then Inr [] else rr_runs R ids) of
                  Inl err \<Rightarrow> (es1, [], Inl err)
                | Inr existing \<Rightarrow>
                    (case (if list_ex (\<lambda>e. pe_run_ids e = []) (pd_entries pd) then rr_backfills R else Inr []) of
                       Inl err \<Rightarrow> (es1, [], Inl err)
                     | Inr backfills \<Rightarrow>
                         (let (assets, recovered) =
                                recover_entries (pd_tick_timestamp pd) existing backfills (pd_entries pd) (es_assets es1);
                              es2 = es1\<lparr>es_assets := assets\<rparr>
                          in (es2, (if recovered > 0 then [WriteEvalState es2] else []) @ [ClearPending], Inr ())))))"

end
