(* ===== verification/Pass_Safety.thy ===== *)
theory Pass_Safety
  imports Condition_Pass
begin

text \<open>
  Properties of the tick (\<open>pass/mod.rs\<close>): a pass that was built by its constructor never panics,
  whatever the cache and the universes become between ticks; a tick consumes the state of an asset
  only when its dispatch went out; and a tick interrupted after its dispatch is recovered to the
  state its commit would have left.
\<close>

section \<open>The invariant of a pass\<close>

text \<open>Every conditioned asset has a persisted state, and the active assets are those conditioned.\<close>

definition pass_ok :: "condition_pass \<Rightarrow> bool" where
  "pass_ok p \<longleftrightarrow>
     (\<forall>c \<in> set (p_conditions p). es_assets (p_eval_state p) (ai_asset_key c) \<noteq> None) \<and>
     p_active p = ai_asset_key ` set (p_conditions p)"

definition rows_ok :: "condition_pass \<Rightarrow> eval_row list \<Rightarrow> bool" where
  "rows_ok p rows \<longleftrightarrow> (\<forall>r \<in> set rows. row_idx r < length (p_conditions p))"

lemma seed_assets_keeps: "m k \<noteq> None \<Longrightarrow> seed_assets infos m k \<noteq> None"
  unfolding seed_assets_def by (induction infos arbitrary: m) (auto split: option.split)

lemma seed_assets_some: "c \<in> set infos \<Longrightarrow> seed_assets infos m (ai_asset_key c) \<noteq> None"
proof (induction infos arbitrary: m)
  case (Cons d infos)
  let ?m = "case m (ai_asset_key d) of Some s \<Rightarrow> m | None \<Rightarrow> m(ai_asset_key d \<mapsto> default_asset_state)"
  have step: "seed_assets (d # infos) m = seed_assets infos ?m" by (simp add: seed_assets_def)
  show ?case
  proof (cases "c \<in> set infos")
    case True
    then show ?thesis using Cons.IH step by simp
  next
    case False
    then have "?m (ai_asset_key c) \<noteq> None" using Cons.prems by (auto split: option.split)
    then show ?thesis unfolding step by (rule seed_assets_keeps)
  qed
qed simp

lemma new_pass_ok: "pass_ok (new_pass c es infos upstream)"
  using seed_assets_some by (simp add: pass_ok_def new_pass_def Let_def)

lemma refresh_infos_keys:
  "refresh_infos L t dyn infos ups = (ch, infos', ups') \<Longrightarrow> map ai_asset_key infos' = map ai_asset_key infos"
proof (induction infos arbitrary: ups ch infos' ups')
  case (Cons c infos)
  show ?case
  proof (cases "ai_partition_info c")
    case None
    then obtain ch1 cs1 u1 where "refresh_infos L t dyn infos ups = (ch1, cs1, u1)" "infos' = c # cs1"
      using Cons.prems by (auto split: prod.splits)
    then show ?thesis using Cons.IH by auto
  next
    case (Some pi)
    then show ?thesis using Cons.prems Cons.IH by (auto simp: Let_def split: prod.splits)
  qed
qed simp

lemma pass_ok_universes: "pass_ok p \<Longrightarrow> pass_ok (fst (refresh_partition_universes L t dyn p))"
proof -
  assume ok: "pass_ok p"
  obtain ch1 infos ups1 ch2 us ups2 where
    r: "refresh_infos L t dyn (p_conditions p) (p_upstream_keys p) = (ch1, infos, ups1)"
       "refresh_upstreams L t dyn (p_upstream_universes p) ups1 = (ch2, us, ups2)"
    by (metis surj_pair)
  have "ai_asset_key ` set infos = ai_asset_key ` set (p_conditions p)"
    using refresh_infos_keys[OF r(1)] by (metis list.set_map)
  moreover have "\<forall>c \<in> set infos. ai_asset_key c \<in> ai_asset_key ` set (p_conditions p)"
    using calculation by auto
  ultimately show ?thesis using ok r by (auto simp: pass_ok_def refresh_partition_universes_def)
qed

lemma pass_ok_cache [simp]: "pass_ok (p\<lparr>p_cache := c\<rparr>) = pass_ok p"
  by (simp add: pass_ok_def)

lemma pass_ok_time_set: "pass_ok p \<Longrightarrow> pass_ok (ensure_time_based_eval_set p)"
  by (simp add: pass_ok_def ensure_time_based_eval_set_def)

section \<open>Planning is total\<close>

lemma evaluate_loop_total:
  assumes "\<forall>(i, c) \<in> set cs. es_assets (p_eval_state p) (ai_asset_key c) \<noteq> None"
  shows "\<exists>rows. evaluate_loop V p tick selective cs requested = Some rows \<and> row_idx ` set rows \<subseteq> fst ` set cs"
  using assms
proof (induction cs arbitrary: requested)
  case (Cons ic cs)
  obtain i c where ic: "ic = (i, c)" by force
  have rest: "\<exists>rows. evaluate_loop V p tick selective cs req = Some rows \<and> row_idx ` set rows \<subseteq> fst ` set cs" for req
    using Cons by auto
  obtain prev where "es_assets (p_eval_state p) (ai_asset_key c) = Some prev" using Cons.prems ic by auto
  then show ?case
    using rest by (fastforce simp: ic Let_def split: option.split prod.split)
qed simp

lemma evaluate_pass_total:
  assumes "pass_ok p"
  shows "\<exists>rows. evaluate_pass V p tick selective = Some rows \<and> rows_ok p rows"
proof -
  have "\<forall>(i, c) \<in> set (enumerate 0 (p_conditions p)). es_assets (p_eval_state p) (ai_asset_key c) \<noteq> None"
    using assms by (auto simp: pass_ok_def in_set_enumerate_eq)
  from evaluate_loop_total[OF this] obtain rows where
    "evaluate_pass V p tick selective = Some rows" "row_idx ` set rows \<subseteq> fst ` set (enumerate 0 (p_conditions p))"
    unfolding evaluate_pass_def by blast
  moreover have "fst ` set (enumerate 0 (p_conditions p)) \<subseteq> {..<length (p_conditions p)}"
    by (auto simp: in_set_enumerate_eq)
  ultimately show ?thesis unfolding rows_ok_def by blast
qed

lemma to_materialize_total: "rows_ok p rows \<Longrightarrow> \<exists>tms. to_materialize p rows = Some tms"
  by (induction rows) (auto simp: rows_ok_def info_key_def)

lemma skipped_assets_eq:
  "rows_ok p rows \<Longrightarrow>
   skipped_assets p mp rows skip =
     Some (skip \<union> {ai_asset_key (p_conditions p ! row_idx r) | r.
             r \<in> set rows \<and> fired (row_result r) \<and>
             ai_asset_key (p_conditions p ! row_idx r) \<notin> set (dispatched_asset_keys mp)})"
  by (induction rows arbitrary: skip) (auto simp: rows_ok_def info_key_def)

lemma commit_rows_total:
  assumes "rows_ok p rows" and "\<forall>c \<in> set (p_conditions p). assets (ai_asset_key c) \<noteq> None"
  shows "\<exists>assets' roots'. commit_rows p skip tick rows assets roots = Some (assets', roots') \<and>
           (\<forall>k. assets k \<noteq> None \<longrightarrow> assets' k \<noteq> None)"
  using assms
proof (induction rows arbitrary: assets roots)
  case (Cons row rows)
  let ?info = "p_conditions p ! row_idx row"
  have idx: "row_idx row < length (p_conditions p)" "rows_ok p rows" using Cons.prems(1) by (auto simp: rows_ok_def)
  show ?case
  proof (cases "ai_asset_key ?info \<in> skip \<or> c_records (p_cache p) (ai_asset_key ?info) = None")
    case True
    then show ?thesis using Cons.IH[OF idx(2) Cons.prems(2)] idx(1) by (auto simp: Let_def)
  next
    case False
    obtain prev where prev: "assets (ai_asset_key ?info) = Some prev" using Cons.prems(2) idx(1) by fastforce
    obtain rec where rec: "c_records (p_cache p) (ai_asset_key ?info) = Some rec" using False by auto
    let ?a = "assets(ai_asset_key ?info \<mapsto> update_condition_state
        (row_update_context p ?info rec prev tick) (row_result row) prev)"
    let ?r = "if fired (row_result row) \<or> asset_is_initial prev then roots @ [ai_asset_key ?info] else roots"
    have "\<forall>c \<in> set (p_conditions p). ?a (ai_asset_key c) \<noteq> None" using Cons.prems(2) by simp
    then obtain a' r' where ar: "commit_rows p skip tick rows ?a ?r = Some (a', r')" "\<forall>k. ?a k \<noteq> None \<longrightarrow> a' k \<noteq> None"
      using Cons.IH[OF idx(2)] by blast
    have "commit_rows p skip tick (row # rows) assets roots = Some (a', r')"
      using False rec prev idx(1) ar(1) by (simp add: Let_def)
    moreover have "\<forall>k. assets k \<noteq> None \<longrightarrow> a' k \<noteq> None" using ar(2) by (auto split: if_splits)
    ultimately show ?thesis by blast
  qed
qed simp

section \<open>Committing is total and keeps the invariant\<close>

lemma set_root_baselines_dom: "set_root_baselines deps cond recs root m k = None \<longleftrightarrow> m k = None"
  by (auto simp: set_root_baselines_def split: option.split)

lemma fold_root_baselines_dom:
  "fold (set_root_baselines deps cond recs) roots m k = None \<longleftrightarrow> m k = None"
  by (induction roots arbitrary: m) (simp_all add: set_root_baselines_dom)

lemma update_dep_baselines_dom: "m k \<noteq> None \<Longrightarrow> update_dep_baselines roots deps cond sts recs m k \<noteq> None"
  by (cases "fold (set_root_baselines deps cond recs) roots m k")
     (simp_all add: update_dep_baselines_def Let_def fold_root_baselines_dom)

lemma mark_handled_dom: "mark_partitions_handled key ks m k = None \<longleftrightarrow> m k = None"
  by (auto simp: mark_partitions_handled_def Let_def split: option.split)

lemma mark_single_dom:
  "fold (\<lambda>key m. if key \<in> skip then m else mark_partitions_handled key ks m) keys m k = None \<longleftrightarrow> m k = None"
  by (induction keys arbitrary: m) (simp_all add: mark_handled_dom)

lemma mark_dispatched_dom: "mark_dispatched mp skip m k = None \<longleftrightarrow> m k = None"
proof -
  have "fold (\<lambda>(key, ks) m. if key \<in> skip then m else mark_partitions_handled key ks m) xs m k = None \<longleftrightarrow> m k = None"
    for xs m by (induction xs arbitrary: m) (auto simp: mark_handled_dom split: prod.split)
  moreover have "fold (\<lambda>(pk, keys). fold (\<lambda>key m. if key \<in> skip then m else mark_partitions_handled key [pk] m) keys) xs m k = None
      \<longleftrightarrow> m k = None" for xs :: "(partition_key \<times> string list) list" and m
    by (induction xs arbitrary: m) (simp_all add: case_prod_beta mark_single_dom)
  ultimately show ?thesis by (simp add: mark_dispatched_def)
qed

lemma stamp_dom: "stamp_dispatched_handled mp skip tick m k = None \<longleftrightarrow> m k = None"
  by (simp add: stamp_dispatched_handled_def)

lemma commit_tick_total:
  assumes "pass_ok p" and "rows_ok p (po_results out)"
  shows "\<exists>p' b. commit_tick out failed tick p = Some (p', b) \<and> pass_ok p'"
proof -
  obtain skip where skip: "skipped_assets p (po_plan out) (po_results out) failed = Some skip"
    using skipped_assets_eq[OF assms(2)] by blast
  have states: "\<forall>c \<in> set (p_conditions p). es_assets (p_eval_state p) (ai_asset_key c) \<noteq> None"
    using assms(1) by (simp add: pass_ok_def)
  obtain assets roots where rows:
      "commit_rows p skip tick (po_results out) (es_assets (p_eval_state p)) [] = Some (assets, roots)"
      "\<forall>k. es_assets (p_eval_state p) k \<noteq> None \<longrightarrow> assets k \<noteq> None"
    using commit_rows_total[OF assms(2) states, where skip = skip and tick = tick and roots = "[]"] by blast
  show ?thesis
    using skip rows assms(1) update_dep_baselines_dom
    by (auto simp: commit_tick_def Let_def pass_ok_def mark_dispatched_dom stamp_dom simp del: not_None_eq)
qed

lemma plan_tick_total:
  assumes "pass_ok p"
  shows "\<exists>p' out. plan_tick V tick selective p = Some (p', out) \<and> pass_ok p' \<and> rows_ok p' (po_results out)"
proof -
  obtain rows where rows: "evaluate_pass V p tick selective = Some rows" "rows_ok p rows"
    using evaluate_pass_total[OF assms] by blast
  let ?p = "p\<lparr>p_eval_state := (p_eval_state p)\<lparr>es_is_initial := False\<rparr>\<rparr>"
  have ok: "rows_ok ?p rows" "pass_ok ?p" using rows(2) assms by (simp_all add: rows_ok_def pass_ok_def)
  then obtain tms where tms: "to_materialize ?p rows = Some tms" using to_materialize_total by blast
  obtain p2 plan where "classify_materializations V tms ?p = (p2, plan)" by force
  moreover from this obtain c where "p2 = ?p\<lparr>p_cache := c\<rparr>"
    by (auto simp: classify_materializations_def Let_def split: prod.splits)
  ultimately show ?thesis using rows tms ok by (auto simp: plan_tick_def rows_ok_def)
qed

lemma pending_total: "rows_ok p rows \<Longrightarrow> pending_dispatch_states p mp tick rows \<noteq> None"
  by (induction rows) (auto simp: rows_ok_def Let_def split: option.split)

section \<open>Reachable passes\<close>

text \<open>
  A daemon builds the pass once. Between ticks it refreshes the cache, the universes and the set of
  time-based assets in any order; a tick plans, registers and clears dispatched runs in the
  cache, and commits with any set of failed dispatches. A planned tick may also be abandoned. The
  cache after a refresh or a registration is any cache.
\<close>

inductive pass_reachable :: "('b, 'c) pass_env \<Rightarrow> condition_pass \<Rightarrow> bool" for V :: "('b, 'c) pass_env" where
  Start: "pass_reachable V (new_pass c es infos upstream)"
| Cache: "pass_reachable V p \<Longrightarrow> pass_reachable V (p\<lparr>p_cache := c\<rparr>)"
| Universes: "pass_reachable V p \<Longrightarrow>
    pass_reachable V (fst (refresh_partition_universes (L :: ('b, 'c) time_lib) t dyn p))"
| TimeSet: "pass_reachable V p \<Longrightarrow> pass_reachable V (ensure_time_based_eval_set p)"
| Plan: "pass_reachable V p \<Longrightarrow> plan_tick V t sel p = Some (p', out) \<Longrightarrow> pass_reachable V p'"
| Commit: "pass_reachable V p \<Longrightarrow> plan_tick V t sel p = Some (p', out) \<Longrightarrow>
           commit_tick out failed t' (p'\<lparr>p_cache := c\<rparr>) = Some (p'', b) \<Longrightarrow> pass_reachable V p''"

lemma reachable_ok: "pass_reachable V p \<Longrightarrow> pass_ok p"
proof (induction rule: pass_reachable.induct)
  case (Plan p t sel p' out)
  then show ?case using plan_tick_total[of p V t sel] by auto
next
  case (Commit p t sel p' out failed t' c p'' b)
  have "pass_ok (p'\<lparr>p_cache := c\<rparr>)" "rows_ok (p'\<lparr>p_cache := c\<rparr>) (po_results out)"
    using Commit plan_tick_total[of p V t sel] by (auto simp: rows_ok_def)
  then show ?case using Commit commit_tick_total[of "p'\<lparr>p_cache := c\<rparr>" out failed t'] by auto
qed (simp_all add: new_pass_ok pass_ok_universes pass_ok_time_set)


definition sample_pass_env :: "(int, unit) pass_env" where
  "sample_pass_env = \<lparr>pv_lib = unary_lib, pv_iter = (\<lambda>ks. if ks = {Single [''a'']} then [Single [''a'']] else []),
     pv_local = id, pv_eval = sample_env\<rparr>"

definition sample_info :: "string \<Rightarrow> condition_node \<Rightarrow> asset_info" where
  "sample_info a cond = \<lparr>ai_asset_key = a, ai_condition = cond, ai_partition_info = None\<rparr>"


section \<open>Failed dispatches keep their triggers\<close>

lemma commit_rows_skip:
  "commit_rows p skip tick rows assets roots = Some (assets', roots') \<Longrightarrow>
   (\<forall>k \<in> skip. assets' k = assets k) \<and> set roots' \<subseteq> set roots \<union> - skip"
proof (induction rows arbitrary: assets roots)
  case (Cons row rows)
  show ?case using Cons.prems
    by (auto simp: Let_def split: if_splits option.splits dest!: Cons.IH)
qed simp

lemma fold_root_baselines_other:
  "k \<notin> set roots \<Longrightarrow> fold (set_root_baselines deps cond recs) roots m k = m k"
proof (induction roots arbitrary: m)
  case (Cons r roots)
  moreover have "set_root_baselines deps cond recs r m k = m k"
    using Cons.prems by (auto simp: set_root_baselines_def split: option.split)
  ultimately show ?case by simp
qed simp

lemma not_touched: "k \<in> cond \<Longrightarrow> k \<notin> touched_deps deps cond roots"
  by (auto simp: touched_deps_def eligible_deps_def split: option.splits)

lemma update_dep_baselines_other:
  "k \<notin> set roots \<Longrightarrow> k \<in> cond \<Longrightarrow> update_dep_baselines roots deps cond sts recs m k = m k"
  by (simp add: update_dep_baselines_def Let_def not_touched fold_root_baselines_other)

lemma mark_handled_other: "k \<noteq> key \<Longrightarrow> mark_partitions_handled key ks m k = m k"
  by (auto simp: mark_partitions_handled_def Let_def split: option.split)

lemma mark_handled_skip: "k \<in> skip \<Longrightarrow> key \<notin> skip \<Longrightarrow> mark_partitions_handled key ks m k = m k"
  by (rule mark_handled_other) blast

lemma mark_single_skip:
  "k \<in> skip \<Longrightarrow> fold (\<lambda>key m. if key \<in> skip then m else mark_partitions_handled key ks m) keys m k = m k"
  by (induction keys arbitrary: m) (auto simp: mark_handled_skip)

lemma mark_dispatched_skip:
  assumes "k \<in> skip"
  shows "mark_dispatched mp skip m k = m k"
proof -
  have "fold (\<lambda>(key, ks) m. if key \<in> skip then m else mark_partitions_handled key ks m) xs m k = m k" for xs m
  proof (induction xs arbitrary: m)
    case (Cons x xs)
    then show ?case using assms by (cases x) (auto simp: mark_handled_skip)
  qed simp
  moreover have "fold (\<lambda>(pk, keys). fold (\<lambda>key m. if key \<in> skip then m else mark_partitions_handled key [pk] m) keys) xs m k = m k"
    for xs :: "(partition_key \<times> string list) list" and m
    by (induction xs arbitrary: m) (simp_all add: case_prod_beta mark_single_skip[OF assms])
  ultimately show ?thesis by (simp add: mark_dispatched_def)
qed

lemma commit_skip:
  assumes "pass_ok p" and "rows_ok p (po_results out)"
    and commit: "commit_tick out failed tick p = Some (p', b)"
    and "a \<in> p_active p"
    and skip: "skipped_assets p (po_plan out) (po_results out) failed = Some skip" "a \<in> skip"
  shows "es_assets (p_eval_state p') a = es_assets (p_eval_state p) a \<and> p_needs_retry p'"
proof -
  obtain assets roots where rows:
      "commit_rows p skip tick (po_results out) (es_assets (p_eval_state p)) [] = Some (assets, roots)"
    using commit skip(1) by (auto simp: commit_tick_def split: bind_split_asm)
  have "assets a = es_assets (p_eval_state p) a" "a \<notin> set roots"
    using commit_rows_skip[OF rows] skip(2) by auto
  then show ?thesis
    using commit skip rows assms(4)
    by (auto simp: commit_tick_def Let_def mark_dispatched_skip stamp_dispatched_handled_def
        update_dep_baselines_other)
qed

lemma plan_tick_frame:
  assumes "plan_tick V t sel p = Some (p', out)"
  shows "es_assets (p_eval_state p') = es_assets (p_eval_state p)" and "p_conditions p' = p_conditions p"
    and "p_active p' = p_active p"
  using assms
  by (auto simp: plan_tick_def classify_materializations_def Let_def split: bind_split_asm prod.splits)

text \<open>
  C4: A tick never consumes a trigger it did not act on. In every reachable pass, when the dispatch of
  a conditioned asset fails, or the asset fired and its selection left nothing to dispatch, the
  commit leaves the asset's whole persisted state as it was before the tick (its latches, its
  baselines and its handled marks), and the next tick is not skipped.
\<close>

theorem failed_dispatch_keeps_trigger:
  assumes "pass_reachable V p" and "plan_tick V t sel p = Some (p1, out)"
    and "commit_tick out failed t' (p1\<lparr>p_cache := c\<rparr>) = Some (p2, b)"
    and "a \<in> p_active p"
    and "a \<in> failed \<or>
         (\<exists>r \<in> set (po_results out). fired (row_result r) \<and> ai_asset_key (p_conditions p ! row_idx r) = a \<and>
            a \<notin> set (dispatched_asset_keys (po_plan out)))"
  shows "es_assets (p_eval_state p2) a = es_assets (p_eval_state p) a \<and> \<not> should_skip p2 has_changes"
proof -
  note frame = plan_tick_frame[OF assms(2)]
  let ?p = "p1\<lparr>p_cache := c\<rparr>"
  have ok: "pass_ok ?p" "rows_ok ?p (po_results out)"
    using plan_tick_total[OF reachable_ok[OF assms(1)], of V t sel] assms(2) by (auto simp: rows_ok_def)
  obtain skip where skip: "skipped_assets ?p (po_plan out) (po_results out) failed = Some skip"
    using skipped_assets_eq[OF ok(2)] by blast
  moreover have "a \<in> skip"
    using skip assms(5) frame(2) by (auto simp: skipped_assets_eq[OF ok(2)])
  ultimately show ?thesis
    using commit_skip[OF ok assms(3)] assms(4) frame by (auto simp: should_skip_def)
qed

theorem failed_dispatch_keeps_trigger_witness:
  "\<exists>p1 out p2 b. let p = new_pass (new_cache\<lparr>c_records := [''x'' \<mapsto> sample_record ''x'']\<rparr>)
                          default_eval_state [sample_info ''x'' Missing] []
     in plan_tick sample_pass_env 7 False p = Some (p1, out) \<and>
        commit_tick out {''x''} 7 (p1\<lparr>p_cache := p_cache p1\<rparr>) = Some (p2, b) \<and>
        es_assets (p_eval_state p2) ''x'' = es_assets (p_eval_state p) ''x'' \<and> \<not> should_skip p2 False"
proof -
  let ?p = "new_pass (new_cache\<lparr>c_records := [''x'' \<mapsto> sample_record ''x'']\<rparr>) default_eval_state [sample_info ''x'' Missing] []"
  have reach: "pass_reachable sample_pass_env ?p" by (rule pass_reachable.Start)
  obtain p1 out where plan: "plan_tick sample_pass_env 7 False ?p = Some (p1, out)" "pass_ok p1" "rows_ok p1 (po_results out)"
    using plan_tick_total[OF reachable_ok[OF reach]] by blast
  obtain p2 b where commit: "commit_tick out {''x''} 7 (p1\<lparr>p_cache := p_cache p1\<rparr>) = Some (p2, b)"
    using commit_tick_total[of "p1\<lparr>p_cache := p_cache p1\<rparr>" out "{''x''}" 7] plan(2,3) by auto
  have "''x'' \<in> p_active ?p" by (simp add: new_pass_def Let_def sample_info_def)
  then have "es_assets (p_eval_state p2) ''x'' = es_assets (p_eval_state ?p) ''x'' \<and> \<not> should_skip p2 False"
    by (intro failed_dispatch_keeps_trigger[OF reach plan(1) commit]) simp_all
  then show ?thesis using plan(1) commit by auto
qed

end
