(* ===== verification/Pass_Recovery.thy ===== *)
theory Pass_Recovery
  imports Pass_Safety
begin

text \<open>
  Recovery of an interrupted tick (\<open>recover_pending_dispatch\<close> in \<open>pass/mod.rs\<close>): the intent
  persisted before a tick's runs go out carries the state the commit would leave, splicing it
  reproduces that state up to the partition latches, which are derived again, and recovering twice
  is recovering once.
\<close>

section \<open>Recovering twice\<close>

lemma splice_tick [simp]: "last_tick_timestamp (splice_entry e slot) = last_tick_timestamp (pe_committed e)"
  by (simp add: splice_entry_def Let_def)

lemma recover_entries_settled:
  assumes "\<forall>e \<in> set es. entry_stale ts assets e \<or> \<not> entry_dispatched ts existing bfs e"
  shows "recover_entries ts existing bfs es assets = (assets, 0)"
  using assms by (induction es) auto

lemma stale_mono:
  assumes "entry_stale ts assets e" and "\<forall>e' \<in> set es. last_tick_timestamp (pe_committed e') = Some ts"
  shows "entry_stale ts (fst (recover_entries ts existing bfs es assets)) e"
  using assms
proof (induction es arbitrary: assets)
  case (Cons e' es)
  let ?assets = "assets(pe_asset_key e' \<mapsto> splice_entry e' (assets (pe_asset_key e')))"
  have "entry_stale ts ?assets e" using Cons.prems by (auto simp: entry_stale_def)
  then show ?case using Cons by (auto split: prod.split) (metis fst_conv)
qed simp

lemma recover_entries_stale:
  assumes "\<forall>e \<in> set es. last_tick_timestamp (pe_committed e) = Some ts" and "e \<in> set es"
    and "entry_dispatched ts existing bfs e"
  shows "entry_stale ts (fst (recover_entries ts existing bfs es assets)) e"
  using assms
proof (induction es arbitrary: assets)
  case (Cons e' es)
  let ?assets = "assets(pe_asset_key e' \<mapsto> splice_entry e' (assets (pe_asset_key e')))"
  have all: "\<forall>x \<in> set es. last_tick_timestamp (pe_committed x) = Some ts" using Cons.prems(1) by simp
  show ?case
  proof (cases "e = e'")
    case True
    then have "entry_stale ts (if entry_stale ts assets e' then assets else ?assets) e"
      using Cons.prems(1) by (auto simp: entry_stale_def)
    from stale_mono[OF this all] show ?thesis
      using True Cons.prems(3) by (auto split: prod.split) (metis fst_conv)+
  next
    case False
    then show ?thesis using Cons.IH[OF all] Cons.prems by (auto split: prod.split) (metis fst_conv)
  qed
qed simp

text \<open>
  C19: Recovery can itself be interrupted. When the daemon dies after persisting the recovered state
  and before clearing the intent, or a write fails there, recovering again from the persisted state
  with the same evidence changes nothing and only clears the intent. The intent's states carry the
  tick they were built in.
\<close>

theorem recovery_idempotent:
  assumes "rr_pending R = Inr (Some pd)" and "pd_entries pd \<noteq> []"
    and "\<forall>e \<in> set (pd_entries pd). last_tick_timestamp (pe_committed e) = Some (pd_tick_timestamp pd)"
    and "recover_pending_dispatch R es = (es', ws, Inr ())"
  shows "recover_pending_dispatch R es' = (es', [ClearPending], Inr ())"
proof -
  let ?ids = "concat (map pe_run_ids (pd_entries pd))"
  obtain existing bfs where reads: "(if ?ids = [] then Inr [] else rr_runs R ?ids) = Inr existing"
      "(if list_ex (\<lambda>e. pe_run_ids e = []) (pd_entries pd) then rr_backfills R else Inr []) = Inr bfs"
    using assms(1,2,4) by (auto simp: recover_pending_dispatch_def Let_def split: sum.splits prod.splits)
  let ?r = "recover_entries (pd_tick_timestamp pd) existing bfs (pd_entries pd)"
  have es': "es' = es\<lparr>es_is_initial := False, es_assets := fst (?r (es_assets es))\<rparr>"
    using assms(1,2,4) reads by (simp add: recover_pending_dispatch_def Let_def split: prod.splits)
  have "?r (fst (?r (es_assets es))) = (fst (?r (es_assets es)), 0)"
    using recover_entries_stale[OF assms(3)] by (intro recover_entries_settled) blast
  then show ?thesis using assms(1,2) reads es' by (simp add: recover_pending_dispatch_def Let_def)
qed

definition sample_pending :: pending_dispatch where
  "sample_pending = \<lparr>pd_tick_timestamp = 9, pd_entries =
     [\<lparr>pe_asset_key = ''x'', pe_run_ids = [''r''], pe_backfill_ids = [],
       pe_committed = default_asset_state\<lparr>last_tick_timestamp := Some 9\<rparr>, pe_dispatched_keys = [Single [''a'']]\<rparr>]\<rparr>"

definition sample_reads :: recovery_reads where
  "sample_reads = \<lparr>rr_pending = Inr (Some sample_pending), rr_runs = (\<lambda>ids. Inr ids), rr_backfills = Inr []\<rparr>"

theorem recovery_idempotent_witness:
  "let (es', ws, res) = recover_pending_dispatch sample_reads default_eval_state
   in length ws = 2 \<and> recover_pending_dispatch sample_reads es' = (es', [ClearPending], Inr ())"
proof -
  obtain es' ws res where r: "recover_pending_dispatch sample_reads default_eval_state = (es', ws, res)"
    by (metis surj_pair)
  then have "res = Inr ()" "length ws = 2"
    by (auto simp: recover_pending_dispatch_def sample_reads_def sample_pending_def default_eval_state_def
        entry_stale_def entry_dispatched_def Let_def)
  then show ?thesis
    using r recovery_idempotent[of sample_reads sample_pending default_eval_state es' ws]
    by (simp add: sample_reads_def sample_pending_def)
qed

section \<open>What a commit does to one asset\<close>

abbreviation row_key :: "condition_pass \<Rightarrow> eval_row \<Rightarrow> string" where
  "row_key p r \<equiv> ai_asset_key (p_conditions p ! row_idx r)"

lemma commit_rows_other:
  "commit_rows p skip tick rows assets roots = Some (assets', roots') \<Longrightarrow>
   (k \<notin> row_key p ` set rows \<longrightarrow> assets' k = assets k) \<and> set roots \<subseteq> set roots'"
proof (induction rows arbitrary: assets roots)
  case (Cons row rows)
  show ?case using Cons.prems
    by (auto simp: Let_def split: if_splits option.splits dest!: Cons.IH)
qed simp

lemma commit_rows_at:
  assumes "commit_rows p skip tick rows assets roots = Some (assets', roots')"
    and "distinct (map (row_key p) rows)" and "r \<in> set rows" and "row_key p r \<notin> skip"
    and "c_records (p_cache p) (row_key p r) = Some rec" and "assets (row_key p r) = Some prev"
  shows "assets' (row_key p r) =
           Some (update_condition_state (row_update_context p (p_conditions p ! row_idx r) rec prev tick) (row_result r) prev) \<and>
         (fired (row_result r) \<longrightarrow> row_key p r \<in> set roots')"
  using assms
proof (induction rows arbitrary: assets roots)
  case (Cons row rows)
  show ?case
  proof (cases "r = row")
    case True
    have new: "row_key p r \<notin> row_key p ` set rows" using True Cons.prems(2) by simp
    show ?thesis
      using True Cons.prems new
      by (auto simp: Let_def split: if_splits dest!: commit_rows_other[where k = "row_key p row"])
  next
    case False
    then have mem: "r \<in> set rows" and ne: "row_key p r \<noteq> row_key p row"
      using Cons.prems(2,3) by (auto simp: image_iff)
    show ?thesis using Cons.prems ne mem
      by (auto simp: Let_def split: if_splits option.splits dest!: Cons.IH)
  qed
qed simp

lemma fold_baselines:
  "fold (\<lambda>dep m. m(dep \<mapsto> g dep)) ds m = (\<lambda>k. if k \<in> set ds then Some (g k) else m k)"
  by (induction ds arbitrary: m) auto

lemma fold_baselines_guarded:
  "fold (\<lambda>dep m. if dep \<in> act then m else m(dep \<mapsto> g dep)) ds m =
     (\<lambda>k. if k \<in> set ds \<and> k \<notin> act then Some (g k) else m k)"
  by (induction ds arbitrary: m) auto

definition with_baselines :: "(string \<rightharpoonup> string list) \<Rightarrow> string set \<Rightarrow> (string \<rightharpoonup> asset_record) \<Rightarrow> string \<Rightarrow> asset_state \<Rightarrow> asset_state" where
  "with_baselines deps act recs a s =
     s\<lparr>dep_baselines := (\<lambda>k. if k \<in> set (eligible_deps deps act a) then Some (record_baseline recs k) else dep_baselines s k)\<rparr>"

lemma with_baselines_idem [simp]:
  "with_baselines deps act recs a (with_baselines deps act recs a s) = with_baselines deps act recs a s"
  by (simp add: with_baselines_def cong: if_cong)

lemma set_root_baselines_at:
  "set_root_baselines deps act recs root m a =
     (if a = root then map_option (with_baselines deps act recs a) (m a) else m a)"
  by (auto simp: set_root_baselines_def with_baselines_def fold_baselines split: option.split)

lemma fold_root_baselines_at:
  "fold (set_root_baselines deps act recs) roots m a =
     (if a \<in> set roots then map_option (with_baselines deps act recs a) (m a) else m a)"
  by (induction roots arbitrary: m) (auto simp: set_root_baselines_at option.map_comp comp_def)

lemma update_dep_baselines_at:
  "a \<in> act \<Longrightarrow> a \<in> set roots \<Longrightarrow>
   update_dep_baselines roots deps act sts recs m a = map_option (with_baselines deps act recs a) (m a)"
  by (simp add: update_dep_baselines_def Let_def not_touched fold_root_baselines_at)

text \<open>A state without its partition latches, and its handled keys.\<close>

definition handled_keys :: "asset_state \<Rightarrow> partition_key set" where
  "handled_keys s = (case partition_state s of Some ps \<Rightarrow> pst_handled ps | None \<Rightarrow> {})"

definition view :: "asset_state \<Rightarrow> asset_state \<times> partition_key set" where
  "view s = (scalar_clone s, handled_keys s)"

definition add_handled :: "partition_key set \<Rightarrow> asset_state \<times> partition_key set \<Rightarrow> asset_state \<times> partition_key set" where
  "add_handled K = map_prod id (\<lambda>h. h \<union> K)"

lemma add_handled_pair [simp]: "add_handled K (s, h) = (s, h \<union> K)"
  by (simp add: add_handled_def)

lemma add_handled_none [simp]: "map_option (add_handled {}) x = x"
  by (cases x) (auto simp: add_handled_def)

lemma view_mark:
  "map_option view (mark_partitions_handled key ks m k) =
     (if k = key then map_option (add_handled (canon ` set ks)) (map_option view (m k)) else map_option view (m k))"
  by (auto simp: mark_partitions_handled_def Let_def view_def handled_keys_def scalar_clone_def
      default_partition_state_def split: option.split)

lemma add_handled_twice:
  "map_option (add_handled K) (map_option (add_handled K') x) = map_option (add_handled (K' \<union> K)) x"
  by (cases x) (auto simp: Un_assoc)

lemma view_mark_keys:
  assumes "a \<notin> skip"
  shows "map_option view (fold (\<lambda>key m. if key \<in> skip then m else mark_partitions_handled key [pk] m) keys m a) =
         map_option (add_handled (if a \<in> set keys then {canon pk} else {})) (map_option view (m a))"
proof (induction keys arbitrary: m)
  case Nil
  then show ?case by simp
next
  case (Cons key keys)
  show ?case using assms
    by (auto simp: Cons view_mark add_handled_twice)
qed

lemma view_mark_single:
  assumes "a \<notin> skip"
  shows "map_option view (fold (\<lambda>(pk, keys). fold (\<lambda>key m. if key \<in> skip then m else mark_partitions_handled key [pk] m) keys) xs m a) =
         map_option (add_handled (canon ` fst ` set (filter (\<lambda>(pk, keys). a \<in> set keys) xs))) (map_option view (m a))"
proof (induction xs arbitrary: m)
  case Nil
  then show ?case by simp
next
  case (Cons x xs)
  then show ?case by (cases x) (auto simp: view_mark_keys[OF assms] add_handled_twice)
qed

lemma view_mark_multi:
  assumes "a \<notin> skip"
  shows "map_option view (fold (\<lambda>(key, ks) m. if key \<in> skip then m else mark_partitions_handled key ks m) xs m a) =
         map_option (add_handled (canon ` set (concat (map snd (filter (\<lambda>(b, ks). b = a) xs))))) (map_option view (m a))"
proof (induction xs arbitrary: m)
  case Nil
  then show ?case by simp
next
  case (Cons x xs)
  then show ?case using assms by (cases x) (auto simp: view_mark add_handled_twice image_Un)
qed

lemma view_mark_dispatched:
  assumes "a \<notin> skip"
  shows "map_option view (mark_dispatched mp skip m a) =
         map_option (add_handled (canon ` set (row_dispatched_keys mp a))) (map_option view (m a))"
  unfolding mark_dispatched_def
  by (simp add: view_mark_multi[OF assms] view_mark_single[OF assms] add_handled_twice row_dispatched_keys_def image_Un)

section \<open>The intent is the commit\<close>

lemma distinct_rows:
  assumes "evaluate_loop V p tick selective cs requested = Some rows" and "distinct (map fst cs)"
  shows "distinct (map row_idx rows) \<and> row_idx ` set rows \<subseteq> fst ` set cs"
  using assms
proof (induction cs arbitrary: requested rows)
  case (Cons ic cs)
  obtain i c where ic: "ic = (i, c)" by force
  have "(\<exists>req. evaluate_loop V p tick selective cs req = Some rows) \<or>
        (\<exists>req row rows'. evaluate_loop V p tick selective cs req = Some rows' \<and> rows = row # rows' \<and> row_idx row = i)"
    using Cons.prems(1) by (fastforce simp: ic Let_def split: if_splits option.splits prod.splits)
  then show ?case
  proof (elim disjE exE conjE)
    fix req
    assume "evaluate_loop V p tick selective cs req = Some rows"
    then show ?thesis using Cons.IH Cons.prems(2) by fastforce
  next
    fix req row rows'
    assume r: "evaluate_loop V p tick selective cs req = Some rows'" "rows = row # rows'" "row_idx row = i"
    then have "distinct (map row_idx rows')" "row_idx ` set rows' \<subseteq> fst ` set cs" "i \<notin> fst ` set cs"
      using Cons.IH[OF r(1)] Cons.prems(2) by (auto simp: ic)
    then show ?thesis using r(2,3) by (auto simp: ic)
  qed
qed simp

lemma plan_rows_distinct:
  assumes "plan_tick V t sel p = Some (p', out)" and "distinct (map ai_asset_key (p_conditions p))"
    and "rows_ok p' (po_results out)"
  shows "distinct (map (row_key p') (po_results out))"
proof -
  have "evaluate_loop V p t sel (enumerate 0 (p_conditions p)) Map.empty = Some (po_results out)"
    using assms(1) by (auto simp: plan_tick_def evaluate_pass_def Let_def case_prod_beta split: bind_split_asm)
  then have "distinct (map row_idx (po_results out))" using distinct_rows by fastforce
  moreover have "inj_on (\<lambda>i. ai_asset_key (p_conditions p ! i)) {..<length (p_conditions p)}"
    using assms(2) by (auto simp: inj_on_def distinct_conv_nth)
  ultimately show ?thesis
    using assms(3) unfolding plan_tick_frame(2)[OF assms(1)] rows_ok_def
    by (auto simp: distinct_map inj_on_def)
qed

definition entry_of :: "condition_pass \<Rightarrow> materialization_plan \<Rightarrow> int \<Rightarrow> eval_row \<Rightarrow> string \<times> asset_state \<times> partition_key list \<Rightarrow> bool" where
  "entry_of p mp tick r e \<longleftrightarrow> fired (row_result r) \<and> row_key p r \<in> set (dispatched_asset_keys mp) \<and>
     (\<exists>rec prev. c_records (p_cache p) (row_key p r) = Some rec \<and> es_assets (p_eval_state p) (row_key p r) = Some prev \<and>
        e = (row_key p r, pending_state p r (p_conditions p ! row_idx r) rec prev tick, row_dispatched_keys mp (row_key p r)))"

lemma pending_step:
  assumes "pending_dispatch_states p mp tick (row # rows) = Some entries"
  shows "\<exists>rest. pending_dispatch_states p mp tick rows = Some rest \<and>
           (entries = rest \<or> (\<exists>e. entries = e # rest \<and> entry_of p mp tick row e))"
  using assms by (auto simp: Let_def entry_of_def split: if_splits option.splits)

lemma pending_origin:
  "pending_dispatch_states p mp tick rows = Some entries \<Longrightarrow> e \<in> set entries \<Longrightarrow>
   \<exists>r \<in> set rows. entry_of p mp tick r e"
proof (induction rows arbitrary: entries)
  case (Cons row rows)
  show ?case using pending_step[OF Cons.prems(1)] Cons.IH Cons.prems(2) by fastforce
qed simp

lemma pending_keys:
  "pending_dispatch_states p mp tick rows = Some entries \<Longrightarrow> distinct (map (row_key p) rows) \<Longrightarrow>
   distinct (map fst entries) \<and> fst ` set entries \<subseteq> row_key p ` set rows"
proof (induction rows arbitrary: entries)
  case (Cons row rows)
  obtain rest where rest: "pending_dispatch_states p mp tick rows = Some rest"
      "entries = rest \<or> (\<exists>e. entries = e # rest \<and> fst e = row_key p row)"
    using pending_step[OF Cons.prems(1)] by (auto simp: entry_of_def)
  have ih: "distinct (map fst rest)" "fst ` set rest \<subseteq> row_key p ` set rows"
    using Cons.IH[OF rest(1)] Cons.prems(2) by auto
  moreover have "row_key p row \<notin> row_key p ` set rows" using Cons.prems(2) by simp
  ultimately have new: "row_key p row \<notin> fst ` set rest" by blast
  have "distinct (map fst entries)" using rest(2) ih(1) new by auto
  moreover have "fst ` set entries \<subseteq> insert (row_key p row) (fst ` set rest)" using rest(2) by auto
  ultimately show ?case using ih(2) by auto
qed simp

lemma recover_entries_at:
  assumes "distinct (map pe_asset_key es)" and "e \<in> set es" and "\<not> entry_stale ts assets e"
    and "entry_dispatched ts existing bfs e"
  shows "fst (recover_entries ts existing bfs es assets) (pe_asset_key e) =
         Some (splice_entry e (assets (pe_asset_key e)))"
proof -
  have other: "fst (recover_entries ts existing bfs xs m) k = m k" if "k \<notin> pe_asset_key ` set xs" for xs m k
    using that by (induction xs arbitrary: m) (auto split: prod.split, metis fst_conv fun_upd_apply)
  show ?thesis using assms
  proof (induction es arbitrary: assets)
    case (Cons x xs)
    show ?case
    proof (cases "e = x")
      case True
      then have "pe_asset_key e \<notin> pe_asset_key ` set xs" using Cons.prems(1) by auto
      then show ?thesis using True Cons.prems(3,4) other by (auto split: prod.split) (metis fst_conv fun_upd_same)
    next
      case False
      then have mem: "e \<in> set xs" using Cons.prems(2) by simp
      then have ne: "pe_asset_key e \<noteq> pe_asset_key x" using Cons.prems(1) by (metis distinct.simps(2) image_eqI list.set_map list.simps(9))
      let ?m = "if entry_stale ts assets x \<or> \<not> entry_dispatched ts existing bfs x then assets
                else assets(pe_asset_key x \<mapsto> splice_entry x (assets (pe_asset_key x)))"
      have "\<not> entry_stale ts ?m e" using Cons.prems(3) ne by (simp add: entry_stale_def)
      then have "fst (recover_entries ts existing bfs xs ?m) (pe_asset_key e) = Some (splice_entry e (assets (pe_asset_key e)))"
        using Cons.IH[of ?m] Cons.prems mem ne by simp
      then show ?thesis by (auto split: prod.splits if_splits)
    qed
  qed simp
qed

lemma view_splice:
  "view (splice_entry e slot) =
     (scalar_clone (pe_committed e), (case slot of Some s \<Rightarrow> handled_keys s | None \<Rightarrow> {}) \<union> canon ` set (pe_dispatched_keys e))"
  by (auto simp: view_def splice_entry_def Let_def handled_keys_def scalar_clone_def default_partition_state_def
      split: option.split)

lemma scalar_clone_idem [simp]: "scalar_clone (scalar_clone s) = scalar_clone s"
  by (simp add: scalar_clone_def)

lemma commit_state:
  assumes ok: "pass_ok p" "rows_ok p (po_results out)"
    and commit: "commit_tick out failed tick p = Some (p', b)"
    and rows: "distinct (map (row_key p) (po_results out))" "r \<in> set (po_results out)" "fired (row_result r)"
    and asset: "a = row_key p r" "a \<in> set (dispatched_asset_keys (po_plan out))" "a \<notin> failed"
      "c_records (p_cache p) a = Some rec" "es_assets (p_eval_state p) a = Some prev"
  shows "\<exists>h. map_option view (es_assets (p_eval_state p') a) =
           Some (pending_state p r (p_conditions p ! row_idx r) rec prev tick, h \<union> canon ` set (row_dispatched_keys (po_plan out) a))"
proof -
  obtain skip where skip: "skipped_assets p (po_plan out) (po_results out) failed = Some skip" and "a \<notin> skip"
    using skipped_assets_eq[OF ok(2), of "po_plan out" failed] asset(2,3) by auto
  obtain assets roots where cr:
      "commit_rows p skip tick (po_results out) (es_assets (p_eval_state p)) [] = Some (assets, roots)"
    using commit skip(1) by (auto simp: commit_tick_def split: bind_split_asm)
  let ?s = "update_condition_state (row_update_context p (p_conditions p ! row_idx r) rec prev tick) (row_result r) prev"
  have at: "assets a = Some ?s" "a \<in> set roots"
    using commit_rows_at[OF cr rows(1,2)] \<open>a \<notin> skip\<close> asset rows(3) by auto
  have "row_idx r < length (p_conditions p)" using ok(2) rows(2) by (simp add: rows_ok_def)
  then have act: "a \<in> p_active p" using ok(1) asset(1) by (auto simp: pass_ok_def)
  let ?b = "with_baselines (c_upstream (p_cache p)) (p_active p) (c_records (p_cache p)) a ?s"
  let ?m = "update_dep_baselines roots (c_upstream (p_cache p)) (p_active p) (c_partition_status (p_cache p)) (c_records (p_cache p)) assets"
  have m: "?m a = Some ?b" using at act by (simp add: update_dep_baselines_at)
  have fin: "es_assets (p_eval_state p') a =
      map_option (\<lambda>s. s\<lparr>last_handled_timestamp := Some tick\<rparr>) (mark_dispatched (po_plan out) skip ?m a)"
    using commit skip cr at(2) \<open>a \<notin> skip\<close> asset(2)
    by (auto simp: commit_tick_def Let_def stamp_dispatched_handled_def)
  have stamped: "view (s\<lparr>last_handled_timestamp := Some tick\<rparr>) = map_prod (\<lambda>s. s\<lparr>last_handled_timestamp := Some tick\<rparr>) id (view s)" for s
    by (simp add: view_def scalar_clone_def handled_keys_def)
  have "map_option view (es_assets (p_eval_state p') a) =
      map_option (map_prod (\<lambda>s. s\<lparr>last_handled_timestamp := Some tick\<rparr>) id)
        (map_option view (mark_dispatched (po_plan out) skip ?m a))"
    unfolding fin by (simp add: option.map_comp comp_def stamped)
  also have "\<dots> = Some ((scalar_clone ?b)\<lparr>last_handled_timestamp := Some tick\<rparr>,
      handled_keys ?b \<union> canon ` set (row_dispatched_keys (po_plan out) a))"
    unfolding view_mark_dispatched[OF \<open>a \<notin> skip\<close>] m by (simp add: view_def)
  also have "(scalar_clone ?b)\<lparr>last_handled_timestamp := Some tick\<rparr> =
      pending_state p r (p_conditions p ! row_idx r) rec prev tick"
  proof -
    have elig: "set (eligible_deps (c_upstream (p_cache p)) (p_active p) a) =
        {k \<in> set (case c_upstream (p_cache p) a of Some ds \<Rightarrow> ds | None \<Rightarrow> []). k \<notin> p_active p}"
      by (auto simp: eligible_deps_def split: option.split)
    show ?thesis
      unfolding pending_state_def Let_def fold_baselines_guarded with_baselines_def elig asset(1)[symmetric]
      by (rule asset_state.equality)
         (simp_all add: scalar_clone_def update_condition_state_def row_update_context_def split: option.split cong: if_cong)
  qed
  finally show ?thesis by blast
qed


definition sample_pass :: condition_pass where
  "sample_pass = new_pass (new_cache\<lparr>c_records := [''x'' \<mapsto> sample_record ''x'']\<rparr>) default_eval_state
     [sample_info ''x'' Missing] []"

definition sample_row :: eval_row where
  "sample_row =
     \<lparr>row_idx = 0,
      row_result = \<lparr>fired = True, sub_results = Map.empty, result_selection = None, sub_selections = None,
        dep_sub_results = Map.empty, dep_sub_selections = None\<rparr>,
      row_tree = Some (new_tree (env_labels sample_env) Missing 0 STrue [] None)\<rparr>"

definition sample_out :: pass_output where
  "sample_out = \<lparr>po_results = [sample_row], po_plan = \<lparr>mp_unpartitioned = [''x''], mp_single = [], mp_multi = []\<rparr>\<rparr>"

lemma sample_evaluation: "evaluate_pass sample_pass_env sample_pass 7 False = Some [sample_row]"
  by (simp add: evaluate_pass_def sample_pass_def new_pass_def Let_def sample_info_def seed_assets_def
      default_eval_state_def rehydrate_floors_def set_needs_tick_tags_def set_partitioned_assets_def new_cache_def
      evaluate_with_tree_def run_def asset_context_def asset_partition_context_def root_scope_def bool_domain_def
      sample_pass_env_def sample_record_def bool_assemble_def case_prod_beta eval_leaf_at_def finish_def sample_row_def)

lemma sample_keys: "p_conditions sample_pass = [sample_info ''x'' Missing]" "p_by_key sample_pass = [''x'' \<mapsto> 0]"
  by (simp_all add: sample_pass_def new_pass_def Let_def index_by_key_def sample_info_def)

definition sample_planned :: condition_pass where
  "sample_planned = sample_pass
     \<lparr>p_eval_state := (p_eval_state sample_pass)\<lparr>es_is_initial := False\<rparr>,
      p_cache := (p_cache sample_pass)\<lparr>c_in_progress := mark_in_progress ''x'' (c_in_progress (p_cache sample_pass))\<rparr>\<rparr>"

lemma sample_plan: "plan_tick sample_pass_env 7 False sample_pass = Some (sample_planned, sample_out)"
  by (simp add: plan_tick_def sample_evaluation sample_row_def info_key_def sample_keys sample_info_def Let_def
      classify_materializations_def classify_one_def partition_info_for_def sample_out_def sample_planned_def)

definition sample_entry :: pending_entry where
  "sample_entry =
     \<lparr>pe_asset_key = ''x'', pe_run_ids = [''run1''], pe_backfill_ids = [],
      pe_committed = pending_state sample_planned sample_row (sample_info ''x'' Missing) (sample_record ''x'') default_asset_state 7,
      pe_dispatched_keys = []\<rparr>"

lemma sample_pending_states:
  "pending_dispatch_states sample_planned (po_plan sample_out) 7 (po_results sample_out) =
     Some (map (\<lambda>e. (pe_asset_key e, pe_committed e, pe_dispatched_keys e)) [sample_entry])"
proof -
  have "c_records (p_cache sample_planned) ''x'' = Some (sample_record ''x'')"
    and "es_assets (p_eval_state sample_planned) ''x'' = Some default_asset_state"
    by (simp_all add: sample_planned_def sample_pass_def new_pass_def Let_def rehydrate_floors_def
        set_needs_tick_tags_def set_partitioned_assets_def seed_assets_def default_eval_state_def sample_info_def)
  moreover have "p_conditions sample_planned = [sample_info ''x'' Missing]" by (simp add: sample_planned_def sample_keys)
  moreover have "row_idx sample_row = 0" "fired (row_result sample_row)" by (simp_all add: sample_row_def)
  moreover have "ai_asset_key (sample_info ''x'' Missing) = ''x''" by (simp add: sample_info_def)
  ultimately show ?thesis
    by (simp add: sample_out_def sample_entry_def dispatched_asset_keys_def row_dispatched_keys_def Let_def)
qed


end
