(* ===== verification/Pass_Dispatch.thy ===== *)
theory Pass_Dispatch
  imports Condition_Pass
begin

text \<open>
  The classification of fired assets into dispatch shapes (\<open>classify_materializations\<close> in
  \<open>pass/mod.rs\<close>) against its specification: which assets go out whole, which with which
  partition keys, and which not at all.
\<close>

section \<open>Specification\<close>

datatype target_shape = Whole | Parts "partition_key set"

definition dispatch_target :: "condition_pass \<Rightarrow> string \<Rightarrow> key_selection option \<Rightarrow> target_shape" where
  "dispatch_target p a sel =
     (case sel of
        Some SelEmpty \<Rightarrow> Whole
      | Some (SelKeys ks) \<Rightarrow>
          (if ks = {} then Whole
           else Parts (case partition_info_for p a of Some pi \<Rightarrow> ks \<inter> pi_all_keys pi | None \<Rightarrow> ks))
      | _ \<Rightarrow> (case partition_info_for p a of Some pi \<Rightarrow> Parts (pi_all_keys pi) | None \<Rightarrow> Whole))"

text \<open>
  \<open>iter_ok\<close>: iterating a finite hash set yields each of its elements once. \<open>finite_target\<close>: the
  selections and key sets involved are finite, as hash sets are.
\<close>

definition iter_ok :: "(partition_key set \<Rightarrow> partition_key list) \<Rightarrow> bool" where
  "iter_ok iter \<longleftrightarrow> (\<forall>K. finite K \<longrightarrow> set (iter K) = K \<and> distinct (iter K))"

definition finite_target :: "condition_pass \<Rightarrow> string \<times> key_selection option \<Rightarrow> bool" where
  "finite_target p tm \<longleftrightarrow>
     (case snd tm of Some (SelKeys ks) \<Rightarrow> finite ks | _ \<Rightarrow> True) \<and>
     (case partition_info_for p (fst tm) of Some pi \<Rightarrow> finite (pi_all_keys pi) | None \<Rightarrow> True)"

section \<open>The two loops\<close>

definition part_entry :: "('b, 'c) pass_env \<Rightarrow> condition_pass \<Rightarrow> string \<times> key_selection option \<Rightarrow> (string \<times> partition_key list) list" where
  "part_entry V p tm = (let parts = snd (snd (classify_one V p tm ([], [], []))) in parts)"

lemma classify_one_acc:
  "snd (classify_one V p tm (ip, un, ps)) =
     (un @ (if dispatch_target p (fst tm) (snd tm) = Whole then [fst tm] else []), ps @ part_entry V p tm)"
  by (cases tm)
     (auto simp: classify_one_def part_entry_def dispatch_target_def Let_def split: option.splits selection.splits)

lemma part_entry_spec:
  assumes "iter_ok (pv_iter V)" and "finite_target p tm"
  shows "(case dispatch_target p (fst tm) (snd tm) of
            Whole \<Rightarrow> part_entry V p tm = []
          | Parts K \<Rightarrow> if K = {} then part_entry V p tm = []
                       else \<exists>ks. part_entry V p tm = [(fst tm, ks)] \<and> set ks = K \<and> distinct ks)"
proof -
  have it: "set (pv_iter V K) = K \<and> distinct (pv_iter V K)" if "finite K" for K
    using assms(1) that by (simp add: iter_ok_def)
  obtain a sel where tm: "tm = (a, sel)" by force
  have set_empty: "pv_iter V K = [] \<longleftrightarrow> K = {}" if "finite K" for K using it[OF that] by (metis set_empty)
  show ?thesis using assms(2) it
    by (auto simp: tm part_entry_def classify_one_def dispatch_target_def finite_target_def Let_def set_empty
        filter_empty_conv split: option.splits selection.splits)
qed

lemma fold_classify:
  "snd (fold (classify_one V p) tms (ip, un, ps)) =
     (un @ map fst (filter (\<lambda>tm. dispatch_target p (fst tm) (snd tm) = Whole) tms),
      ps @ concat (map (part_entry V p) tms))"
proof (induction tms arbitrary: ip un ps)
  case (Cons tm tms)
  obtain ip' un' ps' where "classify_one V p tm (ip, un, ps) = (ip', un', ps')" by (metis surj_pair)
  moreover from this have "un' = un @ (if dispatch_target p (fst tm) (snd tm) = Whole then [fst tm] else [])"
    "ps' = ps @ part_entry V p tm"
    using classify_one_acc[of V p tm ip un ps] by auto
  ultimately show ?case by (simp add: Cons)
qed simp

text \<open>Which assets a grouped entry names, and with which keys.\<close>

definition group_of :: "(partition_key \<times> string list) list \<Rightarrow> string \<Rightarrow> partition_key set" where
  "group_of single a = fst ` {e \<in> set single. a \<in> set (snd e)}"

abbreviation push_group :: "partition_key \<Rightarrow> string \<Rightarrow> (partition_key \<times> string list) list \<Rightarrow> (partition_key \<times> string list) list" where
  "push_group k b single \<equiv> AList.update k ((case map_of single k of Some as \<Rightarrow> as | None \<Rightarrow> []) @ [b]) single"

lemma group_of_push: "group_of (push_group k b single) a = group_of single a \<union> (if a = b then {k} else {})"
proof (induction single)
  case (Cons e single)
  have "group_of (e # xs) a = (if a \<in> set (snd e) then {fst e} else {}) \<union> group_of xs a" for e xs
    by (auto simp: group_of_def)
  then show ?case using Cons by (cases e) auto
qed (auto simp: group_of_def)

lemma mset_push: "mset (concat (map snd (push_group k b single))) = mset (concat (map snd single)) + {#b#}"
proof (induction single)
  case (Cons e single)
  then show ?case by (cases e) auto
qed simp

lemma group_one_cases:
  "group_one (a, ks) (single, multi) =
     (if length ks = 1 then (push_group (hd ks) a single, multi)
      else (single, multi @ [(a, sort_key to_display ks)]))"
proof (cases "length ks = 1")
  case True
  then obtain k where "ks = [k]" by (auto simp: length_Suc_conv)
  then show ?thesis by (simp add: group_one_def Let_def)
next
  case False
  then have "length (sort_key to_display ks) \<noteq> 1" by simp
  then show ?thesis using False
    by (auto simp: group_one_def Let_def split: list.split dest: arg_cong[where f = length])
qed

abbreviation grouped_assets :: "(partition_key \<times> string list) list \<times> (string \<times> partition_key list) list \<Rightarrow> string multiset" where
  "grouped_assets sm \<equiv> mset (concat (map snd (fst sm)) @ map fst (snd sm))"

abbreviation grouped_keys :: "string \<Rightarrow> (partition_key \<times> string list) list \<times> (string \<times> partition_key list) list \<Rightarrow> partition_key set" where
  "grouped_keys a sm \<equiv> group_of (fst sm) a \<union> set (concat (map snd (filter (\<lambda>(b, ks). b = a) (snd sm))))"

lemma group_one_assets: "grouped_assets (group_one e sm) = add_mset (fst e) (grouped_assets sm)"
  by (cases e; cases sm) (auto simp: group_one_cases mset_push)

lemma group_one_keys: "grouped_keys a (group_one e sm) = grouped_keys a sm \<union> (if fst e = a then set (snd e) else {})"
  by (cases e; cases sm) (auto simp: group_one_cases group_of_push length_Suc_conv)

lemma fold_group_assets: "grouped_assets (fold group_one parts sm) = grouped_assets sm + mset (map fst parts)"
proof (induction parts arbitrary: sm)
  case (Cons e parts)
  show ?case using Cons[of "group_one e sm"] group_one_assets[of e sm] by simp
qed simp

lemma fold_group_keys:
  "grouped_keys a (fold group_one parts sm) =
   grouped_keys a sm \<union> (\<Union>(b, ks) \<in> set parts. if b = a then set ks else {})"
proof (induction parts arbitrary: sm)
  case (Cons e parts)
  have "(\<Union>(b, ks) \<in> set (e # parts). if b = a then set ks else {}) =
      (if fst e = a then set (snd e) else {}) \<union> (\<Union>(b, ks) \<in> set parts. if b = a then set ks else {})"
    by (auto split: if_splits)
  then show ?case using Cons[of "group_one e sm"] group_one_keys[where a = a and e = e and sm = sm] by (simp only: fold_simps Un_assoc)
qed simp

section \<open>The plan\<close>

lemma distinct_submset:
  assumes "mset xs \<subseteq># mset ys" and "distinct ys"
  shows "distinct xs"
  unfolding distinct_count_atmost_1
proof
  fix x
  have "count (mset xs) x \<le> count (mset ys) x" using assms(1) by (rule mset_subset_eq_count)
  moreover have "count (mset ys) x \<le> 1" using assms(2) by (simp add: distinct_count_atmost_1)
  ultimately have "count (mset xs) x = 0 \<or> count (mset xs) x = 1" by linarith
  then show "count (mset xs) x = (if x \<in> set xs then 1 else 0)"
    by (metis count_mset_0_iff zero_neq_one)
qed

lemma parts_of_entries:
  assumes "iter_ok (pv_iter V)" and "\<forall>tm \<in> set tms. finite_target p tm"
  shows "map fst (concat (map (part_entry V p) tms)) =
           map fst (filter (\<lambda>tm. \<exists>K. dispatch_target p (fst tm) (snd tm) = Parts K \<and> K \<noteq> {}) tms)"
    and "distinct (map fst tms) \<Longrightarrow> (a, sel) \<in> set tms \<Longrightarrow>
         (\<Union>(b, ks) \<in> set (concat (map (part_entry V p) tms)). if b = a then set ks else {}) =
         (case dispatch_target p a sel of Parts K \<Rightarrow> K | Whole \<Rightarrow> {})"
proof -
  have spec: "case dispatch_target p (fst tm) (snd tm) of
            Whole \<Rightarrow> part_entry V p tm = []
          | Parts K \<Rightarrow> if K = {} then part_entry V p tm = []
                       else \<exists>ks. part_entry V p tm = [(fst tm, ks)] \<and> set ks = K \<and> distinct ks"
    if "tm \<in> set tms" for tm using part_entry_spec assms that by blast
  let ?parts = "\<lambda>tm. \<exists>K. dispatch_target p (fst tm) (snd tm) = Parts K \<and> K \<noteq> {}"
  have one: "map fst (part_entry V p tm) = (if ?parts tm then [fst tm] else [])" if "tm \<in> set tms" for tm
    using spec[OF that] by (auto split: target_shape.splits if_splits)
  have "map fst (concat (map (part_entry V p) xs)) = map fst (filter ?parts xs)" if "set xs \<subseteq> set tms" for xs
    using that
  proof (induction xs)
    case (Cons x xs)
    then show ?case using one[of x] by simp
  qed simp
  then show "map fst (concat (map (part_entry V p) tms)) = map fst (filter ?parts tms)" by simp
  assume d: "distinct (map fst tms)" and mem: "(a, sel) \<in> set tms"
  have here: "(\<Union>(b, ks) \<in> set (part_entry V p (a, sel)). if b = a then set ks else {}) =
      (case dispatch_target p a sel of Parts K \<Rightarrow> K | Whole \<Rightarrow> {})"
    using spec[OF mem] by (auto split: target_shape.splits if_splits)
  have other: "(\<Union>(b, ks) \<in> set (part_entry V p tm). if b = a then set ks else {}) = {}"
    if "tm \<in> set tms" "tm \<noteq> (a, sel)" for tm
  proof -
    have "fst tm \<noteq> a" using that mem d by (metis eq_key_imp_eq_value map_of_is_SomeI prod.collapse fst_conv)
    then show ?thesis using spec[OF that(1)] by (auto split: target_shape.splits if_splits)
  qed
  have "(\<Union>(b, ks) \<in> set (concat (map (part_entry V p) tms)). if b = a then set ks else {}) =
      (\<Union>tm \<in> set tms. \<Union>(b, ks) \<in> set (part_entry V p tm). if b = a then set ks else {})"
    by auto
  also have "\<dots> = (\<Union>(b, ks) \<in> set (part_entry V p (a, sel)). if b = a then set ks else {})"
    using other mem by blast
  finally show "(\<Union>(b, ks) \<in> set (concat (map (part_entry V p) tms)). if b = a then set ks else {}) =
      (case dispatch_target p a sel of Parts K \<Rightarrow> K | Whole \<Rightarrow> {})" using here by simp
qed

text \<open>
  C5: The dispatch plan is exactly what fired. With one selection per fired asset, each asset goes
  out once or not at all; an asset goes out whole when it is unpartitioned (or names no keys), and
  else with exactly the selected keys that exist in its universe; it is left out exactly when no
  selected key exists. No other asset and no other key is dispatched.
\<close>

theorem dispatch_exact:
  assumes "iter_ok (pv_iter V)" and "\<forall>tm \<in> set tms. finite_target p tm" and "distinct (map fst tms)"
    and "classify_materializations V tms p = (p', mp)"
  shows "distinct (dispatched_asset_keys mp) \<and> set (dispatched_asset_keys mp) \<subseteq> fst ` set tms \<and>
         (\<forall>(a, sel) \<in> set tms.
            (a \<in> set (mp_unpartitioned mp) \<longleftrightarrow> dispatch_target p a sel = Whole) \<and>
            (a \<in> set (dispatched_asset_keys mp) \<longleftrightarrow> dispatch_target p a sel \<noteq> Parts {}) \<and>
            set (row_dispatched_keys mp a) = (case dispatch_target p a sel of Parts K \<Rightarrow> K | Whole \<Rightarrow> {}))"
proof -
  let ?whole = "\<lambda>tm. dispatch_target p (fst tm) (snd tm) = Whole"
  let ?parts = "\<lambda>tm. \<exists>K. dispatch_target p (fst tm) (snd tm) = Parts K \<and> K \<noteq> {}"
  obtain single multi where g: "fold group_one (concat (map (part_entry V p) tms)) ([], []) = (single, multi)" by force
  obtain ip un ps where f: "fold (classify_one V p) tms (c_in_progress (p_cache p), [], []) = (ip, un, ps)"
    by (metis surj_pair)
  have ups: "un = map fst (filter ?whole tms)" "ps = concat (map (part_entry V p) tms)"
    using fold_classify[of V p tms "c_in_progress (p_cache p)" "[]" "[]"] f by auto
  have mp: "mp = \<lparr>mp_unpartitioned = un, mp_single = single, mp_multi = multi\<rparr>"
    using assms(4) f g ups by (simp add: classify_materializations_def)
  have ms: "mset (dispatched_asset_keys mp) = mset (map fst (filter ?whole tms)) + mset (map fst (filter ?parts tms))"
    using fold_group_assets[of "concat (map (part_entry V p) tms)" "([], [])"] parts_of_entries(1)[OF assms(1,2)] ups(1)
    by (simp add: mp dispatched_asset_keys_def g)
  have "mset (map fst (filter ?whole tms)) + mset (map fst (filter ?parts tms)) \<subseteq># mset (map fst tms)"
    by (induction tms) (auto simp: subset_mset.le_supI subset_mset.add_increasing2 intro: subset_mset.order_trans)
  then have sub: "mset (dispatched_asset_keys mp) \<subseteq># mset (map fst tms)" using ms by simp
  have dis: "distinct (dispatched_asset_keys mp)"
    using distinct_submset[OF sub assms(3)] .
  have set_eq: "set (dispatched_asset_keys mp) = fst ` {tm \<in> set tms. ?whole tm \<or> ?parts tm}"
    using arg_cong[OF ms, of set_mset] by auto
  have key: "sel' = sel" if "(a, sel) \<in> set tms" "(a, sel') \<in> set tms" for a sel sel'
    using that assms(3) by (metis eq_key_imp_eq_value)
  have keys: "set (row_dispatched_keys mp a) = (case dispatch_target p a sel of Parts K \<Rightarrow> K | Whole \<Rightarrow> {})"
    if "(a, sel) \<in> set tms" for a sel
  proof -
    have "set (row_dispatched_keys mp a) = group_of single a \<union> set (concat (map snd (filter (\<lambda>(b, ks). b = a) multi)))"
      by (auto simp: row_dispatched_keys_def mp group_of_def)
    then show ?thesis
      using fold_group_keys[where a = a and parts = "concat (map (part_entry V p) tms)" and sm = "([], [])"] parts_of_entries(2)[OF assms(1,2,3) that]
      by (simp add: g group_of_def)
  qed
  have mem: "a \<in> fst ` {tm \<in> set tms. P tm} \<longleftrightarrow> P (a, sel)" if "(a, sel) \<in> set tms" for a sel P
  proof
    assume "a \<in> fst ` {tm \<in> set tms. P tm}"
    then obtain sel' where "(a, sel') \<in> set tms" "P (a, sel')" by auto
    then show "P (a, sel)" using key[OF that] by auto
  next
    assume "P (a, sel)"
    then show "a \<in> fst ` {tm \<in> set tms. P tm}" using that by (intro image_eqI[of _ _ "(a, sel)"]) auto
  qed
  have "a \<in> set (mp_unpartitioned mp) \<longleftrightarrow> dispatch_target p a sel = Whole" if "(a, sel) \<in> set tms" for a sel
    using mem[OF that, of ?whole] by (simp add: mp ups(1))
  moreover have "a \<in> set (dispatched_asset_keys mp) \<longleftrightarrow> dispatch_target p a sel \<noteq> Parts {}" if "(a, sel) \<in> set tms" for a sel
    unfolding set_eq mem[OF that] by (cases "dispatch_target p a sel") simp_all
  moreover have "set (dispatched_asset_keys mp) \<subseteq> fst ` set tms" unfolding set_eq by auto
  ultimately show ?thesis using dis keys by blast
qed

definition partitioned_pass :: condition_pass where
  "partitioned_pass = new_pass new_cache default_eval_state
     [\<lparr>ai_asset_key = ''p'', ai_condition = Missing,
       ai_partition_info = Some \<lparr>pi_all_keys = {Single [''a'']}, pi_mappings = [], pi_time_window_fmt = None,
         pi_universe = UFrozen\<rparr>\<rparr>] []"

definition set_order :: "(partition_key set \<Rightarrow> partition_key list) \<Rightarrow> (int, unit) pass_env" where
  "set_order iter = \<lparr>pv_lib = unary_lib, pv_iter = iter, pv_local = id, pv_eval = sample_env\<rparr>"

theorem dispatch_exact_witness:
  "\<exists>iter p' mp. iter_ok iter \<and>
     classify_materializations (set_order iter) [(''p'', Some (SelKeys {Single [''a''], Single [''b'']}))] partitioned_pass = (p', mp) \<and>
     ''p'' \<in> set (dispatched_asset_keys mp) \<and> set (row_dispatched_keys mp ''p'') = {Single [''a'']}"
proof -
  have "\<exists>xs. set xs = K \<and> distinct xs" if "finite K" for K :: "partition_key set"
    using that finite_distinct_list by blast
  then obtain iter :: "partition_key set \<Rightarrow> partition_key list" where it: "iter_ok iter"
    unfolding iter_ok_def by metis
  let ?tms = "[(''p'', Some (SelKeys {Single [''a''], Single [''b'']}))]"
  obtain p' mp where c: "classify_materializations (set_order iter) ?tms partitioned_pass = (p', mp)" by force
  have info: "map_option pi_all_keys (partition_info_for partitioned_pass ''p'') = Some {Single [''a'']}"
    by (simp add: partition_info_for_def partitioned_pass_def new_pass_def Let_def index_by_key_def)
  then obtain pi where pi: "partition_info_for partitioned_pass ''p'' = Some pi" "pi_all_keys pi = {Single [''a'']}" by auto
  have "iter_ok (pv_iter (set_order iter))" using it by (simp add: set_order_def)
  moreover have "\<forall>tm \<in> set ?tms. finite_target partitioned_pass tm" by (simp add: finite_target_def pi)
  moreover have "dispatch_target partitioned_pass ''p'' (Some (SelKeys {Single [''a''], Single [''b'']})) = Parts {Single [''a'']}"
    by (simp add: dispatch_target_def pi)
  ultimately have "''p'' \<in> set (dispatched_asset_keys mp) \<and> set (row_dispatched_keys mp ''p'') = {Single [''a'']}"
    using dispatch_exact[OF _ _ _ c] by simp
  then show ?thesis using it c by blast
qed

end
