(* ===== verification/Asset_Graph.thy ===== *)
theory Asset_Graph
  imports Prelude "HOL-Library.Product_Lexorder"
begin

text \<open>
  The asset dependency graph (\<open>rivers-core/src/assets/graph.rs\<close>, \<open>repo/mod.rs\<close>): resolving declared
  inputs into a graph, the transitive closures, the topology sent to the UI and the checks of a
  selection. An edge points from an asset to one of its dependencies. The petgraph library is the
  record \<open>petgraph\<close> of the functions the code calls, with its documented behaviour as \<open>petgraph_ok\<close>;
  a graph is its list of nodes and its list of edges between node indices, as petgraph builds it. An
  index out of range is a panic, the value \<open>None\<close>.
\<close>

section \<open>Graphs\<close>

datatype node_kind = Asset | Task | GraphAsset

fun kind_as_str :: "node_kind \<Rightarrow> string" where
  "kind_as_str Asset = ''asset''"
| "kind_as_str Task = ''task''"
| "kind_as_str GraphAsset = ''graph_asset''"

definition quoted :: "string \<Rightarrow> string" where
  "quoted s = CHR 0x27 # s @ [CHR 0x27]"

definition kind_from_str :: "string \<Rightarrow> string + node_kind" where
  "kind_from_str s =
     (if s = ''asset'' then Inr Asset else if s = ''task'' then Inr Task
      else if s = ''graph_asset'' then Inr GraphAsset
      else Inl (''unknown NodeKind: '' @ quoted s))"

datatype node_ref = ByName string | Resolved nat

datatype dag_node =
  DagNode (dn_name: string) (dn_kind: node_kind) (dn_inputs: "node_ref list") (dn_outputs: "string list")
    (dn_sub_graph: "asset_graph option")
and asset_graph = AssetGraph (g_nodes: "dag_node list") (g_edges: "(nat \<times> nat) list")

definition new_node :: "string \<Rightarrow> dag_node" where
  "new_node name = DagNode name Asset [] [] None"

definition node_count :: "asset_graph \<Rightarrow> nat" where
  "node_count g = length (g_nodes g)"

definition node_name :: "asset_graph \<Rightarrow> nat \<Rightarrow> string" where
  "node_name g i = dn_name (g_nodes g ! i)"

definition node_names_of :: "asset_graph \<Rightarrow> string list" where
  "node_names_of g = map dn_name (g_nodes g)"

text \<open>The functions of petgraph the code calls, and what their documentation says of them.\<close>

datatype direction = Outgoing | Incoming

record petgraph =
  pg_neighbors :: "asset_graph \<Rightarrow> direction \<Rightarrow> nat \<Rightarrow> nat list"
  pg_toposort :: "asset_graph \<Rightarrow> nat list option"
  pg_is_cyclic :: "asset_graph \<Rightarrow> bool"
  pg_tarjan_scc :: "asset_graph \<Rightarrow> nat list list"
  pg_has_path :: "asset_graph \<Rightarrow> nat \<Rightarrow> nat \<Rightarrow> bool"

definition edge_rel :: "asset_graph \<Rightarrow> direction \<Rightarrow> (nat \<times> nat) set" where
  "edge_rel g dir = (case dir of Outgoing \<Rightarrow> set (g_edges g) | Incoming \<Rightarrow> (set (g_edges g))\<inverse>)"

definition graph_ok :: "asset_graph \<Rightarrow> bool" where
  "graph_ok g \<longleftrightarrow> distinct (node_names_of g) \<and> set (g_edges g) \<subseteq> {..<node_count g} \<times> {..<node_count g}"

definition topo_order :: "asset_graph \<Rightarrow> nat list \<Rightarrow> bool" where
  "topo_order g order \<longleftrightarrow> distinct order \<and> set order = {..<node_count g} \<and>
     (\<forall>pre i post j. order = pre @ i # post \<longrightarrow> (i, j) \<in> set (g_edges g) \<longrightarrow> j \<in> set post)"

definition petgraph_ok :: "petgraph \<Rightarrow> bool" where
  "petgraph_ok P \<longleftrightarrow> (\<forall>g. graph_ok g \<longrightarrow>
     (\<forall>dir. \<forall>i < node_count g. set (pg_neighbors P g dir i) = edge_rel g dir `` {i}) \<and>
     (case pg_toposort P g of Some order \<Rightarrow> topo_order g order | None \<Rightarrow> \<not> acyclic (set (g_edges g))) \<and>
     (pg_is_cyclic P g \<longleftrightarrow> \<not> acyclic (set (g_edges g))) \<and>
     (\<forall>i < node_count g. \<forall>j < node_count g. pg_has_path P g i j \<longleftrightarrow> (i, j) \<in> (set (g_edges g))\<^sup>*))"

section \<open>Topology\<close>

record topology_node =
  tn_name :: string
  tn_kind :: node_kind
  tn_group :: "string option"
  tn_parent_graph :: "string option"

record graph_topology =
  gt_nodes :: "topology_node list"
  gt_edges :: "(string \<times> string) list"

definition to_topology :: "asset_graph \<Rightarrow> graph_topology" where
  "to_topology g =
     \<lparr>gt_nodes = map (\<lambda>n. \<lparr>tn_name = dn_name n, tn_kind = dn_kind n, tn_group = None, tn_parent_graph = None\<rparr>) (g_nodes g),
      gt_edges = sort (map (\<lambda>(f, t). (node_name g f, node_name g t)) (g_edges g))\<rparr>"

section \<open>Cycles\<close>

definition format_cycle :: "asset_graph \<Rightarrow> nat list \<Rightarrow> string" where
  "format_cycle g scc =
     (let names = map (node_name g) scc
      in join '' -> '' (case names of [] \<Rightarrow> [] | first # _ \<Rightarrow> names @ [first]))"

fun number_lines :: "nat \<Rightarrow> string list \<Rightarrow> string list" where
  "number_lines i [] = []"
| "number_lines i (c # cs) = (''  '' @ show_nat (i + 1) @ ''. '' @ c) # number_lines (i + 1) cs"

definition detect_cycles :: "petgraph \<Rightarrow> asset_graph \<Rightarrow> string + unit" where
  "detect_cycles P g =
     (if \<not> pg_is_cyclic P g then Inr ()
      else (let cycles = map (format_cycle g) (filter (\<lambda>scc. length scc > 1) (pg_tarjan_scc P g))
            in case cycles of
                 [c] \<Rightarrow> Inl (''Cycle detected in asset graph: '' @ c)
               | _ \<Rightarrow> Inl (show_nat (length cycles) @ '' cycles detected in asset graph:'' @ [CHR 0x0A] @
                           join [CHR 0x0A] (number_lines 0 cycles))))"

section \<open>Lookups and closures\<close>

definition find_node_by_name :: "asset_graph \<Rightarrow> string \<Rightarrow> nat option" where
  "find_node_by_name g name = find (\<lambda>i. node_name g i = name) [0..<node_count g]"

definition name_to_index :: "asset_graph \<Rightarrow> string \<rightharpoonup> nat" where
  "name_to_index g = fold (\<lambda>i m. m(node_name g i \<mapsto> i)) [0..<node_count g] Map.empty"

definition is_upstream_of :: "petgraph \<Rightarrow> asset_graph \<Rightarrow> nat \<Rightarrow> nat \<Rightarrow> bool" where
  "is_upstream_of P g downstream upstream = pg_has_path P g downstream upstream"

definition is_reachable :: "petgraph \<Rightarrow> asset_graph \<Rightarrow> string \<Rightarrow> string \<Rightarrow> string + bool" where
  "is_reachable P g from_name to_name =
     (case find_node_by_name g from_name of
        None \<Rightarrow> Inl (''Node '' @ quoted from_name @ '' not found in graph'')
      | Some i \<Rightarrow>
          (case find_node_by_name g to_name of
             None \<Rightarrow> Inl (''Node '' @ quoted to_name @ '' not found in graph'')
           | Some j \<Rightarrow> Inr (pg_has_path P g i j)))"

text \<open>The inner loop of the walk: the neighbours whose name is new to the result.\<close>

fun push_names :: "(nat \<Rightarrow> string) \<Rightarrow> nat list \<Rightarrow> string set \<Rightarrow> string set \<times> nat list" where
  "push_names nm [] res = (res, [])"
| "push_names nm (j # js) res =
     (if nm j \<in> res then push_names nm js res
      else (let (r, q) = push_names nm js (insert (nm j) res) in (r, j # q)))"

lemma push_names_result:
  "push_names nm js res = (r, q) \<Longrightarrow> r = res \<union> nm ` set js \<and> nm ` set q = r - res \<and> set q \<subseteq> set js"
proof (induction js arbitrary: res r q)
  case (Cons j js)
  show ?case
  proof (cases "nm j \<in> res")
    case True
    then have "push_names nm js res = (r, q)" using Cons.prems by simp
    from Cons.IH[OF this] True show ?thesis by auto
  next
    case False
    then obtain q' where "push_names nm js (insert (nm j) res) = (r, q')" "q = j # q'"
      using Cons.prems by (auto split: prod.splits)
    with Cons.IH[OF this(1)] False show ?thesis by auto
  qed
qed simp

function traverse_loop :: "(nat \<Rightarrow> nat list) \<Rightarrow> (nat \<Rightarrow> string) \<Rightarrow> nat \<Rightarrow> nat list \<Rightarrow> string set \<Rightarrow> string set option" where
  "traverse_loop nb nm n [] res = Some res"
| "traverse_loop nb nm n (i # st) res =
     (if list_ex (\<lambda>j. j \<ge> n) (nb i) then None
      else (case push_names nm (nb i) res of (r, q) \<Rightarrow> traverse_loop nb nm n (rev q @ st) r))"
  by pat_completeness auto

lemma traverse_measure:
  assumes "push_names nm (nb i) res = (r, q)" and "\<not> list_ex (\<lambda>j. j \<ge> n) (nb i)"
  shows "card (nm ` {..<n} - r) < card (nm ` {..<n} - res) \<or>
         card (nm ` {..<n} - r) = card (nm ` {..<n} - res) \<and> length (rev q @ st) < Suc (length st)"
proof (cases q)
  case Nil
  then have "r = res" using push_names_result[OF assms(1)] by auto
  then show ?thesis using Nil by simp
next
  case (Cons j q')
  then have j: "nm j \<notin> res" "nm j \<in> r" "j < n"
    using push_names_result[OF assms(1)] assms(2) by (auto simp: list_ex_iff not_le)
  have "res \<subseteq> r" using push_names_result[OF assms(1)] by blast
  then have "nm ` {..<n} - r \<subset> nm ` {..<n} - res" using j by blast
  then show ?thesis by (simp add: psubset_card_mono)
qed

termination traverse_loop
  by (relation "measures [\<lambda>(nb, nm, n, st, res). card (nm ` {..<n} - res), \<lambda>(nb, nm, n, st, res). length st]")
     (auto dest: traverse_measure[OF sym])

definition traverse :: "petgraph \<Rightarrow> asset_graph \<Rightarrow> string \<Rightarrow> direction \<Rightarrow> string set option" where
  "traverse P g name dir =
     (case find_node_by_name g name of
        None \<Rightarrow> Some {}
      | Some start \<Rightarrow> traverse_loop (pg_neighbors P g dir) (node_name g) (node_count g) [start] {})"

definition ancestors :: "petgraph \<Rightarrow> asset_graph \<Rightarrow> string \<Rightarrow> string set option" where
  "ancestors P g name = traverse P g name Outgoing"

definition descendants :: "petgraph \<Rightarrow> asset_graph \<Rightarrow> string \<Rightarrow> string set option" where
  "descendants P g name = traverse P g name Incoming"

text \<open>The closure of a set of targets: a node is added when it is popped.\<close>

function closure_loop :: "(nat \<Rightarrow> nat list) \<Rightarrow> (nat \<Rightarrow> string) \<Rightarrow> nat \<Rightarrow> nat list \<Rightarrow> string set \<Rightarrow> string set option" where
  "closure_loop nb nm n [] res = Some res"
| "closure_loop nb nm n (i # st) res =
     (if i \<ge> n then None
      else if nm i \<in> res then closure_loop nb nm n st res
      else closure_loop nb nm n (rev (nb i) @ st) (insert (nm i) res))"
  by pat_completeness auto

lemma closure_measure: "(i :: nat) < n \<Longrightarrow> nm i \<notin> res \<Longrightarrow> card (nm ` {..<n} - insert (nm i) res) < card (nm ` {..<n} - res)"
  by (intro psubset_card_mono finite_Diff) auto

termination closure_loop
  by (relation "measures [\<lambda>(nb, nm, n, st, res). card (nm ` {..<n} - res), \<lambda>(nb, nm, n, st, res). length st]")
     (auto simp: closure_measure simp del: card_Diff_insert)

text \<open>\<open>targets\<close> in the order the hash set is visited.\<close>

definition upstream_closure :: "petgraph \<Rightarrow> asset_graph \<Rightarrow> string list \<Rightarrow> string set option" where
  "upstream_closure P g targets =
     closure_loop (pg_neighbors P g Outgoing) (node_name g) (node_count g)
       (rev (List.map_filter (name_to_index g) targets)) {}"

definition materialization_requires :: "petgraph \<Rightarrow> asset_graph \<Rightarrow> string \<Rightarrow> string \<Rightarrow> string + bool" where
  "materialization_requires P g target candidate = is_reachable P g target candidate"

definition missing_deps :: "petgraph \<Rightarrow> asset_graph \<Rightarrow> string list \<Rightarrow> (string \<times> string) list" where
  "missing_deps P g selection =
     concat (map (\<lambda>name.
       case name_to_index g name of
         None \<Rightarrow> []
       | Some i \<Rightarrow> map (\<lambda>j. (name, node_name g j))
                     (filter (\<lambda>j. node_name g j \<notin> set selection) (pg_neighbors P g Outgoing i))) selection)"

definition validate_subgraph_completeness :: "petgraph \<Rightarrow> asset_graph \<Rightarrow> string list \<Rightarrow> (string \<times> string) list + unit" where
  "validate_subgraph_completeness P g selection =
     (let missing = missing_deps P g selection in if missing = [] then Inr () else Inl missing)"

text \<open>Lineage over the edge list of a topology, in the entry order of the adjacency maps.\<close>

definition adjacent :: "(string \<times> string) list \<Rightarrow> string \<Rightarrow> string list" where
  "adjacent es n = map snd (filter (\<lambda>e. fst e = n) es)"

function lineage_walk :: "(string \<times> string) list \<Rightarrow> string list \<Rightarrow> string set \<Rightarrow> string set" where
  "lineage_walk es [] res = res"
| "lineage_walk es (n # st) res =
     (if n \<in> res then lineage_walk es st res
      else lineage_walk es (rev (adjacent es n) @ st) (insert n res))"
  by pat_completeness auto

lemma adjacent_sub: "set (adjacent es n) \<subseteq> snd ` set es"
  by (auto simp: adjacent_def)

lemma lineage_measure:
  "n \<in> res \<Longrightarrow> card ((snd ` set es \<union> set st) - res) = card ((snd ` set es \<union> set (n # st)) - res)"
  "n \<notin> res \<Longrightarrow> card ((snd ` set es \<union> set (rev (adjacent es n) @ st)) - insert n res) < card ((snd ` set es \<union> set (n # st)) - res)"
proof -
  show "card ((snd ` set es \<union> set st) - res) = card ((snd ` set es \<union> set (n # st)) - res)" if "n \<in> res"
    using that by (intro arg_cong[of _ _ card]) auto
  show "card ((snd ` set es \<union> set (rev (adjacent es n) @ st)) - insert n res) < card ((snd ` set es \<union> set (n # st)) - res)"
    if "n \<notin> res"
    using that adjacent_sub[of es n] by (intro psubset_card_mono) auto
qed

termination lineage_walk
  by (relation "measures [\<lambda>(es, st, res). card ((snd ` set es \<union> set st) - res), \<lambda>(es, st, res). length st]")
     (use lineage_measure in \<open>auto simp del: card_Diff_insert\<close>)

definition lineage :: "graph_topology \<Rightarrow> string \<Rightarrow> string set \<times> string set" where
  "lineage t node =
     (let deps_of = gt_edges t; dependents_of = map prod.swap (gt_edges t)
      in (lineage_walk deps_of (rev (adjacent deps_of node)) {},
          lineage_walk dependents_of (rev (adjacent dependents_of node)) {}))"

section \<open>Resolving the declared inputs\<close>

text \<open>\<open>assets\<close> is the sorted map of declared inputs; a resolved reference among them is a panic.\<close>

fun resolve_inputs ::
  "(string \<rightharpoonup> nat) \<Rightarrow> string \<Rightarrow> nat \<Rightarrow> node_ref list \<Rightarrow> nat list \<Rightarrow> (string + nat list) option" where
  "resolve_inputs idx name i [] acc = Some (Inr acc)"
| "resolve_inputs idx name i (Resolved k # ins) acc = None"
| "resolve_inputs idx name i (ByName dep # ins) acc =
     (case idx dep of
        None \<Rightarrow> Some (Inl (''Asset '' @ quoted name @ '': unresolved input '' @ quoted dep))
      | Some j \<Rightarrow>
          (if j = i
           then Some (Inl (''Asset '' @ quoted name @ '': depends on itself; use SelfDependency[T] '' @
                           ''to reference an asset'' @ [CHR 0x27] @ ''s own previous output''))
           else resolve_inputs idx name i ins (acc @ [j])))"

fun resolve_nodes ::
  "(string \<rightharpoonup> nat) \<Rightarrow> nat \<Rightarrow> dag_node list \<Rightarrow> dag_node list \<Rightarrow> (nat \<times> nat) list \<Rightarrow> (string + asset_graph) option" where
  "resolve_nodes idx i [] done_nodes es = Some (Inr (AssetGraph done_nodes es))"
| "resolve_nodes idx i (node # nodes) done_nodes es =
     (case resolve_inputs idx (dn_name node) i (dn_inputs node) [] of
        None \<Rightarrow> None
      | Some (Inl e) \<Rightarrow> Some (Inl e)
      | Some (Inr deps) \<Rightarrow>
          resolve_nodes idx (Suc i) nodes
            (done_nodes @ [DagNode (dn_name node) (dn_kind node) (map Resolved deps) (dn_outputs node) (dn_sub_graph node)])
            (es @ map (\<lambda>j. (i, j)) deps))"

definition resolve_asset_graph :: "petgraph \<Rightarrow> (string \<times> node_ref list) list \<Rightarrow> (string + asset_graph) option" where
  "resolve_asset_graph P assets =
     (let nodes = map (\<lambda>(name, ins). DagNode name Asset ins [] None) assets;
          idx = fold (\<lambda>i m. m(fst (assets ! i) \<mapsto> i)) [0..<length assets] Map.empty
      in case resolve_nodes idx 0 nodes [] [] of
           None \<Rightarrow> None
         | Some (Inl e) \<Rightarrow> Some (Inl e)
         | Some (Inr g) \<Rightarrow>
             (case detect_cycles P g of Inl e \<Rightarrow> Some (Inl e) | Inr _ \<Rightarrow> Some (Inr g)))"

text \<open>
  Sorting items by the graph: \<open>items\<close> maps names to items, \<open>rest\<close> is the order in which the hash map
  yields what is left.
\<close>

fun take_items :: "string list \<Rightarrow> (string \<rightharpoonup> 'a) \<Rightarrow> 'a list \<times> (string \<rightharpoonup> 'a)" where
  "take_items [] items = ([], items)"
| "take_items (n # ns) items =
     (case items n of
        None \<Rightarrow> take_items ns items
      | Some x \<Rightarrow> (case take_items ns (items(n := None)) of (xs, left) \<Rightarrow> (x # xs, left)))"

definition sort_topologically ::
  "petgraph \<Rightarrow> asset_graph option \<Rightarrow> ((string \<rightharpoonup> 'a) \<Rightarrow> 'a list) \<Rightarrow> (string \<rightharpoonup> 'a) \<Rightarrow> 'a list" where
  "sort_topologically P graph rest items =
     (case graph of
        None \<Rightarrow> rest items
      | Some g \<Rightarrow>
          (case pg_toposort P g of
             None \<Rightarrow> rest items
           | Some topo \<Rightarrow>
               (case take_items (map (node_name g) (rev topo)) items of (xs, left) \<Rightarrow> xs @ rest left)))"

section \<open>The closures are exact\<close>

definition succ_rel :: "(nat \<Rightarrow> nat list) \<Rightarrow> nat \<Rightarrow> (nat \<times> nat) set" where
  "succ_rel nb n = {(i, j). i < n \<and> j \<in> set (nb i)}"

lemma closed_trancl: "E `` (W \<union> B) \<subseteq> W \<Longrightarrow> E\<^sup>+ `` B \<subseteq> W"
proof
  fix y assume sub: "E `` (W \<union> B) \<subseteq> W" and "y \<in> E\<^sup>+ `` B"
  then obtain x where "x \<in> B" "(x, y) \<in> E\<^sup>+" by blast
  from this(2,1) show "y \<in> W" by (induction rule: trancl_induct) (use sub in blast)+
qed

lemma traverse_loop_closure:
  assumes inj: "inj_on nm {..<n}" and rng: "\<forall>i < n. set (nb i) \<subseteq> {..<n}"
    and "V \<subseteq> {..<n}" and "B \<subseteq> {..<n}" and "set st \<subseteq> V \<union> B" and "succ_rel nb n `` (V \<union> B - set st) \<subseteq> V"
  shows "\<exists>W. traverse_loop nb nm n st (nm ` V) = Some (nm ` W) \<and> V \<subseteq> W \<and> W \<subseteq> V \<union> (succ_rel nb n)\<^sup>+ `` (V \<union> B) \<and>
    W \<subseteq> {..<n} \<and> succ_rel nb n `` (W \<union> B) \<subseteq> W"
  using assms
proof (induction nb nm n st "nm ` V" arbitrary: V rule: traverse_loop.induct)
  case (1 nb nm n)
  then show ?case by (intro exI[of _ V]) auto
next
  case (2 nb nm n i st)
  let ?E = "succ_rel nb n"
  have i: "i < n" "i \<in> V \<union> B" using "2.prems" by auto
  have nb: "set (nb i) \<subseteq> {..<n}" "?E `` {i} = set (nb i)" using "2.prems"(2) i(1) by (auto simp: succ_rel_def)
  then have ok: "\<not> list_ex (\<lambda>j. j \<ge> n) (nb i)" by (auto simp: list_ex_iff)
  obtain r q where rq: "push_names nm (nb i) (nm ` V) = (r, q)" by fastforce
  define V' where "V' = V \<union> set (nb i)"
  have r: "r = nm ` V'" and qsub: "set q \<subseteq> set (nb i)"
    using push_names_result[OF rq] by (auto simp: V'_def)
  have sub: "V' - V \<subseteq> {..<n}" "set q \<subseteq> {..<n}" "V \<subseteq> {..<n}" using nb(1) qsub "2.prems"(3) by (auto simp: V'_def)
  have "nm ` (V' - V) = r - nm ` V" unfolding r by (rule inj_on_image_set_diff[OF "2.prems"(1) sub(1,3)])
  moreover have "nm ` set q = r - nm ` V" using push_names_result[OF rq] by blast
  ultimately have "nm ` set q = nm ` (V' - V)" by (simp only:)
  then have q: "set q = V' - V" by (simp only: inj_on_image_eq_iff[OF "2.prems"(1) sub(2,1)])
  have ih: "\<exists>W. traverse_loop nb nm n (rev q @ st) (nm ` V') = Some (nm ` W) \<and> V' \<subseteq> W \<and> W \<subseteq> V' \<union> ?E\<^sup>+ `` (V' \<union> B) \<and>
      W \<subseteq> {..<n} \<and> ?E `` (W \<union> B) \<subseteq> W"
  proof (rule "2.hyps"[OF ok rq[symmetric, unfolded r] "2.prems"(1,2)])
    show "V' \<subseteq> {..<n}" "B \<subseteq> {..<n}" "set (rev q @ st) \<subseteq> V' \<union> B"
      using "2.prems" nb(1) q by (auto simp: V'_def)
    have "V' \<union> B - set (rev q @ st) \<subseteq> insert i (V \<union> B - set (i # st))" using q by auto
    then show "?E `` (V' \<union> B - set (rev q @ st)) \<subseteq> V'"
      using "2.prems"(6) nb(2) unfolding V'_def by blast
  qed
  have reach: "V' \<union> ?E\<^sup>+ `` (V' \<union> B) \<subseteq> V \<union> ?E\<^sup>+ `` (V \<union> B)"
  proof -
    have "set (nb i) \<subseteq> ?E\<^sup>+ `` (V \<union> B)" using nb(2) i(2) by blast
    then show ?thesis unfolding V'_def by (blast intro: trancl_trans)
  qed
  have eq: "traverse_loop nb nm n (i # st) (nm ` V) = traverse_loop nb nm n (rev q @ st) (nm ` V')"
    using ok rq r by simp
  obtain W where W: "traverse_loop nb nm n (rev q @ st) (nm ` V') = Some (nm ` W)" "V' \<subseteq> W"
    "W \<subseteq> V' \<union> ?E\<^sup>+ `` (V' \<union> B)" "W \<subseteq> {..<n}" "?E `` (W \<union> B) \<subseteq> W" using ih by blast
  have "V \<subseteq> W" using W(2) by (auto simp: V'_def)
  then show ?case unfolding eq using W subset_trans[OF W(3) reach] by blast
qed

lemma inj_node_name: "graph_ok g \<Longrightarrow> inj_on (node_name g) {..<node_count g}"
  unfolding graph_ok_def node_names_of_def node_name_def node_count_def
  by (auto simp: inj_on_def distinct_conv_nth) 

lemma find_node: "graph_ok g \<Longrightarrow> i < node_count g \<Longrightarrow> find_node_by_name g (node_name g i) = Some i"
proof -
  assume ok: "graph_ok g" and i: "i < node_count g"
  then have "\<exists>j. find_node_by_name g (node_name g i) = Some j \<and> node_name g j = node_name g i \<and> j < node_count g"
    unfolding find_node_by_name_def by (cases "find (\<lambda>j. node_name g j = node_name g i) [0..<node_count g]")
      (auto simp: find_None_iff find_Some_iff)
  then show ?thesis using inj_node_name[OF ok] i by (auto simp: inj_on_def)
qed

lemma neighbors_in:
  assumes "petgraph_ok P" and "graph_ok g"
  shows "succ_rel (pg_neighbors P g dir) (node_count g) = edge_rel g dir"
    and "\<forall>i < node_count g. set (pg_neighbors P g dir i) \<subseteq> {..<node_count g}"
proof -
  have nb: "\<forall>i < node_count g. set (pg_neighbors P g dir i) = edge_rel g dir `` {i}"
    using assms unfolding petgraph_ok_def by blast
  have sub: "edge_rel g dir \<subseteq> {..<node_count g} \<times> {..<node_count g}"
    using assms(2) by (auto simp: graph_ok_def edge_rel_def split: direction.split)
  show "succ_rel (pg_neighbors P g dir) (node_count g) = edge_rel g dir"
    using nb sub unfolding succ_rel_def by auto
  show "\<forall>i < node_count g. set (pg_neighbors P g dir i) \<subseteq> {..<node_count g}"
    using nb sub by auto
qed

lemma traverse_exact:
  assumes "petgraph_ok P" and "graph_ok g" and "i < node_count g"
  shows "traverse P g (node_name g i) dir = Some (node_name g ` ((edge_rel g dir)\<^sup>+ `` {i}))"
proof -
  let ?E = "edge_rel g dir"
  note nb = neighbors_in[OF assms(1,2), of dir]
  obtain W where W: "traverse_loop (pg_neighbors P g dir) (node_name g) (node_count g) [i] (node_name g ` {}) = Some (node_name g ` W)"
    "W \<subseteq> {} \<union> ?E\<^sup>+ `` ({} \<union> {i})" "?E `` (W \<union> {i}) \<subseteq> W"
    using traverse_loop_closure[OF inj_node_name[OF assms(2)] nb(2), of "{}" "{i}" "[i]"] assms(3) unfolding nb(1) by auto
  then have "W = ?E\<^sup>+ `` {i}" using closed_trancl[OF W(3)] by auto
  then show ?thesis using W(1) by (simp add: traverse_def find_node assms)
qed

lemma adjacent_rel: "set (adjacent es n) = set es `` {n}"
  by (force simp: adjacent_def)

lemma lineage_walk_closure:
  assumes "set es `` res \<subseteq> res \<union> set st"
  shows "lineage_walk es st res = res \<union> (set es)\<^sup>* `` set st"
  using assms
proof (induction es st res rule: lineage_walk.induct)
  case (2 es n st res)
  show ?case
  proof (cases "n \<in> res")
    case True
    then have "lineage_walk es (n # st) res = res \<union> (set es)\<^sup>* `` set st" using "2.IH"(1) "2.prems" by auto
    moreover have "(set es)\<^sup>* `` {n} \<subseteq> res \<union> (set es)\<^sup>* `` set st"
    proof
      fix y assume "y \<in> (set es)\<^sup>* `` {n}"
      then have "(n, y) \<in> (set es)\<^sup>*" by blast
      then show "y \<in> res \<union> (set es)\<^sup>* `` set st"
      proof (induction rule: rtrancl_induct)
        case (step y z)
        then show ?case using "2.prems" True by (auto intro: rtrancl_into_rtrancl)
      qed (use True in blast)
    qed
    ultimately show ?thesis by auto
  next
    case False
    have "lineage_walk es (n # st) res = insert n res \<union> (set es)\<^sup>* `` set (rev (adjacent es n) @ st)"
      using False "2.IH"(2)[OF False] "2.prems" by (auto simp: adjacent_rel)
    moreover have "(set es)\<^sup>* `` {n} = insert n ((set es)\<^sup>* `` (set es `` {n}))"
      by (auto elim: converse_rtranclE intro: converse_rtrancl_into_rtrancl)
    ultimately show ?thesis by (auto simp: adjacent_rel)
  qed
qed simp

lemma lineage_walk_exact: "lineage_walk es (rev (adjacent es n)) {} = (set es)\<^sup>+ `` {n}"
proof -
  have "(set es)\<^sup>+ `` {n} = (set es)\<^sup>* `` (set es `` {n})" by (auto simp: trancl_unfold_left)
  then show ?thesis using lineage_walk_closure[of es "{}" "rev (adjacent es n)"] by (simp add: adjacent_rel)
qed

lemma trancl_image:
  assumes inj: "inj_on f A" and sub: "E \<subseteq> A \<times> A" and "i \<in> A"
  shows "(map_prod f f ` E)\<^sup>+ `` {f i} = f ` (E\<^sup>+ `` {i})"
proof (intro set_eqI iffI)
  fix y assume "y \<in> (map_prod f f ` E)\<^sup>+ `` {f i}"
  then have "(f i, y) \<in> (map_prod f f ` E)\<^sup>+" by blast
  then show "y \<in> f ` (E\<^sup>+ `` {i})"
  proof (induction rule: trancl_induct)
    case (base y)
    then obtain a b where ab: "(a, b) \<in> E" "f i = f a" "y = f b" by auto
    then have "a = i" using inj sub assms(3) by (auto simp: inj_on_def)
    then show ?case using ab by blast
  next
    case (step y z)
    then obtain j where j: "y = f j" "(i, j) \<in> E\<^sup>+" by blast
    obtain a b where ab: "(a, b) \<in> E" "y = f a" "z = f b" using step.hyps(2) by auto
    have "j \<in> A" using trancl_subset_Sigma[OF sub] j(2) by blast
    then have "j = a" using inj sub ab j(1) by (auto simp: inj_on_def)
    then show ?case using j(2) ab by (blast intro: trancl_into_trancl)
  qed
next
  fix y assume "y \<in> f ` (E\<^sup>+ `` {i})"
  then obtain j where y: "y = f j" and "(i, j) \<in> E\<^sup>+" by blast
  from this(2) have "(f i, f j) \<in> (map_prod f f ` E)\<^sup>+"
    by (induction rule: trancl_induct) (auto intro: trancl_into_trancl)
  then show "y \<in> (map_prod f f ` E)\<^sup>+ `` {f i}" using y by simp
qed

lemma topology_edges: "set (gt_edges (to_topology g)) = map_prod (node_name g) (node_name g) ` set (g_edges g)"
  by (force simp: to_topology_def)

lemma lineage_facts:
  assumes "petgraph_ok P" and "graph_ok g" and "i < node_count g"
  shows "ancestors P g (node_name g i) = Some {node_name g j | j. (i, j) \<in> (set (g_edges g))\<^sup>+}"
    and "descendants P g (node_name g i) = Some {node_name g j | j. (j, i) \<in> (set (g_edges g))\<^sup>+}"
    and "lineage (to_topology g) (node_name g i) =
           ({node_name g j | j. (i, j) \<in> (set (g_edges g))\<^sup>+}, {node_name g j | j. (j, i) \<in> (set (g_edges g))\<^sup>+})"
proof -
  let ?E = "set (g_edges g)"
  have img: "{f j | j. P j} = f ` {j. P j}" for f :: "nat \<Rightarrow> string" and P by blast
  show "ancestors P g (node_name g i) = Some {node_name g j | j. (i, j) \<in> ?E\<^sup>+}"
    unfolding ancestors_def traverse_exact[OF assms] img by (auto simp: edge_rel_def)
  show "descendants P g (node_name g i) = Some {node_name g j | j. (j, i) \<in> ?E\<^sup>+}"
    unfolding descendants_def traverse_exact[OF assms] img by (auto simp: edge_rel_def trancl_converse)
  have sub: "?E \<subseteq> {..<node_count g} \<times> {..<node_count g}" "?E\<inverse> \<subseteq> {..<node_count g} \<times> {..<node_count g}"
    using assms(2) by (auto simp: graph_ok_def)
  have swap: "set (map prod.swap (gt_edges (to_topology g))) = map_prod (node_name g) (node_name g) ` (?E\<inverse>)"
    by (force simp: topology_edges)
  note closure = trancl_image[OF inj_node_name[OF assms(2)]]
  show "lineage (to_topology g) (node_name g i) = ({node_name g j | j. (i, j) \<in> ?E\<^sup>+}, {node_name g j | j. (j, i) \<in> ?E\<^sup>+})"
    using assms(3)
    by (simp add: lineage_def lineage_walk_exact swap topology_edges closure[OF sub(1)] closure[OF sub(2)] del: set_map)
       (auto simp: trancl_converse)
qed

lemma name_in_closure:
  assumes "graph_ok g" and "i < node_count g"
  shows "node_name g i \<in> {node_name g j | j. (i, j) \<in> (set (g_edges g))\<^sup>+} \<longleftrightarrow> (i, i) \<in> (set (g_edges g))\<^sup>+"
proof -
  have "set (g_edges g) \<subseteq> {..<node_count g} \<times> {..<node_count g}" using assms(1) by (simp add: graph_ok_def)
  from trancl_subset_Sigma[OF this] show ?thesis
    using inj_node_name[OF assms(1)] assms(2) by (force simp: inj_on_def)
qed

text \<open>An implementation of the petgraph functions: it removes nodes that no remaining node points to.\<close>

fun remove_sources :: "nat \<Rightarrow> (nat \<times> nat) list \<Rightarrow> nat list \<Rightarrow> nat list option" where
  "remove_sources 0 es rest = (if rest = [] then Some [] else None)"
| "remove_sources (Suc k) es rest =
     (case find (\<lambda>i. \<not> list_ex (\<lambda>(f, t). t = i \<and> f \<in> set rest) es) rest of
        None \<Rightarrow> (if rest = [] then Some [] else None)
      | Some i \<Rightarrow> map_option ((#) i) (remove_sources k es (remove1 i rest)))"

definition reference_petgraph :: petgraph where
  "reference_petgraph =
     \<lparr>pg_neighbors = (\<lambda>g dir i. case dir of
          Outgoing \<Rightarrow> map snd (filter (\<lambda>e. fst e = i) (g_edges g))
        | Incoming \<Rightarrow> map fst (filter (\<lambda>e. snd e = i) (g_edges g))),
      pg_toposort = (\<lambda>g. remove_sources (node_count g) (g_edges g) [0..<node_count g]),
      pg_is_cyclic = (\<lambda>g. remove_sources (node_count g) (g_edges g) [0..<node_count g] = None),
      pg_tarjan_scc = (\<lambda>g. []),
      pg_has_path = (\<lambda>g i j. (i, j) \<in> (set (g_edges g))\<^sup>*)\<rparr>"

lemma remove_sources_some:
  assumes "remove_sources k es rest = Some order" and "distinct rest"
  shows "distinct order \<and> set order = set rest \<and>
    (\<forall>pre i post j. order = pre @ i # post \<longrightarrow> (i, j) \<in> set es \<longrightarrow> j \<in> set rest \<longrightarrow> j \<in> set post)"
  using assms
proof (induction k es rest arbitrary: order rule: remove_sources.induct)
  case (2 k es rest)
  show ?case
  proof (cases "find (\<lambda>i. \<not> list_ex (\<lambda>(f, t). t = i \<and> f \<in> set rest) es) rest")
    case None
    then show ?thesis using "2.prems" by (auto split: if_splits)
  next
    case (Some i)
    then obtain order' where o: "remove_sources k es (remove1 i rest) = Some order'" "order = i # order'"
      using "2.prems" by auto
    have i: "i \<in> set rest" "\<forall>f. (f, i) \<in> set es \<longrightarrow> f \<notin> set rest"
      using Some by (auto simp: find_Some_iff list_ex_iff)
    note ih = "2.IH"[OF Some o(1)]
    have d: "distinct (remove1 i rest)" "set (remove1 i rest) = set rest - {i}" using "2.prems"(2) by auto
    have "j \<in> set post" if "i # order' = pre @ i' # post" "(i', j) \<in> set es" "j \<in> set rest" for pre i' post j
    proof (cases pre)
      case Nil
      then have "i' = i" "post = order'" "j \<noteq> i" using that i by auto
      then show ?thesis using ih[OF d(1)] d(2) that(3) by auto
    next
      case (Cons x pre')
      then have "order' = pre' @ i' # post" using that(1) by simp
      moreover have "j \<noteq> i" using that(2) i(2) ih[OF d(1)] d(2) calculation by auto
      ultimately show ?thesis using ih[OF d(1)] d(2) that(2,3) by blast
    qed
    then show ?thesis using ih[OF d(1)] d(2) i(1) o(2) by auto
  qed
qed (auto split: if_splits)

lemma remove_sources_none:
  "remove_sources k es rest = None \<Longrightarrow> length rest \<le> k \<Longrightarrow> distinct rest \<Longrightarrow> \<not> acyclic (set es)"
proof (induction k es rest rule: remove_sources.induct)
  case (2 k es rest)
  show ?case
  proof (cases "find (\<lambda>i. \<not> list_ex (\<lambda>(f, t). t = i \<and> f \<in> set rest) es) rest")
    case None
    then have ne: "rest \<noteq> []" and all: "\<forall>i \<in> set rest. \<exists>f \<in> set rest. (f, i) \<in> set es"
      using "2.prems" by (auto simp: find_None_iff list_ex_iff split: if_splits)
    have "\<not> wf (set es)"
    proof
      assume "wf (set es)"
      then obtain z where "z \<in> set rest" "\<forall>y. (y, z) \<in> set es \<longrightarrow> y \<notin> set rest"
        using ne by (metis wfE_min list.set_intros(1) neq_Nil_conv)
      then show False using all by blast
    qed
    then show ?thesis using finite_acyclic_wf by blast
  next
    case (Some i)
    then have "i \<in> set rest" by (auto simp: find_Some_iff)
    then show ?thesis using "2.IH"[OF Some] "2.prems" Some by (auto simp: length_remove1)
  qed
qed (auto split: if_splits)

lemma takeWhile_before: "i \<notin> set pre \<Longrightarrow> takeWhile (\<lambda>x. x \<noteq> i) (pre @ i # post) = pre"
  by (induction pre) auto

lemma topo_acyclic:
  assumes "topo_order g order" and "graph_ok g"
  shows "acyclic (set (g_edges g))"
proof -
  define pos where "pos = (\<lambda>i. length (takeWhile (\<lambda>x. x \<noteq> i) order))"
  have "pos i < pos j" if e: "(i, j) \<in> set (g_edges g)" for i j
  proof -
    have "i \<in> set order" using e assms by (auto simp: graph_ok_def topo_order_def)
    then obtain pre post where o: "order = pre @ i # post" by (metis split_list)
    then have "j \<in> set post" using assms(1) e unfolding topo_order_def by blast
    then obtain p1 p2 where "post = p1 @ j # p2" by (metis split_list)
    then have o2: "order = (pre @ i # p1) @ j # p2" using o by simp
    have d: "distinct order" using assms(1) by (simp add: topo_order_def)
    have "takeWhile (\<lambda>x. x \<noteq> i) order = pre" using d unfolding o by (intro takeWhile_before) auto
    moreover have "takeWhile (\<lambda>x. x \<noteq> j) order = pre @ i # p1" using d unfolding o2 by (intro takeWhile_before) auto
    ultimately show ?thesis by (simp add: pos_def)
  qed
  then have "set (g_edges g) \<subseteq> measure pos" by auto
  then show ?thesis using wf_subset wf_acyclic wf_measure by metis
qed

lemma reference_petgraph_ok: "petgraph_ok reference_petgraph"
  unfolding petgraph_ok_def
proof (intro allI impI conjI)
  fix g assume ok: "graph_ok g"
  let ?o = "remove_sources (node_count g) (g_edges g) [0..<node_count g]"
  have topo: "topo_order g order" if "?o = Some order" for order
    unfolding topo_order_def
  proof (intro conjI allI impI)
    fix pre i post j
    assume "order = pre @ i # post" "(i, j) \<in> set (g_edges g)"
    moreover from this(2) have "j \<in> set [0..<node_count g]" using ok by (auto simp: graph_ok_def)
    ultimately show "j \<in> set post" using remove_sources_some[OF that distinct_upt] by blast
  qed (use remove_sources_some[OF that distinct_upt] in \<open>simp_all add: atLeast0LessThan\<close>)
  show "case pg_toposort reference_petgraph g of Some order \<Rightarrow> topo_order g order | None \<Rightarrow> \<not> acyclic (set (g_edges g))"
    using remove_sources_none[of "node_count g" "g_edges g" "[0..<node_count g]"] topo
    by (cases ?o) (simp_all add: reference_petgraph_def)
  show "pg_is_cyclic reference_petgraph g \<longleftrightarrow> \<not> acyclic (set (g_edges g))"
    using remove_sources_none[of "node_count g" "g_edges g" "[0..<node_count g]"] topo topo_acyclic[OF _ ok]
    by (cases ?o) (auto simp: reference_petgraph_def)
qed (force simp: reference_petgraph_def edge_rel_def split: direction.split)+


definition sample_graph :: asset_graph where
  "sample_graph = AssetGraph (map new_node [''raw'', ''clean'', ''report'']) [(1, 0), (2, 1)]"


section \<open>Resolution\<close>

fun target_of :: "(string \<rightharpoonup> nat) \<Rightarrow> node_ref \<Rightarrow> nat" where
  "target_of idx (ByName d) = the (idx d)"
| "target_of idx (Resolved k) = k"

fun input_ok :: "(string \<rightharpoonup> nat) \<Rightarrow> nat \<Rightarrow> node_ref \<Rightarrow> bool" where
  "input_ok idx i (ByName d) = (idx d \<noteq> None \<and> idx d \<noteq> Some i)"
| "input_ok idx i (Resolved k) = False"

definition by_name :: "node_ref \<Rightarrow> bool" where
  "by_name r = (case r of ByName d \<Rightarrow> True | Resolved k \<Rightarrow> False)"

lemma resolve_inputs_spec:
  "\<forall>r \<in> set ins. by_name r \<Longrightarrow>
     if \<forall>r \<in> set ins. input_ok idx i r then resolve_inputs idx name i ins acc = Some (Inr (acc @ map (target_of idx) ins))
     else \<exists>e. resolve_inputs idx name i ins acc = Some (Inl e)"
  by (induction idx name i ins acc rule: resolve_inputs.induct)
     (auto simp: by_name_def split: option.splits if_splits)

definition resolved_node :: "(string \<rightharpoonup> nat) \<Rightarrow> dag_node \<Rightarrow> dag_node" where
  "resolved_node idx node =
     DagNode (dn_name node) (dn_kind node) (map Resolved (map (target_of idx) (dn_inputs node))) (dn_outputs node) (dn_sub_graph node)"

fun input_edges :: "(string \<rightharpoonup> nat) \<Rightarrow> nat \<Rightarrow> dag_node list \<Rightarrow> (nat \<times> nat) list" where
  "input_edges idx i [] = []"
| "input_edges idx i (node # nodes) = map (\<lambda>j. (i, j)) (map (target_of idx) (dn_inputs node)) @ input_edges idx (Suc i) nodes"

lemma resolve_nodes_spec:
  assumes "\<forall>node \<in> set nodes. \<forall>r \<in> set (dn_inputs node). by_name r"
  shows "if \<forall>k < length nodes. \<forall>r \<in> set (dn_inputs (nodes ! k)). input_ok idx (i + k) r
         then resolve_nodes idx i nodes ns es = Some (Inr (AssetGraph (ns @ map (resolved_node idx) nodes) (es @ input_edges idx i nodes)))
         else \<exists>e. resolve_nodes idx i nodes ns es = Some (Inl e)"
  using assms
proof (induction idx i nodes ns es rule: resolve_nodes.induct)
  case (2 idx i node nodes ns es)
  have split: "(\<forall>k < length (node # nodes). Q k ((node # nodes) ! k)) \<longleftrightarrow> Q 0 node \<and> (\<forall>k < length nodes. Q (Suc k) (nodes ! k))" for Q
    by (auto simp: nth_Cons split: nat.splits)
  note ins = resolve_inputs_spec[of "dn_inputs node" idx i "dn_name node" "[]"]
  show ?case
  proof (cases "\<forall>r \<in> set (dn_inputs node). input_ok idx i r")
    case True
    then have r: "resolve_inputs idx (dn_name node) i (dn_inputs node) [] = Some (Inr (map (target_of idx) (dn_inputs node)))"
      using ins "2.prems" by simp
    show ?thesis using "2.IH"[OF r refl] "2.prems" True
      by (simp add: r split[of "\<lambda>k n. \<forall>r \<in> set (dn_inputs n). input_ok idx (i + k) r", simplified] resolved_node_def[of idx node]
          del: map_map)
  next
    case False
    then obtain e where "resolve_inputs idx (dn_name node) i (dn_inputs node) [] = Some (Inl e)"
      using ins "2.prems" by (auto split: if_splits)
    then show ?thesis using False
      by (simp add: split[of "\<lambda>k n. \<forall>r \<in> set (dn_inputs n). input_ok idx (i + k) r", simplified])
  qed
qed simp

lemma fold_index_inj:
  assumes "inj_on f {..<n}"
  shows "fold (\<lambda>i m. m(f i \<mapsto> i)) [0..<n] Map.empty x = Some i \<longleftrightarrow> i < n \<and> f i = x"
proof -
  have "fold (\<lambda>i m. m(f i \<mapsto> i)) [0..<k] Map.empty x = Some i \<longleftrightarrow> i < k \<and> f i = x" if "k \<le> n" for k
    using that
  proof (induction k)
    case (Suc k)
    have "f i = f k \<longleftrightarrow> i = k" if "i < n" using assms Suc.prems that by (auto simp: inj_on_def)
    then show ?case using Suc by (auto simp: less_Suc_eq)
  qed simp
  then show ?thesis by simp
qed

lemma fold_index:
  assumes "distinct (map fst xs)"
  shows "fold (\<lambda>i m. m(fst (xs ! i) \<mapsto> i)) [0..<length xs] Map.empty n = Some i \<longleftrightarrow> i < length xs \<and> fst (xs ! i) = n"
  using assms by (intro fold_index_inj) (auto simp: inj_on_def distinct_conv_nth)

text \<open>The dependencies as declared, by name.\<close>

definition declared_deps :: "(string \<times> node_ref list) list \<Rightarrow> (string \<times> string) set" where
  "declared_deps assets = {(a, d). \<exists>ins. (a, ins) \<in> set assets \<and> ByName d \<in> set ins}"

lemma input_edges_iff:
  "(k, j) \<in> set (input_edges idx i nodes) \<longleftrightarrow>
     (\<exists>n < length nodes. k = i + n \<and> (\<exists>r \<in> set (dn_inputs (nodes ! n)). j = target_of idx r))"
proof (induction idx i nodes rule: input_edges.induct)
  case (2 idx i node nodes)
  show ?case unfolding input_edges.simps set_append Un_iff "2.IH" by (simp add: Ex_less_Suc2 image_iff)
qed simp

lemma acyclic_image:
  assumes "inj_on f A" and "E \<subseteq> A \<times> A"
  shows "acyclic (map_prod f f ` E) \<longleftrightarrow> acyclic E"
proof -
  have "(f i, f i) \<in> (map_prod f f ` E)\<^sup>+ \<longleftrightarrow> (i, i) \<in> E\<^sup>+" if "i \<in> A" for i
  proof -
    have "i = j" if "f i = f j" "(i, j) \<in> E\<^sup>+" for j
      using inj_onD[OF assms(1) that(1)] trancl_subset_Sigma[OF assms(2)] that(2) by blast
    then have "f i \<in> f ` (E\<^sup>+ `` {i}) \<longleftrightarrow> (i, i) \<in> E\<^sup>+" by blast
    then show ?thesis using trancl_image[OF assms \<open>i \<in> A\<close>] by blast
  qed
  moreover have "\<exists>i \<in> A. x = f i" if "(x, x) \<in> (map_prod f f ` E)\<^sup>+" for x
    using that by (rule tranclE) (use assms(2) in auto)
  moreover have "i \<in> A" if "(i, i) \<in> E\<^sup>+" for i using that trancl_subset_Sigma[OF assms(2)] by blast
  ultimately show ?thesis unfolding acyclic_def by metis
qed

text \<open>The graph and the name table that resolution builds.\<close>

definition asset_nodes :: "(string \<times> node_ref list) list \<Rightarrow> dag_node list" where
  "asset_nodes assets = map (\<lambda>(name, ins). DagNode name Asset ins [] None) assets"

definition asset_index :: "(string \<times> node_ref list) list \<Rightarrow> string \<rightharpoonup> nat" where
  "asset_index assets = fold (\<lambda>i m. m(fst (assets ! i) \<mapsto> i)) [0..<length assets] Map.empty"

definition declared_graph :: "(string \<times> node_ref list) list \<Rightarrow> asset_graph" where
  "declared_graph assets =
     AssetGraph (map (resolved_node (asset_index assets)) (asset_nodes assets)) (input_edges (asset_index assets) 0 (asset_nodes assets))"

lemma asset_nodes_simps [simp]:
  "length (asset_nodes assets) = length assets"
  "k < length assets \<Longrightarrow> dn_inputs (asset_nodes assets ! k) = snd (assets ! k)"
  "map dn_name (asset_nodes assets) = map fst assets"
  by (auto simp: asset_nodes_def split: prod.split)

lemma declared_graph_names:
  "node_names_of (declared_graph assets) = map fst assets" "node_count (declared_graph assets) = length assets"
  "i < length assets \<Longrightarrow> node_name (declared_graph assets) i = fst (assets ! i)"
proof -
  have "map dn_name (map (resolved_node idx) ns) = map dn_name ns" for idx ns by (simp add: resolved_node_def)
  then show names: "node_names_of (declared_graph assets) = map fst assets"
    unfolding node_names_of_def declared_graph_def by (metis asset_graph.sel(1) asset_nodes_simps(3))
  show "node_count (declared_graph assets) = length assets" by (simp add: node_count_def declared_graph_def)
  then show "i < length assets \<Longrightarrow> node_name (declared_graph assets) i = fst (assets ! i)"
    using names unfolding node_names_of_def node_name_def node_count_def by (metis nth_map length_map)
qed

lemma declared_deps_nth:
  "(a, d) \<in> declared_deps assets \<longleftrightarrow> (\<exists>i < length assets. fst (assets ! i) = a \<and> ByName d \<in> set (snd (assets ! i)))"
  unfolding declared_deps_def by (auto simp: in_set_conv_nth) (metis fst_conv snd_conv, metis prod.collapse)

lemma inputs_ok_iff:
  assumes "distinct (map fst assets)" and "\<forall>(a, ins) \<in> set assets. \<forall>r \<in> set ins. by_name r"
  shows "(\<forall>k < length assets. \<forall>r \<in> set (snd (assets ! k)). input_ok (asset_index assets) k r) \<longleftrightarrow>
     snd ` declared_deps assets \<subseteq> set (map fst assets) \<and> irrefl (declared_deps assets)"
proof -
  have idx: "asset_index assets n = Some i \<longleftrightarrow> i < length assets \<and> fst (assets ! i) = n" for n i
    unfolding asset_index_def using fold_index[OF assms(1)] .
  have known: "(\<exists>i. asset_index assets n = Some i) \<longleftrightarrow> n \<in> set (map fst assets)" for n
    unfolding idx by (auto simp: in_set_conv_nth[of n "map fst assets"] simp del: set_map)
  have ok: "input_ok (asset_index assets) k r \<longleftrightarrow> (\<forall>d. r = ByName d \<longrightarrow> d \<in> set (map fst assets) \<and> d \<noteq> fst (assets ! k))"
    if "k < length assets" "r \<in> set (snd (assets ! k))" for k r
  proof -
    have "(fst (assets ! k), snd (assets ! k)) \<in> set assets" using that(1) by simp
    then have "by_name r" using assms(2) that(2) by blast
    then obtain d where d: "r = ByName d" by (auto simp: by_name_def split: node_ref.splits)
    have "asset_index assets d \<noteq> None \<longleftrightarrow> d \<in> set (map fst assets)" unfolding known[symmetric] by simp
    moreover have "asset_index assets d \<noteq> Some k \<longleftrightarrow> d \<noteq> fst (assets ! k)" using idx[of d k] that(1) by metis
    ultimately show ?thesis unfolding d input_ok.simps by blast
  qed
  have "(\<forall>k < length assets. \<forall>r \<in> set (snd (assets ! k)). input_ok (asset_index assets) k r) \<longleftrightarrow>
    (\<forall>(a, d) \<in> declared_deps assets. d \<in> set (map fst assets) \<and> d \<noteq> a)"
    unfolding split_beta Ball_def mem_Collect_eq split_paired_All fst_conv snd_conv declared_deps_nth using ok by blast
  then show ?thesis by (auto simp: irrefl_def simp del: set_map)
qed

lemma declared_graph_edges:
  assumes "distinct (map fst assets)" and "\<forall>(a, ins) \<in> set assets. \<forall>r \<in> set ins. by_name r"
    and "snd ` declared_deps assets \<subseteq> set (map fst assets)"
  shows "set (g_edges (declared_graph assets)) \<subseteq> {..<length assets} \<times> {..<length assets}"
    and "map_prod (node_name (declared_graph assets)) (node_name (declared_graph assets)) ` set (g_edges (declared_graph assets)) =
           declared_deps assets"
proof -
  let ?g = "declared_graph assets"
  have idx: "asset_index assets n = Some i \<longleftrightarrow> i < length assets \<and> fst (assets ! i) = n" for n i
    unfolding asset_index_def using fold_index[OF assms(1)] .
  have edge: "(k, j) \<in> set (g_edges ?g) \<longleftrightarrow>
      k < length assets \<and> j < length assets \<and> (fst (assets ! k), fst (assets ! j)) \<in> declared_deps assets" for k j
  proof
    assume "(k, j) \<in> set (g_edges ?g)"
    then obtain r where k: "k < length assets" "r \<in> set (snd (assets ! k))" "j = target_of (asset_index assets) r"
      by (auto simp: declared_graph_def input_edges_iff)
    have "(fst (assets ! k), snd (assets ! k)) \<in> set assets" using k(1) by simp
    then have "by_name r" using assms(2) k(2) by blast
    then obtain d where d: "r = ByName d" by (auto simp: by_name_def split: node_ref.splits)
    have dep: "(fst (assets ! k), d) \<in> declared_deps assets" unfolding declared_deps_nth using k d by blast
    then have "d \<in> set (map fst assets)" using assms(3) by (metis image_eqI snd_conv subsetD)
    then obtain i where "i < length assets" "fst (assets ! i) = d" by (auto simp: in_set_conv_nth)
    then show "k < length assets \<and> j < length assets \<and> (fst (assets ! k), fst (assets ! j)) \<in> declared_deps assets"
      using idx[of d i] k d dep by simp
  next
    assume e: "k < length assets \<and> j < length assets \<and> (fst (assets ! k), fst (assets ! j)) \<in> declared_deps assets"
    then obtain i where "i < length assets" "fst (assets ! i) = fst (assets ! k)" "ByName (fst (assets ! j)) \<in> set (snd (assets ! i))"
      unfolding declared_deps_nth by blast
    moreover from this have "i = k" using assms(1) e nth_eq_iff_index_eq[of "map fst assets" i k] by simp
    ultimately show "(k, j) \<in> set (g_edges ?g)"
      using e idx[of "fst (assets ! j)" j] by (auto simp: declared_graph_def input_edges_iff intro!: bexI[of _ "ByName (fst (assets ! j))"])
  qed
  show "set (g_edges ?g) \<subseteq> {..<length assets} \<times> {..<length assets}" using edge by auto
  show "map_prod (node_name ?g) (node_name ?g) ` set (g_edges ?g) = declared_deps assets" (is "?L = ?R")
  proof (intro equalityI subrelI)
    fix a d assume "(a, d) \<in> ?L"
    then show "(a, d) \<in> ?R" using edge declared_graph_names(3)[of _ assets] by auto
  next
    fix a d assume ad: "(a, d) \<in> ?R"
    then have "d \<in> set (map fst assets)" using assms(3) by (metis image_eqI snd_conv subsetD)
    moreover have "a \<in> set (map fst assets)" using ad unfolding declared_deps_nth by auto
    ultimately obtain k j where "k < length assets" "j < length assets" "a = fst (assets ! k)" "d = fst (assets ! j)"
      by (auto simp: in_set_conv_nth)
    then show "(a, d) \<in> ?L" using edge[of k j] ad declared_graph_names(3)[of _ assets] by (force intro!: image_eqI[of _ _ "(k, j)"])
  qed
qed

text \<open>
  C15: Resolution accepts exactly the well-formed declarations. For declared inputs given by name it never
  panics; it succeeds exactly when every input names a declared asset and the declared dependencies,
  self-dependencies included, have no cycle. The resolved graph has the declared assets as nodes, in
  their order, and the declared dependencies as edges, and it always has a topological order.
\<close>

theorem resolve_exact:
  assumes "petgraph_ok P" and "distinct (map fst assets)" and "\<forall>(a, ins) \<in> set assets. \<forall>r \<in> set ins. by_name r"
  shows "if snd ` declared_deps assets \<subseteq> set (map fst assets) \<and> acyclic (declared_deps assets)
         then \<exists>g. resolve_asset_graph P assets = Some (Inr g) \<and> graph_ok g \<and> node_names_of g = map fst assets \<and>
                map_prod (node_name g) (node_name g) ` set (g_edges g) = declared_deps assets \<and> pg_toposort P g \<noteq> None
         else \<exists>e. resolve_asset_graph P assets = Some (Inl e)"
proof -
  let ?g = "declared_graph assets" and ?D = "declared_deps assets"
  have "\<forall>node \<in> set (asset_nodes assets). \<forall>r \<in> set (dn_inputs node). by_name r" using assms(3) by (auto simp: asset_nodes_def)
  from resolve_nodes_spec[OF this, of "asset_index assets" 0 "[]" "[]"]
  have res: "if snd ` ?D \<subseteq> set (map fst assets) \<and> irrefl ?D
      then resolve_nodes (asset_index assets) 0 (asset_nodes assets) [] [] = Some (Inr ?g)
      else \<exists>e. resolve_nodes (asset_index assets) 0 (asset_nodes assets) [] [] = Some (Inl e)"
    using inputs_ok_iff[OF assms(2,3)] by (simp add: declared_graph_def)
  have unfold: "resolve_asset_graph P assets =
      (case resolve_nodes (asset_index assets) 0 (asset_nodes assets) [] [] of
         None \<Rightarrow> None | Some (Inl e) \<Rightarrow> Some (Inl e)
       | Some (Inr g) \<Rightarrow> (case detect_cycles P g of Inl e \<Rightarrow> Some (Inl e) | Inr _ \<Rightarrow> Some (Inr g)))"
    by (simp add: resolve_asset_graph_def asset_index_def asset_nodes_def)
  show ?thesis
  proof (cases "snd ` ?D \<subseteq> set (map fst assets) \<and> irrefl ?D")
    case False
    then have "\<not> (snd ` ?D \<subseteq> set (map fst assets) \<and> acyclic ?D)" by (metis acyclic_irrefl irrefl_def r_into_trancl' irrefl_trancl_rD)
    then show ?thesis using False res unfolding unfold by (auto split: if_splits)
  next
    case True
    note edges = declared_graph_edges[OF assms(2,3)]
    have ok: "graph_ok ?g" using True edges(1) assms(2) by (simp add: graph_ok_def declared_graph_names)
    have cyc: "acyclic (set (g_edges ?g)) \<longleftrightarrow> acyclic ?D"
      using acyclic_image[OF inj_node_name[OF ok], of "set (g_edges ?g)"] True edges by (simp add: declared_graph_names)
    have pg: "pg_is_cyclic P ?g \<longleftrightarrow> \<not> acyclic (set (g_edges ?g))" "acyclic (set (g_edges ?g)) \<Longrightarrow> \<exists>order. pg_toposort P ?g = Some order"
      using assms(1) ok unfolding petgraph_ok_def by (blast, fastforce split: option.splits)
    have det: "detect_cycles P ?g = Inr () \<longleftrightarrow> \<not> pg_is_cyclic P ?g" "detect_cycles P ?g \<noteq> Inr () \<longrightarrow> (\<exists>e. detect_cycles P ?g = Inl e)"
      by (auto simp: detect_cycles_def Let_def split: list.split)
    show ?thesis using True res ok cyc pg det edges(2) declared_graph_names(1)[of assets] unfolding unfold by (auto split: if_splits)
  qed
qed

theorem resolve_exact_witness:
  "(\<exists>g. resolve_asset_graph reference_petgraph [(''clean'', [ByName ''raw'']), (''raw'', [])] = Some (Inr g) \<and>
      map_prod (node_name g) (node_name g) ` set (g_edges g) = {(''clean'', ''raw'')}) \<and>
   (\<exists>e. resolve_asset_graph reference_petgraph [(''clean'', [ByName ''rwa'']), (''raw'', [])] = Some (Inl e))"
proof -
  let ?ok = "[(''clean'', [ByName ''raw'']), (''raw'', [])]" and ?bad = "[(''clean'', [ByName ''rwa'']), (''raw'', [])]"
  have deps: "declared_deps ?ok = {(''clean'', ''raw'')}" "declared_deps ?bad = {(''clean'', ''rwa'')}"
    by (auto simp: declared_deps_def)
  have "acyclic {(''clean'', ''raw'')}" by (simp add: acyclic_insert) (simp add: acyclic_def)
  then show ?thesis
    using resolve_exact[OF reference_petgraph_ok, of ?ok] resolve_exact[OF reference_petgraph_ok, of ?bad]
    by (auto simp: deps by_name_def)
qed

section \<open>Selections\<close>

lemma name_to_index_iff: "graph_ok g \<Longrightarrow> name_to_index g n = Some i \<longleftrightarrow> i < node_count g \<and> node_name g i = n"
  unfolding name_to_index_def by (intro fold_index_inj inj_node_name)

lemma closure_loop_exact:
  assumes inj: "inj_on nm {..<n}" and rng: "\<forall>i < n. set (nb i) \<subseteq> {..<n}"
    and "V \<subseteq> {..<n}" and "set st \<subseteq> {..<n}" and "succ_rel nb n `` V \<subseteq> V \<union> set st"
  shows "closure_loop nb nm n st (nm ` V) = Some (nm ` (V \<union> (succ_rel nb n)\<^sup>* `` set st))"
  using assms
proof (induction nb nm n st "nm ` V" arbitrary: V rule: closure_loop.induct)
  case (2 nb nm n i st)
  let ?E = "succ_rel nb n"
  have i: "i < n" using "2.prems" by simp
  have mem: "nm i \<in> nm ` V \<longleftrightarrow> i \<in> V" using "2.prems"(1,3) i by (auto simp: inj_on_def)
  show ?case
  proof (cases "i \<in> V")
    case True
    have "closure_loop nb nm n st (nm ` V) = Some (nm ` (V \<union> ?E\<^sup>* `` set st))"
      using "2.hyps"(1)[of V] "2.prems" True i mem by (simp add: insert_absorb)
    moreover have "?E\<^sup>* `` {i} \<subseteq> V \<union> ?E\<^sup>* `` set st"
    proof
      fix y assume "y \<in> ?E\<^sup>* `` {i}"
      then have "(i, y) \<in> ?E\<^sup>*" by blast
      then show "y \<in> V \<union> ?E\<^sup>* `` set st"
      proof (induction rule: rtrancl_induct)
        case (step y z)
        then show ?case using "2.prems"(5) True by (auto intro: rtrancl_into_rtrancl)
      qed (use True in blast)
    qed
    then have "V \<union> ?E\<^sup>* `` set (i # st) = V \<union> ?E\<^sup>* `` set st" by auto
    ultimately show ?thesis using True i mem by simp
  next
    case False
    have nb: "?E `` {i} = set (nb i)" "set (nb i) \<subseteq> {..<n}" using "2.prems"(2) i by (auto simp: succ_rel_def)
    have "closure_loop nb nm n (rev (nb i) @ st) (nm ` insert i V) = Some (nm ` (insert i V \<union> ?E\<^sup>* `` set (rev (nb i) @ st)))"
      by (rule "2.hyps"(2)) (use "2.prems" i False mem nb in auto)
    moreover have "?E\<^sup>* `` {i} = insert i (?E\<^sup>* `` (set (nb i)))"
      unfolding nb(1)[symmetric] by (auto elim: converse_rtranclE intro: converse_rtrancl_into_rtrancl)
    then have "V \<union> ?E\<^sup>* `` set (i # st) = insert i V \<union> ?E\<^sup>* `` set (rev (nb i) @ st)" by auto
    ultimately show ?thesis using i mem False by simp
  qed
qed simp

lemma validate_iff:
  assumes "petgraph_ok P" and "graph_ok g"
  shows "validate_subgraph_completeness P g sel = Inr () \<longleftrightarrow>
    (\<forall>(i, j) \<in> set (g_edges g). node_name g i \<in> set sel \<longrightarrow> node_name g j \<in> set sel)"
proof -
  have nb: "set (pg_neighbors P g Outgoing i) = set (g_edges g) `` {i}" if "i < node_count g" for i
    using assms that unfolding petgraph_ok_def by (auto simp: edge_rel_def)
  have rng: "i < node_count g" if "(i, j) \<in> set (g_edges g)" for i j using assms(2) that by (auto simp: graph_ok_def)
  have "missing_deps P g sel = [] \<longleftrightarrow>
      (\<forall>n \<in> set sel. \<forall>i. name_to_index g n = Some i \<longrightarrow> (\<forall>j \<in> set (pg_neighbors P g Outgoing i). node_name g j \<in> set sel))"
    by (auto simp: missing_deps_def filter_empty_conv split: option.splits)
  also have "\<dots> \<longleftrightarrow> (\<forall>(i, j) \<in> set (g_edges g). node_name g i \<in> set sel \<longrightarrow> node_name g j \<in> set sel)"
    unfolding name_to_index_iff[OF assms(2)] using nb rng by fastforce
  finally show ?thesis by (simp add: validate_subgraph_completeness_def Let_def)
qed

lemma in_map_filter: "y \<in> set (List.map_filter f xs) \<longleftrightarrow> (\<exists>x \<in> set xs. f x = Some y)"
  by (induction xs) (auto simp: List.map_filter_simps split: option.splits)

lemma upstream_closure_exact:
  assumes "petgraph_ok P" and "graph_ok g"
  shows "upstream_closure P g ts =
    Some (node_name g ` ((set (g_edges g))\<^sup>* `` {i. i < node_count g \<and> node_name g i \<in> set ts}))"
proof -
  note nb = neighbors_in[OF assms, of Outgoing]
  have st: "set (rev (List.map_filter (name_to_index g) ts)) = {i. i < node_count g \<and> node_name g i \<in> set ts}"
    by (auto simp: in_map_filter name_to_index_iff[OF assms(2)])
  show ?thesis
    unfolding upstream_closure_def
    using closure_loop_exact[OF inj_node_name[OF assms(2)] nb(2), of "{}" "rev (List.map_filter (name_to_index g) ts)"]
    unfolding st nb(1) by (auto simp: edge_rel_def)
qed

text \<open>
  C26: The upstream closure of some targets is the least complete selection. On a graph with distinct
  names it is computed without a panic, holds every target that exists, passes the completeness check,
  and is contained in every selection of those targets that passes the check.
\<close>

theorem closure_least_complete:
  assumes "petgraph_ok P" and "graph_ok g"
  shows "\<exists>C. upstream_closure P g ts = Some C \<and> set ts \<inter> set (node_names_of g) \<subseteq> C \<and> C \<subseteq> set (node_names_of g) \<and>
    (\<forall>sel. set sel = C \<longrightarrow> validate_subgraph_completeness P g sel = Inr ()) \<and>
    (\<forall>sel. set ts \<inter> set (node_names_of g) \<subseteq> set sel \<longrightarrow> validate_subgraph_completeness P g sel = Inr () \<longrightarrow> C \<subseteq> set sel)"
proof -
  let ?E = "set (g_edges g)" and ?N = "{..<node_count g}" and ?T = "{i. i < node_count g \<and> node_name g i \<in> set ts}"
  define C where "C = node_name g ` (?E\<^sup>* `` ?T)"
  have names: "set (node_names_of g) = node_name g ` ?N"
    unfolding node_names_of_def node_name_def node_count_def by (force simp: in_set_conv_nth)
  have E: "?E \<subseteq> ?N \<times> ?N" using assms(2) by (simp add: graph_ok_def)
  have "k \<in> ?N" if "(t, k) \<in> ?E\<^sup>*" "t \<in> ?N" for t k
    using that(1) by (cases rule: rtranclE) (use that(2) E in auto)
  then have reach: "?E\<^sup>* `` ?T \<subseteq> ?N" by blast
  have inj: "i = j" if "node_name g i = node_name g j" "i \<in> ?N" "j \<in> ?N" for i j
    using inj_node_name[OF assms(2)] that by (auto simp: inj_on_def)
  have "set ts \<inter> set (node_names_of g) \<subseteq> C" "C \<subseteq> set (node_names_of g)"
    unfolding names C_def using reach by (auto intro!: imageI)
  moreover have "validate_subgraph_completeness P g sel = Inr ()" if "set sel = C" for sel
    unfolding validate_iff[OF assms] that C_def
  proof (intro ballI, clarify)
    fix i j k t assume e: "(i, j) \<in> ?E" and "node_name g i = node_name g k" and k: "t < node_count g" "node_name g t \<in> set ts" "(t, k) \<in> ?E\<^sup>*"
    then have "i = k" using inj E reach by blast
    then show "node_name g j \<in> node_name g ` (?E\<^sup>* `` ?T)" using e k by (blast intro: rtrancl_into_rtrancl)
  qed
  moreover have "C \<subseteq> set sel" if sel: "set ts \<inter> set (node_names_of g) \<subseteq> set sel" "validate_subgraph_completeness P g sel = Inr ()" for sel
  proof -
    have "node_name g j \<in> set sel" if "(i, j) \<in> ?E\<^sup>*" "i \<in> ?T" for i j
      using that
    proof (induction rule: rtrancl_induct)
      case base
      then show ?case using sel(1) names by auto
    qed (use sel(2) in \<open>auto simp: validate_iff[OF assms]\<close>)
    then show ?thesis unfolding C_def by blast
  qed
  moreover have "upstream_closure P g ts = Some C" unfolding C_def by (rule upstream_closure_exact[OF assms])
  ultimately show ?thesis by (intro exI[of _ C]) simp
qed

theorem closure_least_complete_witness:
  "\<exists>C. upstream_closure reference_petgraph sample_graph [''clean'', ''ghost''] = Some C \<and> ''clean'' \<in> C"
proof -
  have g: "graph_ok sample_graph" "''clean'' \<in> set (node_names_of sample_graph)"
    by (auto simp: graph_ok_def sample_graph_def node_names_of_def node_count_def new_node_def)
  show ?thesis using closure_least_complete[OF reference_petgraph_ok g(1), of "[''clean'', ''ghost'']"] g(2) by auto
qed

end
