(* ===== verification/Graph_Composition.thy ===== *)
theory Graph_Composition
  imports Prelude "HOL-Library.AList"
begin

text \<open>
  Recording the body of a graph asset (\<open>rivers-core/src/composition.rs\<close>): a stack of contexts, each with
  the invocations of one body and the order they were made in. The thread-local stack is the list with
  the innermost context first; calling an operation outside a composition is a panic, the value \<open>None\<close>.
\<close>

datatype invoked_node_type = TaskNode | AssetNode

record input_binding =
  upstream_node_name :: string
  ib_output_name :: string
  param_name :: "string option"

datatype invocation_kind =
    InvNormal
  | InvMap string string "nat option"
  | InvCollect string
  | InvCollectStream string bool

record invoked_node =
  iv_name :: string
  iv_type :: invoked_node_type
  iv_bindings :: "input_binding list"
  iv_kind :: invocation_kind

record composition_context =
  cc_name :: string
  cc_invocations :: "string \<rightharpoonup> invoked_node"
  cc_order :: "string list"

definition DEFAULT_OUTPUT_NAME :: string where
  "DEFAULT_OUTPUT_NAME = ''result''"

definition new_context :: "string \<Rightarrow> composition_context" where
  "new_context name = \<lparr>cc_name = name, cc_invocations = Map.empty, cc_order = []\<rparr>"

definition record_node :: "invoked_node \<Rightarrow> composition_context \<Rightarrow> string \<times> composition_context" where
  "record_node node ctx =
     (iv_name node, ctx\<lparr>cc_invocations := (cc_invocations ctx)(iv_name node \<mapsto> node), cc_order := cc_order ctx @ [iv_name node]\<rparr>)"

definition ctx_observe_invocation ::
  "string \<Rightarrow> invoked_node_type \<Rightarrow> input_binding list \<Rightarrow> composition_context \<Rightarrow> string \<times> composition_context" where
  "ctx_observe_invocation name ty bindings ctx =
     (let registered = (case ty of TaskNode \<Rightarrow> cc_name ctx @ ''/'' @ name | AssetNode \<Rightarrow> name)
      in record_node \<lparr>iv_name = registered, iv_type = ty, iv_bindings = bindings, iv_kind = InvNormal\<rparr> ctx)"

definition ctx_observe_map_invocation ::
  "string \<Rightarrow> string \<Rightarrow> string \<Rightarrow> nat option \<Rightarrow> composition_context \<Rightarrow> string \<times> composition_context" where
  "ctx_observe_map_invocation task source_node source_output max_concurrency ctx =
     record_node \<lparr>iv_name = cc_name ctx @ ''/'' @ task, iv_type = TaskNode,
       iv_bindings = [\<lparr>upstream_node_name = source_node, ib_output_name = source_output, param_name = None\<rparr>],
       iv_kind = InvMap source_node source_output max_concurrency\<rparr> ctx"

definition ctx_observe_collect_invocation ::
  "string \<Rightarrow> bool \<Rightarrow> bool \<Rightarrow> composition_context \<Rightarrow> string \<times> composition_context" where
  "ctx_observe_collect_invocation mapped streaming ordered ctx =
     record_node \<lparr>iv_name = mapped @ ''__collect'', iv_type = TaskNode,
       iv_bindings = [\<lparr>upstream_node_name = mapped, ib_output_name = DEFAULT_OUTPUT_NAME, param_name = None\<rparr>],
       iv_kind = (if streaming then InvCollectStream mapped ordered else InvCollect mapped)\<rparr> ctx"

section \<open>The stack of contexts\<close>

type_synonym composition_stack = "composition_context list"

definition is_in_composition :: "composition_stack \<Rightarrow> bool" where
  "is_in_composition stack = (stack \<noteq> [])"

definition enter_composition :: "string \<Rightarrow> composition_stack \<Rightarrow> composition_stack" where
  "enter_composition name stack = new_context name # stack"

definition exit_composition :: "composition_stack \<Rightarrow> (composition_context \<times> composition_stack) option" where
  "exit_composition stack = (case stack of [] \<Rightarrow> None | ctx # rest \<Rightarrow> Some (ctx, rest))"

definition with_top ::
  "(composition_context \<Rightarrow> string \<times> composition_context) \<Rightarrow> composition_stack \<Rightarrow> (string \<times> composition_stack) option" where
  "with_top f stack =
     (case stack of [] \<Rightarrow> None | ctx # rest \<Rightarrow> (case f ctx of (name, ctx') \<Rightarrow> Some (name, ctx' # rest)))"

definition observe_invocation ::
  "string \<Rightarrow> invoked_node_type \<Rightarrow> input_binding list \<Rightarrow> composition_stack \<Rightarrow> (string \<times> composition_stack) option" where
  "observe_invocation name ty bindings = with_top (ctx_observe_invocation name ty bindings)"

definition observe_map_invocation ::
  "string \<Rightarrow> string \<Rightarrow> string \<Rightarrow> nat option \<Rightarrow> composition_stack \<Rightarrow> (string \<times> composition_stack) option" where
  "observe_map_invocation task source_node source_output max_concurrency =
     with_top (ctx_observe_map_invocation task source_node source_output max_concurrency)"

definition observe_collect_invocation :: "string \<Rightarrow> bool \<Rightarrow> bool \<Rightarrow> composition_stack \<Rightarrow> (string \<times> composition_stack) option" where
  "observe_collect_invocation mapped streaming ordered = with_top (ctx_observe_collect_invocation mapped streaming ordered)"

section \<open>Well-formed recordings\<close>

text \<open>What a graph body does to the stack: it invokes tasks and assets, and runs nested bodies.\<close>

inductive body_step :: "composition_stack \<Rightarrow> composition_stack \<Rightarrow> bool" where
  invoke: "observe_invocation name ty bs s = Some (n, s') \<Longrightarrow> body_step s s'"
| map_over: "observe_map_invocation task src outp k s = Some (n, s') \<Longrightarrow> body_step s s'"
| collect: "observe_collect_invocation mapped streaming ordered s = Some (n, s') \<Longrightarrow> body_step s s'"
| nested: "body_step\<^sup>*\<^sup>* (enter_composition g s) t \<Longrightarrow> exit_composition t = Some (ctx, s') \<Longrightarrow> body_step s s'"

definition context_ok :: "composition_context \<Rightarrow> bool" where
  "context_ok ctx \<longleftrightarrow> dom (cc_invocations ctx) = set (cc_order ctx) \<and>
     (\<forall>n node. cc_invocations ctx n = Some node \<longrightarrow> iv_name node = n)"

lemma context_ok_new [simp]: "context_ok (new_context name)"
  by (simp add: context_ok_def new_context_def)

lemma context_ok_record: "context_ok ctx \<Longrightarrow> context_ok (snd (record_node node ctx)) \<and> cc_name (snd (record_node node ctx)) = cc_name ctx"
  by (auto simp: context_ok_def record_node_def)

lemmas observe_defs = observe_invocation_def observe_map_invocation_def observe_collect_invocation_def
  ctx_observe_invocation_def ctx_observe_map_invocation_def ctx_observe_collect_invocation_def

text \<open>What a step leaves: only the innermost context changes, and it stays well-formed.\<close>

definition extends_top :: "composition_stack \<Rightarrow> composition_stack \<Rightarrow> bool" where
  "extends_top s s' \<longleftrightarrow> tl s' = tl s \<and> (s = [] \<longleftrightarrow> s' = []) \<and>
     (s \<noteq> [] \<longrightarrow> cc_name (hd s') = cc_name (hd s) \<and> (context_ok (hd s) \<longrightarrow> context_ok (hd s')))"

lemma extends_top_refl [simp]: "extends_top s s"
  by (simp add: extends_top_def)

lemma extends_top_trans: "extends_top s t \<Longrightarrow> extends_top t u \<Longrightarrow> extends_top s u"
  by (auto simp: extends_top_def)

lemma with_top_extends:
  assumes "with_top f s = Some (n, s')" and "\<And>ctx. \<exists>node. f ctx = record_node node ctx"
  shows "extends_top s s'"
proof (cases s)
  case (Cons ctx rest)
  obtain node where "f ctx = record_node node ctx" using assms(2) by blast
  then have "s' = snd (record_node node ctx) # rest" using assms(1) Cons by (auto simp: with_top_def split: prod.splits)
  then show ?thesis using Cons context_ok_record[of ctx node] by (auto simp: extends_top_def record_node_def)
qed (use assms(1) in \<open>simp add: with_top_def\<close>)

lemma body_step_extends: "body_step s s' \<Longrightarrow> extends_top s s'"
proof (induction rule: body_step.induct)
  case (nested g s t ctx s')
  have "extends_top (enter_composition g s) t"
    using nested.IH(1) by (induction rule: rtranclp_induct) (auto intro: extends_top_trans)
  then show ?case using nested.hyps
    by (cases t) (auto simp: extends_top_def enter_composition_def exit_composition_def)
qed (auto simp: observe_defs Let_def intro!: with_top_extends)

text \<open>
  C27: A recorded graph body is well-formed and leaves no trace outside itself. Whatever invocations, fan-outs,
  collects and nested bodies it runs, leaving it never panics, gives back the stack that was there before,
  and returns a context of the right name in which the recorded invocations are exactly the names in the
  invocation order, each stored under its own name.
\<close>

theorem body_recording_isolated:
  assumes "body_step\<^sup>*\<^sup>* (enter_composition g s) t"
  shows "\<exists>ctx. exit_composition t = Some (ctx, s) \<and> cc_name ctx = g \<and> context_ok ctx"
proof -
  have "extends_top (enter_composition g s) t"
    using assms by (induction rule: rtranclp_induct) (auto intro: extends_top_trans body_step_extends)
  then show ?thesis
    by (cases t) (auto simp: extends_top_def enter_composition_def exit_composition_def new_context_def context_ok_def)
qed

theorem body_recording_isolated_witness:
  "\<exists>t ctx. body_step\<^sup>*\<^sup>* (enter_composition ''g'' []) t \<and> exit_composition t = Some (ctx, []) \<and> cc_order ctx = [''g/clean'']"
proof -
  define t where "t = snd (the (observe_invocation ''clean'' TaskNode [] (enter_composition ''g'' [])))"
  have "body_step (enter_composition ''g'' []) t"
    by (rule body_step.invoke[of "''clean''" TaskNode "[]" _ "''g/clean''"])
       (simp add: t_def Let_def observe_defs with_top_def enter_composition_def new_context_def record_node_def)
  then have run: "body_step\<^sup>*\<^sup>* (enter_composition ''g'' []) t" ..
  from body_recording_isolated[OF this] obtain ctx where "exit_composition t = Some (ctx, [])" by blast
  moreover from this have "cc_order ctx = [''g/clean'']"
    by (simp add: t_def Let_def exit_composition_def observe_defs with_top_def enter_composition_def new_context_def record_node_def)
       auto
  ultimately show ?thesis using run by blast
qed

end
