(* ===== verification/Execution_Plan.thy ===== *)
theory Execution_Plan
  imports Asset_Graph Graph_Composition
begin

text \<open>
  Execution plans (\<open>rivers-core/src/execution/plan.rs\<close>): building the steps of a run from the asset
  graph, from a selection with multi-asset groups and for a named action, and grouping them into
  levels that run in parallel. Panics are \<open>None\<close>. Three orders the code leaves open are parameters:
  petgraph's functions, the iteration order of a hash set of strings (\<open>iter\<close>) and the standard
  library's \<open>sort_by\<close>, which is only specified for a comparator that is a total order.
\<close>

section \<open>Steps and plans\<close>

datatype step_kind =
    Normal
  | Mapped string "nat option"
  | Collect string
  | CollectStream string bool

fun step_kind_from :: "invocation_kind \<Rightarrow> step_kind" where
  "step_kind_from InvNormal = Normal"
| "step_kind_from (InvMap source_node source_output max_concurrency) = Mapped source_node max_concurrency"
| "step_kind_from (InvCollect mapped) = Collect mapped"
| "step_kind_from (InvCollectStream mapped ordered) = CollectStream mapped ordered"

record execution_step =
  st_name :: string
  st_kind :: step_kind
  st_outputs :: "string list"
  st_plan_deps :: "string list"
  st_graph_deps :: "string list"

definition event_names :: "execution_step \<Rightarrow> string list" where
  "event_names s = (if st_outputs s = [] then [st_name s] else st_outputs s)"

datatype action_ordering = Unordered | UpstreamFirst | DownstreamFirst

record execution_plan =
  ep_steps :: "execution_step list"
  ep_action :: "string option"

definition ep_is_action :: "execution_plan \<Rightarrow> bool" where
  "ep_is_action p = (ep_action p \<noteq> None)"

definition ep_is_materialize :: "execution_plan \<Rightarrow> bool" where
  "ep_is_materialize p = (ep_action p = None)"

definition all_asset_names :: "execution_plan \<Rightarrow> string list" where
  "all_asset_names p = concat (map event_names (ep_steps p))"

definition apply_fan_out_kinds :: "(string \<rightharpoonup> step_kind) \<Rightarrow> execution_plan \<Rightarrow> execution_plan" where
  "apply_fan_out_kinds kinds p =
     p\<lparr>ep_steps := map (\<lambda>s. case kinds (st_name s) of Some k \<Rightarrow> s\<lparr>st_kind := k\<rparr> | None \<Rightarrow> s) (ep_steps p)\<rparr>"

section \<open>Building plans\<close>

definition dep_names :: "petgraph \<Rightarrow> asset_graph \<Rightarrow> nat \<Rightarrow> string list" where
  "dep_names P g i = map (node_name g) (pg_neighbors P g Outgoing i)"

definition plain_step :: "string \<Rightarrow> string list \<Rightarrow> string list \<Rightarrow> execution_step" where
  "plain_step name plan_deps graph_deps =
     \<lparr>st_name = name, st_kind = Normal, st_outputs = [], st_plan_deps = plan_deps, st_graph_deps = graph_deps\<rparr>"

definition from_graph :: "petgraph \<Rightarrow> asset_graph \<Rightarrow> execution_plan option" where
  "from_graph P g =
     (case pg_toposort P g of
        None \<Rightarrow> None
      | Some order \<Rightarrow>
          Some \<lparr>ep_steps = map (\<lambda>i. plain_step (node_name g i) (dep_names P g i) (dep_names P g i)) (rev order),
                ep_action = None\<rparr>)"

definition related_targets :: "string list \<Rightarrow> string set \<Rightarrow> string list" where
  "related_targets targets closure = filter (\<lambda>t. t \<in> closure) targets"

definition action_deps :: "petgraph \<Rightarrow> asset_graph \<Rightarrow> string list \<Rightarrow> action_ordering \<Rightarrow> string \<Rightarrow> string list option" where
  "action_deps P g targets how target =
     (case how of
        Unordered \<Rightarrow> Some []
      | UpstreamFirst \<Rightarrow> map_option (related_targets targets) (ancestors P g target)
      | DownstreamFirst \<Rightarrow> map_option (related_targets targets) (descendants P g target))"

fun action_steps :: "petgraph \<Rightarrow> asset_graph \<Rightarrow> string list \<Rightarrow> action_ordering \<Rightarrow> string list \<Rightarrow> execution_step list option" where
  "action_steps P g targets how [] = Some []"
| "action_steps P g targets how (t # ts) =
     Option.bind (action_deps P g targets how t) (\<lambda>deps.
       map_option ((#) (plain_step t deps [])) (action_steps P g targets how ts))"

definition for_action :: "petgraph \<Rightarrow> asset_graph \<Rightarrow> string \<Rightarrow> string list \<Rightarrow> action_ordering \<Rightarrow> execution_plan option" where
  "for_action P g action targets how =
     (let ts = dedup targets
      in map_option (\<lambda>steps. \<lparr>ep_steps = steps, ep_action = Some action\<rparr>) (action_steps P g ts how ts))"

text \<open>
  The state of the loop over the reversed topological order: the step of each group, the rewriting of
  grouped outputs to their step, and the steps.
\<close>

record subgraph_state =
  sg_group_step :: "string \<rightharpoonup> nat"
  sg_output_to_step :: "string \<rightharpoonup> string"
  sg_steps :: "execution_step list"

definition add_deps :: "(string \<Rightarrow> bool) \<Rightarrow> string list \<Rightarrow> string list \<Rightarrow> string list" where
  "add_deps ok new deps = fold (\<lambda>d acc. if ok d \<and> d \<notin> set acc then acc @ [d] else acc) new deps"

definition join_group :: "string \<Rightarrow> string list \<Rightarrow> string list \<Rightarrow> execution_step \<Rightarrow> execution_step" where
  "join_group name plan_deps neighbors step =
     (let outs = st_outputs step @ [name];
          ok = (\<lambda>d. d \<noteq> st_name step \<and> d \<notin> set outs)
      in step\<lparr>st_outputs := outs, st_plan_deps := add_deps ok plan_deps (st_plan_deps step),
              st_graph_deps := add_deps ok neighbors (st_graph_deps step)\<rparr>)"

definition rewrite_dep :: "(string \<rightharpoonup> string) \<Rightarrow> string \<Rightarrow> string" where
  "rewrite_dep m n = (case m n of Some s \<Rightarrow> s | None \<Rightarrow> n)"

definition add_node ::
  "petgraph \<Rightarrow> (string set \<Rightarrow> string list) \<Rightarrow> asset_graph \<Rightarrow> string set \<Rightarrow> (string \<rightharpoonup> string) \<Rightarrow> nat \<Rightarrow>
   subgraph_state \<Rightarrow> subgraph_state" where
  "add_node P iter g sel groups i s =
     (let name = node_name g i
      in if name \<notin> sel then s
         else
           (let neighbors = dep_names P g i;
                plan_deps = iter (rewrite_dep (sg_output_to_step s) ` {n \<in> set neighbors. n \<in> sel})
            in case groups name of
                 None \<Rightarrow> s\<lparr>sg_steps := sg_steps s @ [plain_step name plan_deps neighbors]\<rparr>
               | Some grp \<Rightarrow>
                   (case sg_group_step s grp of
                      Some k \<Rightarrow>
                        s\<lparr>sg_steps := (sg_steps s)[k := join_group name plan_deps neighbors (sg_steps s ! k)],
                          sg_output_to_step := (sg_output_to_step s)(name \<mapsto> st_name (sg_steps s ! k))\<rparr>
                    | None \<Rightarrow>
                        s\<lparr>sg_output_to_step := (sg_output_to_step s)(name \<mapsto> name),
                          sg_group_step := (sg_group_step s)(grp \<mapsto> length (sg_steps s)),
                          sg_steps := sg_steps s @ [(plain_step name plan_deps neighbors)\<lparr>st_outputs := [name]\<rparr>]\<rparr>)))"

definition subgraph_steps ::
  "petgraph \<Rightarrow> (string set \<Rightarrow> string list) \<Rightarrow> asset_graph \<Rightarrow> string set \<Rightarrow> (string \<rightharpoonup> string) \<Rightarrow> nat list \<Rightarrow> subgraph_state" where
  "subgraph_steps P iter g sel groups order =
     fold (add_node P iter g sel groups) (rev order)
       \<lparr>sg_group_step = Map.empty, sg_output_to_step = Map.empty, sg_steps = []\<rparr>"

text \<open>Levels for the composition order, and its comparator.\<close>

definition step_level :: "(string \<rightharpoonup> nat) \<Rightarrow> execution_step \<Rightarrow> nat" where
  "step_level levels s =
     (if st_plan_deps s = [] then 0
      else Max (set (map (\<lambda>d. (case levels d of Some l \<Rightarrow> l | None \<Rightarrow> 0) + 1) (st_plan_deps s))))"

definition step_levels :: "execution_step list \<Rightarrow> string \<rightharpoonup> nat" where
  "step_levels steps =
     fold (\<lambda>s m. let l = step_level m s in fold (\<lambda>outp m. m(outp \<mapsto> l)) (st_outputs s) (m(st_name s \<mapsto> l))) steps Map.empty"

datatype cmp_ordering = Less | Equal | Greater

definition cmp_nat :: "nat \<Rightarrow> nat \<Rightarrow> cmp_ordering" where
  "cmp_nat a b = (if a < b then Less else if a = b then Equal else Greater)"

definition same_graph :: "string \<Rightarrow> string \<Rightarrow> bool" where
  "same_graph a b \<longleftrightarrow> CHR ''/'' \<in> set a \<and> CHR ''/'' \<in> set b \<and> hd (split_char CHR ''/'' a) = hd (split_char CHR ''/'' b)"

definition cmp_steps :: "(string \<rightharpoonup> nat) \<Rightarrow> (string \<rightharpoonup> nat) \<Rightarrow> execution_step \<Rightarrow> execution_step \<Rightarrow> cmp_ordering" where
  "cmp_steps levels corder a b =
     (let lv = (\<lambda>s. case levels (st_name s) of Some l \<Rightarrow> l | None \<Rightarrow> 0);
          ord = (\<lambda>s. case corder (st_name s) of Some o' \<Rightarrow> o' | None \<Rightarrow> usize_max)
      in case cmp_nat (lv a) (lv b) of
           Equal \<Rightarrow> (if same_graph (st_name a) (st_name b) then cmp_nat (ord a) (ord b) else Equal)
         | c \<Rightarrow> c)"

definition from_subgraph ::
  "petgraph \<Rightarrow> (string set \<Rightarrow> string list) \<Rightarrow>
   ((execution_step \<Rightarrow> execution_step \<Rightarrow> cmp_ordering) \<Rightarrow> execution_step list \<Rightarrow> execution_step list option) \<Rightarrow>
   asset_graph \<Rightarrow> string set \<Rightarrow> (string \<rightharpoonup> string) \<Rightarrow> (string \<times> nat) list \<Rightarrow> execution_plan option" where
  "from_subgraph P iter sort_by g sel groups corder =
     Option.bind (pg_toposort P g) (\<lambda>order.
       let steps = sg_steps (subgraph_steps P iter g sel groups order)
       in map_option (\<lambda>ss. \<lparr>ep_steps = ss, ep_action = None\<rparr>)
            (if corder = [] then Some steps else sort_by (cmp_steps (step_levels steps) (map_of corder)) steps))"

section \<open>Levels\<close>

definition steps_by_name :: "execution_step list \<Rightarrow> string \<rightharpoonup> nat" where
  "steps_by_name steps =
     fold (\<lambda>i m. fold (\<lambda>outp m. m(outp \<mapsto> i)) (st_outputs (steps ! i)) (m(st_name (steps ! i) \<mapsto> i)))
       [0..<length steps] Map.empty"

definition settle_level :: "execution_step list \<Rightarrow> (string \<rightharpoonup> nat) \<Rightarrow> nat option list \<Rightarrow> nat \<Rightarrow> nat" where
  "settle_level steps by_nm lv i =
     (let ls = map (\<lambda>dep. (case Option.bind (by_nm dep) (\<lambda>d. lv ! d) of Some l \<Rightarrow> l | None \<Rightarrow> 0) + 1) (st_plan_deps (steps ! i))
      in if ls = [] then 0 else Max (set ls))"

definition push_deps :: "execution_step list \<Rightarrow> (string \<rightharpoonup> nat) \<Rightarrow> nat option list \<Rightarrow> bool list \<Rightarrow> nat \<Rightarrow> (nat \<times> bool) list" where
  "push_deps steps by_nm lv on i =
     map (\<lambda>d. (d, False)) (filter (\<lambda>d. lv ! d = None \<and> \<not> on ! d) (List.map_filter by_nm (st_plan_deps (steps ! i))))"

text \<open>The depth-first search: the head of \<open>stack\<close> is popped next; an index out of range is a panic.\<close>

function dfs :: "execution_step list \<Rightarrow> (string \<rightharpoonup> nat) \<Rightarrow> (nat \<times> bool) list \<Rightarrow> nat option list \<Rightarrow> bool list \<Rightarrow>
  (nat option list \<times> bool list) option" where
  "dfs steps by_nm [] lv on = Some (lv, on)"
| "dfs steps by_nm ((i, settle) # stack) lv on =
     (if i \<ge> length lv \<or> i \<ge> length on then None
      else if settle then dfs steps by_nm stack (lv[i := Some (settle_level steps by_nm lv i)]) (on[i := False])
      else if lv ! i \<noteq> None \<or> on ! i then dfs steps by_nm stack lv on
      else (let on' = on[i := True]
            in dfs steps by_nm (rev (push_deps steps by_nm lv on' i) @ (i, True) # stack) lv on'))"
  by pat_completeness auto

definition fresh :: "nat option list \<Rightarrow> bool list \<Rightarrow> nat set" where
  "fresh lv on = {i. i < length lv \<and> i < length on \<and> lv ! i = None \<and> \<not> on ! i}"

lemma finite_fresh [simp]: "finite (fresh lv on)"
  by (rule finite_subset[of _ "{..<length lv}"]) (auto simp: fresh_def)

lemma nth_upd: "j < length xs \<Longrightarrow> xs[i := v] ! j = (if i = j then v else xs ! j)"
  by (cases "i = j") auto

lemma fresh_settle: "fresh (lv[i := Some l]) (on[i := False]) \<subseteq> fresh lv on"
  by (auto simp: fresh_def nth_upd split: if_splits)

lemma fresh_visit:
  assumes "i < length lv" and "i < length on" and "lv ! i = None" and "\<not> on ! i"
  shows "fresh lv (on[i := True]) \<subset> fresh lv on"
proof -
  have "i \<in> fresh lv on" "i \<notin> fresh lv (on[i := True])" using assms by (auto simp: fresh_def)
  moreover have "fresh lv (on[i := True]) \<subseteq> fresh lv on" by (auto simp: fresh_def nth_upd split: if_splits)
  ultimately show ?thesis by blast
qed

termination dfs
proof (relation "measures [\<lambda>(steps, by_nm, stack, lv, on). card (fresh lv on), \<lambda>(steps, by_nm, stack, lv, on). length stack]",
    goal_cases)
  case (2 steps by_nm i settle stack lv on)
  then show ?case using card_mono[OF finite_fresh fresh_settle[of lv i _ on]] by (auto simp: le_less)
next
  case (4 steps by_nm i settle stack lv on)
  then show ?case using psubset_card_mono[OF finite_fresh fresh_visit[of i lv on]] by auto
qed auto

fun dfs_roots :: "execution_step list \<Rightarrow> (string \<rightharpoonup> nat) \<Rightarrow> nat list \<Rightarrow> nat option list \<Rightarrow> bool list \<Rightarrow> nat option list option" where
  "dfs_roots steps by_nm [] lv on = Some lv"
| "dfs_roots steps by_nm (r # rs) lv on =
     (if lv ! r \<noteq> None then dfs_roots steps by_nm rs lv on
      else Option.bind (dfs steps by_nm [(r, False)] lv on) (\<lambda>(lv', on'). dfs_roots steps by_nm rs lv' on'))"

text \<open>Placing an index into its level, growing the list of levels as needed.\<close>

definition place :: "nat \<Rightarrow> nat \<Rightarrow> nat list list \<Rightarrow> nat list list" where
  "place i l levels =
     (let grown = levels @ replicate (Suc l - length levels) []
      in grown[l := grown ! l @ [i]])"

definition bucket_levels :: "nat option list \<Rightarrow> nat list list" where
  "bucket_levels lv = fold (\<lambda>i. place i (case lv ! i of Some l \<Rightarrow> l | None \<Rightarrow> 0)) [0..<length lv] []"

definition group_steps_by_level :: "execution_plan \<Rightarrow> nat list list option" where
  "group_steps_by_level p =
     (let steps = ep_steps p; n = length steps
      in map_option bucket_levels
           (dfs_roots steps (steps_by_name steps) [0..<n] (replicate n None) (replicate n False)))"

end
