(* ===== verification/Plan_Levels.thy ===== *)
theory Plan_Levels
  imports Execution_Plan
begin

text \<open>
  Correctness of the level grouping of an execution plan: the depth-first search ends without a panic on
  every plan, malformed ones included, every step lands in exactly one level, and on a plan without
  cyclic dependencies the level of a step is the length of its longest chain of dependencies.
\<close>

section \<open>Dependencies between steps\<close>

definition step_rel :: "execution_step list \<Rightarrow> (nat \<times> nat) set" where
  "step_rel steps = {(i, d). i < length steps \<and> (\<exists>dep \<in> set (st_plan_deps (steps ! i)). steps_by_name steps dep = Some d)}"

lemma fold_map_upd:
  fixes m :: "'a \<rightharpoonup> 'b"
  assumes "fold (\<lambda>x m. m(x \<mapsto> k)) xs m n = Some i"
  shows "m n = Some i \<or> i = k"
  using assms
proof (induction xs arbitrary: m)
  case (Cons x xs)
  then show ?case using Cons.IH[of "m(x \<mapsto> k)"] by (auto split: if_splits)
qed simp

lemma fold_by_name:
  fixes m :: "string \<rightharpoonup> nat"
  assumes "fold (\<lambda>i m. fold (\<lambda>outp m. m(outp \<mapsto> i)) (st_outputs (steps ! i)) (m(st_name (steps ! i) \<mapsto> i))) ks m n = Some i"
  shows "m n = Some i \<or> i \<in> set ks"
  using assms
proof (induction ks arbitrary: m)
  case (Cons k ks)
  let ?m = "fold (\<lambda>outp m. m(outp \<mapsto> k)) (st_outputs (steps ! k)) (m(st_name (steps ! k) \<mapsto> k))"
  have "?m n = Some i \<Longrightarrow> m n = Some i \<or> i = k" 
    by (drule fold_map_upd) (auto split: if_splits)
  moreover have "?m n = Some i \<or> i \<in> set ks" by (rule Cons.IH) (use Cons.prems in \<open>simp only: fold.simps o_apply\<close>)
  ultimately show ?case by auto
qed simp

lemma steps_by_name_bound: "steps_by_name steps n = Some i \<Longrightarrow> i < length steps"
  unfolding steps_by_name_def by (drule fold_by_name) simp

lemma push_deps_iff:
  "(d, b) \<in> set (push_deps steps bn lv on i) \<longleftrightarrow>
     \<not> b \<and> lv ! d = None \<and> \<not> on ! d \<and> (\<exists>dep \<in> set (st_plan_deps (steps ! i)). bn dep = Some d)"
  by (auto simp: push_deps_def in_map_filter)

section \<open>The search ends and settles everything\<close>

lemma dfs_total:
  assumes "\<forall>dep d. bn dep = Some d \<longrightarrow> d < n" and "length lv = n" and "length on = n" and "fst ` set stack \<subseteq> {..<n}"
    and "\<forall>i < n. on ! i \<longrightarrow> (i, True) \<in> set stack"
  shows "\<exists>lv' on'. dfs steps bn stack lv on = Some (lv', on') \<and> length lv' = n \<and> length on' = n \<and>
    (\<forall>i < n. \<not> on' ! i) \<and> (\<forall>i < n. lv ! i \<noteq> None \<longrightarrow> lv' ! i \<noteq> None) \<and> (\<forall>i \<in> fst ` set stack. lv' ! i \<noteq> None)"
  using assms
proof (induction steps bn stack lv on rule: dfs.induct)
  case (2 steps bn i settle stack lv on)
  then have i: "i < n" "\<not> (i \<ge> length lv \<or> i \<ge> length on)" by auto
  show ?case
  proof (cases settle)
    case True
    define lv1 where "lv1 = lv[i := Some (settle_level steps bn lv i)]"
    have "\<exists>lv' on'. dfs steps bn stack lv1 (on[i := False]) = Some (lv', on') \<and> length lv' = n \<and> length on' = n \<and>
      (\<forall>i < n. \<not> on' ! i) \<and> (\<forall>i < n. lv1 ! i \<noteq> None \<longrightarrow> lv' ! i \<noteq> None) \<and> (\<forall>i \<in> fst ` set stack. lv' ! i \<noteq> None)"
      unfolding lv1_def by (rule "2.IH"(1)[OF i(2) True "2.prems"(1)]) (use "2.prems" in \<open>auto simp: nth_upd split: if_splits\<close>)
    moreover have "lv1 ! i \<noteq> None" "\<And>j. j < n \<Longrightarrow> lv ! j \<noteq> None \<Longrightarrow> lv1 ! j \<noteq> None"
      using i(1) "2.prems"(2) by (auto simp: lv1_def nth_upd)
    ultimately show ?thesis using i True by (auto simp: lv1_def[symmetric])
  next
    case False
    show ?thesis
    proof (cases "lv ! i \<noteq> None \<or> on ! i")
      case True
      have "\<exists>lv' on'. dfs steps bn stack lv on = Some (lv', on') \<and> length lv' = n \<and> length on' = n \<and>
        (\<forall>i < n. \<not> on' ! i) \<and> (\<forall>i < n. lv ! i \<noteq> None \<longrightarrow> lv' ! i \<noteq> None) \<and> (\<forall>i \<in> fst ` set stack. lv' ! i \<noteq> None)"
        by (rule "2.IH"(2)[OF i(2) False True "2.prems"(1-3)]) (use "2.prems"(4,5) False in auto)
      moreover have "on ! i \<Longrightarrow> i \<in> fst ` set stack" using "2.prems"(5) i(1) False by force
      ultimately show ?thesis using i True False by auto
    next
      case visit: False
      let ?st = "rev (push_deps steps bn lv (on[i := True]) i) @ (i, True) # stack"
      have bound: "fst ` set (push_deps steps bn lv (on[i := True]) i) \<subseteq> {..<n}"
        using "2.prems"(1) by (auto simp: push_deps_iff)
      have ih: "\<exists>lv' on'. dfs steps bn ?st lv (on[i := True]) = Some (lv', on') \<and> length lv' = n \<and> length on' = n \<and>
        (\<forall>i < n. \<not> on' ! i) \<and> (\<forall>i < n. lv ! i \<noteq> None \<longrightarrow> lv' ! i \<noteq> None) \<and> (\<forall>i \<in> fst ` set ?st. lv' ! i \<noteq> None)"
        by (rule "2.IH"(3)[OF i(2) False visit refl "2.prems"(1)]) (use "2.prems" bound False in \<open>auto simp: nth_upd split: if_splits\<close>)
      have eq: "dfs steps bn ((i, settle) # stack) lv on = dfs steps bn ?st lv (on[i := True])"
        using i visit False by (simp add: Let_def)
      have sub: "fst ` set ((i, settle) # stack) \<subseteq> fst ` set ?st" by auto
      from ih obtain lv' on' where r: "dfs steps bn ?st lv (on[i := True]) = Some (lv', on')" "length lv' = n" "length on' = n"
        "\<forall>i < n. \<not> on' ! i" "\<forall>i < n. lv ! i \<noteq> None \<longrightarrow> lv' ! i \<noteq> None" "\<forall>i \<in> fst ` set ?st. lv' ! i \<noteq> None" by blast
      show ?thesis unfolding eq using r(1-5) r(6)[THEN bspec, OF subsetD[OF sub]] by (intro exI[of _ lv'] exI[of _ on']) simp
    qed
  qed
qed simp

section \<open>Levels of an acyclic plan\<close>

definition dep_rel :: "execution_step list \<Rightarrow> (string \<rightharpoonup> nat) \<Rightarrow> nat \<Rightarrow> (nat \<times> nat) set" where
  "dep_rel steps bn n = {(i, d). i < n \<and> (\<exists>dep \<in> set (st_plan_deps (steps ! i)). bn dep = Some d)}"

text \<open>A settled step has the level its dependencies give it, and they are settled too.\<close>

definition settled_ok :: "execution_step list \<Rightarrow> (string \<rightharpoonup> nat) \<Rightarrow> nat \<Rightarrow> nat option list \<Rightarrow> bool" where
  "settled_ok steps bn n lv \<longleftrightarrow> (\<forall>i < n. \<forall>l. lv ! i = Some l \<longrightarrow>
     l = settle_level steps bn lv i \<and> (\<forall>d. (i, d) \<in> dep_rel steps bn n \<longrightarrow> lv ! d \<noteq> None))"

text \<open>
  Below a pending settle entry nothing is known; above it are only entries the step reaches, among
  them every dependency that is not settled yet.
\<close>

definition stack_ok :: "(nat \<times> nat) set \<Rightarrow> nat option list \<Rightarrow> bool list \<Rightarrow> (nat \<times> bool) list \<Rightarrow> bool" where
  "stack_ok R lv on stack \<longleftrightarrow> (\<forall>pre i post. stack = pre @ (i, True) # post \<longrightarrow>
     lv ! i = None \<and> on ! i \<and> (\<forall>d. (i, d) \<in> R \<longrightarrow> lv ! d \<noteq> None \<or> d \<in> fst ` set pre) \<and>
     (\<forall>e \<in> fst ` set pre. (i, e) \<in> R\<^sup>+))"

lemma settle_level_cong:
  assumes "i < n" and "\<And>d. (i, d) \<in> dep_rel steps bn n \<Longrightarrow> lv ! d = lv' ! d"
  shows "settle_level steps bn lv i = settle_level steps bn lv' i"
proof -
  have "Option.bind (bn dep) ((!) lv) = Option.bind (bn dep) ((!) lv')" if "dep \<in> set (st_plan_deps (steps ! i))" for dep
    using assms that by (cases "bn dep") (auto simp: dep_rel_def)
  then show ?thesis unfolding settle_level_def by (simp cong: map_cong)
qed

lemma settle_keeps_ok:
  assumes acy: "acyclic (dep_rel steps bn n)" and ok: "settled_ok steps bn n lv"
    and st: "stack_ok (dep_rel steps bn n) lv on ((i, True) # stack)" and i: "i < n" "length lv = n" "length on = n"
    and rng: "\<forall>(j, d) \<in> dep_rel steps bn n. d < n" and bound: "fst ` set stack \<subseteq> {..<n}"
  defines "lv1 \<equiv> lv[i := Some (settle_level steps bn lv i)]"
  shows "settled_ok steps bn n lv1" and "stack_ok (dep_rel steps bn n) lv1 (on[i := False]) stack"
proof -
  let ?R = "dep_rel steps bn n"
  have top: "lv ! i = None" "\<And>d. (i, d) \<in> ?R \<Longrightarrow> lv ! d \<noteq> None" using st unfolding stack_ok_def by (metis append_Nil empty_iff image_empty list.set(1))+
  have self: "(i, i) \<notin> ?R" using acy by (auto simp: acyclic_def)
  have okD: "lv ! d \<noteq> None" "l = settle_level steps bn lv j" if "j < n" "lv ! j = Some l" "(j, d) \<in> ?R \<or> d = j" for j l d
    using ok that unfolding settled_ok_def by auto
  have lv1: "lv1 ! j = (if j = i then Some (settle_level steps bn lv i) else lv ! j)" if "j < n" for j
    using that i by (simp add: lv1_def nth_upd)
  show "settled_ok steps bn n lv1"
    unfolding settled_ok_def
  proof (intro allI impI)
    fix j l assume j: "j < n" "lv1 ! j = Some l"
    have deps: "lv ! d \<noteq> None \<and> d \<noteq> i \<and> d < n" if "(j, d) \<in> ?R" for d
    proof (cases "j = i")
      case True
      then show ?thesis using that top self rng by auto
    next
      case False
      then have "lv ! j = Some l" using lv1[OF j(1)] j(2) by simp
      then have "lv ! d \<noteq> None" using okD(1)[OF j(1)] that by blast
      then show ?thesis using top(1) rng that by auto
    qed
    then have "settle_level steps bn lv1 j = settle_level steps bn lv j"
      by (intro settle_level_cong[OF j(1)]) (simp add: lv1)
    then show "l = settle_level steps bn lv1 j \<and> (\<forall>d. (j, d) \<in> ?R \<longrightarrow> lv1 ! d \<noteq> None)"
      using j lv1 deps okD(2)[OF j(1), of l j] by (cases "j = i") auto
  qed
  show "stack_ok ?R lv1 (on[i := False]) stack"
    unfolding stack_ok_def
  proof (intro allI impI)
    fix pre k post assume split: "stack = pre @ (k, True) # post"
    then have "(i, True) # stack = ((i, True) # pre) @ (k, True) # post" by simp
    then have k: "lv ! k = None" "on ! k" "\<forall>d. (k, d) \<in> ?R \<longrightarrow> lv ! d \<noteq> None \<or> d \<in> fst ` set ((i, True) # pre)"
      "\<forall>e \<in> fst ` set ((i, True) # pre). (k, e) \<in> ?R\<^sup>+"
      using st unfolding stack_ok_def by blast+
    have "k \<noteq> i" using k(4) acy by (auto simp: acyclic_def)
    moreover have "k < n" using bound split by auto
    moreover have "lv1 ! d \<noteq> None \<or> d \<in> fst ` set pre" if "(k, d) \<in> ?R" for d
    proof -
      have "d < n" using rng that by auto
      then show ?thesis using k(3) that lv1[of d] by auto
    qed
    ultimately show "lv1 ! k = None \<and> on[i := False] ! k \<and> (\<forall>d. (k, d) \<in> ?R \<longrightarrow> lv1 ! d \<noteq> None \<or> d \<in> fst ` set pre) \<and>
        (\<forall>e \<in> fst ` set pre. (k, e) \<in> ?R\<^sup>+)"
      using k(1,2,4) i lv1[of k] by (auto simp: nth_upd)
  qed
qed

lemma visit_keeps_ok:
  assumes acy: "acyclic (dep_rel steps bn n)" and st: "stack_ok (dep_rel steps bn n) lv on ((i, False) # stack)"
    and i: "i < n" "length on = n" and fresh: "lv ! i = None" and onst: "\<forall>j < n. on ! j \<longrightarrow> (j, True) \<in> set ((i, False) # stack)"
    and rng: "\<forall>(j, d) \<in> dep_rel steps bn n. d < n" and bound: "fst ` set stack \<subseteq> {..<n}"
  shows "stack_ok (dep_rel steps bn n) lv (on[i := True]) (rev (push_deps steps bn lv (on[i := True]) i) @ (i, True) # stack)"
  unfolding stack_ok_def
proof (intro allI impI)
  let ?R = "dep_rel steps bn n" and ?push = "rev (push_deps steps bn lv (on[i := True]) i)"
  fix pre k post assume split: "?push @ (i, True) # stack = pre @ (k, True) # post"
  have "(k, True) \<notin> set ?push" by (simp add: push_deps_iff)
  then have no_marker: "?push \<noteq> pre @ (k, True) # ys" for ys by (metis in_set_conv_decomp)
  have pushed: "(i, e) \<in> ?R" if "e \<in> fst ` set ?push" for e using that i(1) by (auto simp: push_deps_iff dep_rel_def)
  have above: "(d, i) \<in> ?R\<^sup>+" if "on ! d" "d < n" for d
  proof -
    have "(d, True) \<in> set stack" using onst that by auto
    then obtain p1 p2 where "(i, False) # stack = ((i, False) # p1) @ (d, True) # p2" by (auto dest: split_list)
    then show ?thesis using st unfolding stack_ok_def by (metis image_eqI fst_conv list.set_intros(1))
  qed
  consider "pre = ?push" "k = i" "post = stack" | p1 where "pre = ?push @ (i, True) # p1" "stack = p1 @ (k, True) # post"
    using split no_marker by (auto simp: append_eq_append_conv2 append_eq_Cons_conv Cons_eq_append_conv)
  then show "lv ! k = None \<and> on[i := True] ! k \<and> (\<forall>d. (k, d) \<in> ?R \<longrightarrow> lv ! d \<noteq> None \<or> d \<in> fst ` set pre) \<and>
      (\<forall>e \<in> fst ` set pre. (k, e) \<in> ?R\<^sup>+)"
  proof cases
    case 1
    have "lv ! d \<noteq> None \<or> d \<in> fst ` set ?push" if d: "(i, d) \<in> ?R" for d
    proof -
      have "d < n" "d \<noteq> i" using d rng acy by (auto simp: acyclic_def)
      then have "\<not> on[i := True] ! d" using above[of d] d acy i by (auto simp: nth_upd acyclic_def dest: trancl_into_trancl2)
      then have "lv ! d = None \<Longrightarrow> (d, False) \<in> set ?push" using d by (simp add: push_deps_iff dep_rel_def)
      then show ?thesis by (metis fst_conv image_eqI)
    qed
    then show ?thesis using 1 fresh i pushed by (auto simp: nth_upd)
  next
    case 2
    then have "(i, False) # stack = ((i, False) # p1) @ (k, True) # post" by simp
    then have k: "lv ! k = None" "on ! k" "\<forall>d. (k, d) \<in> ?R \<longrightarrow> lv ! d \<noteq> None \<or> d \<in> fst ` set ((i, False) # p1)"
      "\<forall>e \<in> fst ` set ((i, False) # p1). (k, e) \<in> ?R\<^sup>+"
      using st unfolding stack_ok_def by blast+
    have "k < n" using bound 2 by auto
    then show ?thesis using k 2 pushed i by (auto simp: nth_upd intro: trancl_into_trancl)
  qed
qed

lemma skip_keeps_ok:
  assumes acyc: "acyclic R" and st: "stack_ok R lv on ((i, False) # stack)" and i: "(i :: nat) < n" and seen: "lv ! i \<noteq> None \<or> on ! i"
    and onst: "\<forall>j < n. on ! j \<longrightarrow> (j, True) \<in> set stack"
  shows "stack_ok R lv on stack"
  unfolding stack_ok_def
proof (intro allI impI)
  fix pre k post assume split: "stack = pre @ (k, True) # post"
  have top: "lv ! k' = None \<and> on ! k' \<and> (\<forall>d. (k', d) \<in> R \<longrightarrow> lv ! d \<noteq> None \<or> d \<in> fst ` set ((i, False) # pre')) \<and>
      (\<forall>e \<in> fst ` set ((i, False) # pre'). (k', e) \<in> R\<^sup>+)" if "stack = pre' @ (k', True) # post'" for pre' k' post'
    using st that unfolding stack_ok_def by (metis append_Cons)
  have "i \<in> fst ` set pre" if k: "(k, i) \<in> R" and none: "lv ! i = None"
  proof (rule ccontr)
    assume not: "i \<notin> fst ` set pre"
    have "(i, True) \<in> set stack" using none seen onst i by blast
    moreover have "(i, True) \<notin> set pre" using not by force
    moreover have "i \<noteq> k" using k acyc by (auto simp: acyclic_def)
    ultimately have "(i, True) \<in> set post" using split by simp
    then obtain mid rest where "post = mid @ (i, True) # rest" by (meson split_list)
    then have "stack = (pre @ (k, True) # mid) @ (i, True) # rest" using split by simp
    from top[OF this] have "(i, k) \<in> R\<^sup>+" by simp
    then show False using k acyc by (meson acyclic_def trancl_into_trancl)
  qed
  then show "lv ! k = None \<and> on ! k \<and> (\<forall>d. (k, d) \<in> R \<longrightarrow> lv ! d \<noteq> None \<or> d \<in> fst ` set pre) \<and>
      (\<forall>e \<in> fst ` set pre. (k, e) \<in> R\<^sup>+)"
    using top[OF split] by auto
qed

lemma dfs_acyclic:
  assumes "acyclic (dep_rel steps bn n)" and "\<forall>dep d. bn dep = Some d \<longrightarrow> d < n" and "length lv = n" and "length on = n"
    and "fst ` set stack \<subseteq> {..<n}" and "\<forall>i < n. on ! i \<longrightarrow> (i, True) \<in> set stack"
    and "settled_ok steps bn n lv" and "stack_ok (dep_rel steps bn n) lv on stack"
    and "dfs steps bn stack lv on = Some (lv', on')"
  shows "settled_ok steps bn n lv'"
  using assms
proof (induction steps bn stack lv on rule: dfs.induct)
  case (2 steps bn i settle stack lv on)
  have i: "i < n" "\<not> (i \<ge> length lv \<or> i \<ge> length on)" using "2.prems" by auto
  have rng: "\<forall>(j, d) \<in> dep_rel steps bn n. d < n" using "2.prems"(2) by (auto simp: dep_rel_def)
  have bound: "fst ` set stack \<subseteq> {..<n}" using "2.prems"(5) by auto
  show ?case
  proof (cases settle)
    case True
    have st: "stack_ok (dep_rel steps bn n) lv on ((i, True) # stack)" using "2.prems"(8) True by simp
    note keep = settle_keeps_ok[OF "2.prems"(1,7) st i(1) "2.prems"(3,4) rng bound]
    show ?thesis
      by (rule "2.IH"(1)[OF i(2) True "2.prems"(1,2)]) (use "2.prems" True keep i in \<open>auto simp: nth_upd split: if_splits\<close>)
  next
    case False
    show ?thesis
    proof (cases "lv ! i \<noteq> None \<or> on ! i")
      case True
      have "stack_ok (dep_rel steps bn n) lv on stack"
        by (rule skip_keeps_ok[OF "2.prems"(1) _ i(1) True]) (use "2.prems"(6,8) False in auto)
      then show ?thesis
        by (intro "2.IH"(2)[OF i(2) False True "2.prems"(1,2)]) (use "2.prems" True False i in auto)
    next
      case visit: False
      have st: "stack_ok (dep_rel steps bn n) lv on ((i, False) # stack)" using "2.prems"(8) False by simp
      have onst: "\<forall>j < n. on ! j \<longrightarrow> (j, True) \<in> set ((i, False) # stack)" using "2.prems"(6) False by simp
      have push: "fst ` set (push_deps steps bn lv (on[i := True]) i) \<subseteq> {..<n}"
        using "2.prems"(2) by (auto simp: push_deps_iff)
      have fr: "lv ! i = None" using visit by blast
      note keep = visit_keeps_ok[OF "2.prems"(1) st i(1) "2.prems"(4) fr onst rng bound]
      show ?thesis
        by (rule "2.IH"(3)[OF i(2) False visit refl "2.prems"(1,2)])
           (use "2.prems" False visit keep i push in \<open>auto simp: nth_upd Let_def split: if_splits\<close>)
    qed
  qed
qed simp

text \<open>The search from every root settles every step, and on an acyclic plan each at its own level.\<close>

lemma dfs_roots_spec:
  assumes bn: "\<forall>dep d. bn dep = Some d \<longrightarrow> d < n" and "length lv = n" and "length on = n" and "set rs \<subseteq> {..<n}"
    and "\<forall>i < n. \<not> on ! i" and "acyclic (dep_rel steps bn n) \<longrightarrow> settled_ok steps bn n lv"
  shows "\<exists>lv'. dfs_roots steps bn rs lv on = Some lv' \<and> length lv' = n \<and> (\<forall>i < n. lv ! i \<noteq> None \<or> i \<in> set rs \<longrightarrow> lv' ! i \<noteq> None) \<and>
    (acyclic (dep_rel steps bn n) \<longrightarrow> settled_ok steps bn n lv')"
  using assms
proof (induction steps bn rs lv on rule: dfs_roots.induct)
  case (2 steps bn r rs lv on)
  show ?case
  proof (cases "lv ! r = None")
    case False
    have "\<exists>lv'. dfs_roots steps bn rs lv on = Some lv' \<and> length lv' = n \<and> (\<forall>i < n. lv ! i \<noteq> None \<or> i \<in> set rs \<longrightarrow> lv' ! i \<noteq> None) \<and>
        (acyclic (dep_rel steps bn n) \<longrightarrow> settled_ok steps bn n lv')"
      by (rule "2.IH"(1)[OF False]) (use "2.prems" in auto)
    then show ?thesis using False by auto
  next
    case True
    obtain lv1 on1 where d: "dfs steps bn [(r, False)] lv on = Some (lv1, on1)" "length lv1 = n" "length on1 = n" "\<forall>i < n. \<not> on1 ! i"
      "\<forall>i < n. lv ! i \<noteq> None \<longrightarrow> lv1 ! i \<noteq> None" "lv1 ! r \<noteq> None"
      using dfs_total[OF "2.prems"(1-3), of "[(r, False)]" steps] "2.prems"(4,5) by auto
    have st: "stack_ok (dep_rel steps bn n) lv on [(r, False)]" by (auto simp: stack_ok_def Cons_eq_append_conv)
    have "acyclic (dep_rel steps bn n) \<longrightarrow> settled_ok steps bn n lv1"
      using dfs_acyclic[OF _ "2.prems"(1-3) _ _ _ st d(1)] "2.prems"(4-6) by auto
    moreover have "\<not> lv ! r \<noteq> None" using True by simp
    ultimately have "\<exists>lv'. dfs_roots steps bn rs lv1 on1 = Some lv' \<and> length lv' = n \<and> (\<forall>i < n. lv1 ! i \<noteq> None \<or> i \<in> set rs \<longrightarrow> lv' ! i \<noteq> None) \<and>
        (acyclic (dep_rel steps bn n) \<longrightarrow> settled_ok steps bn n lv')"
      by (intro "2.IH"(2)[OF _ d(1) refl]) (use "2.prems" d in auto)
    then show ?thesis using True d by auto
  qed
qed auto

text \<open>Bucketing keeps, for each level, the indices of that level in plan order.\<close>

definition bucket_at :: "nat list list \<Rightarrow> nat \<Rightarrow> nat list" where
  "bucket_at ls l = (if l < length ls then ls ! l else [])"

lemma bucket_at_place: "bucket_at (place i k ls) l = bucket_at ls l @ (if l = k then [i] else [])"
  by (auto simp: bucket_at_def place_def Let_def nth_append nth_upd)

lemma length_place: "length (place i k ls) = max (length ls) (Suc k)"
  by (auto simp: place_def Let_def)

lemma fold_place: "bucket_at (fold (\<lambda>i. place i (f i)) xs ls) l = bucket_at ls l @ filter (\<lambda>i. f i = l) xs"
  by (induction xs arbitrary: ls) (auto simp: bucket_at_place)

lemma length_fold_place:
  "length ls \<le> length (fold (\<lambda>i. place i (f i)) xs ls) \<and> (\<forall>i \<in> set xs. f i < length (fold (\<lambda>i. place i (f i)) xs ls))"
proof (induction xs arbitrary: ls)
  case (Cons x xs)
  from Cons[of "place x (f x) ls"] show ?case by (auto simp: length_place)
qed simp

lemma settle_level_gt:
  assumes "(i, d) \<in> dep_rel steps bn n" and "lv ! d = Some l"
  shows "l < settle_level steps bn lv i"
proof -
  let ?f = "\<lambda>dep. (case Option.bind (bn dep) (\<lambda>d. lv ! d) of Some l \<Rightarrow> l | None \<Rightarrow> 0) + 1"
  obtain dep where dep: "dep \<in> set (st_plan_deps (steps ! i))" "bn dep = Some d" using assms(1) by (auto simp: dep_rel_def)
  have "?f dep \<in> set (map ?f (st_plan_deps (steps ! i)))" unfolding set_map by (rule imageI[OF dep(1)])
  then have "?f dep \<le> Max (set (map ?f (st_plan_deps (steps ! i))))" by (intro Max_ge finite_set)
  moreover have "?f dep = Suc l" using dep assms(2) by simp
  moreover have "settle_level steps bn lv i = Max (set (map ?f (st_plan_deps (steps ! i))))"
    using dep(1) unfolding settle_level_def Let_def by (metis list.set(1) empty_iff map_is_Nil_conv)
  ultimately show ?thesis by linarith
qed

lemma settle_level_attained:
  assumes "0 < settle_level steps bn lv i"
  shows "\<exists>dep \<in> set (st_plan_deps (steps ! i)). settle_level steps bn lv i = Suc (case Option.bind (bn dep) (\<lambda>d. lv ! d) of Some l \<Rightarrow> l | None \<Rightarrow> 0)"
proof -
  let ?f = "\<lambda>dep. (case Option.bind (bn dep) (\<lambda>d. lv ! d) of Some l \<Rightarrow> l | None \<Rightarrow> 0) + 1"
  let ?S = "set (map ?f (st_plan_deps (steps ! i)))"
  have ne: "st_plan_deps (steps ! i) \<noteq> []" using assms by (auto simp: settle_level_def)
  then have "Max ?S \<in> ?S" by (intro Max_in) auto
  moreover have "settle_level steps bn lv i = Max ?S" using ne by (simp add: settle_level_def Let_def)
  ultimately show ?thesis by auto
qed

lemma group_levels:
  assumes steps: "steps = ep_steps p"
  obtains levels lvl where "group_steps_by_level p = Some levels"
    and "\<forall>i < length steps. lvl i < length levels"
    and "\<forall>l < length levels. levels ! l = filter (\<lambda>i. lvl i = l) [0..<length steps]"
    and "acyclic (step_rel steps) \<Longrightarrow> \<forall>(i, d) \<in> step_rel steps. lvl d < lvl i"
    and "acyclic (step_rel steps) \<Longrightarrow> \<forall>i < length steps. 0 < lvl i \<longrightarrow>
      (\<exists>d. (i, d) \<in> step_rel steps \<and> lvl i = Suc (lvl d)) \<or>
      lvl i = 1 \<and> (\<exists>dep \<in> set (st_plan_deps (steps ! i)). steps_by_name steps dep = None)"
proof -
  let ?n = "length steps" and ?bn = "steps_by_name steps"
  have bn: "\<forall>dep d. ?bn dep = Some d \<longrightarrow> d < ?n" using steps_by_name_bound by blast
  have rel: "dep_rel steps ?bn ?n = step_rel steps" by (simp add: dep_rel_def step_rel_def)
  obtain lv where lv: "dfs_roots steps ?bn [0..<?n] (replicate ?n None) (replicate ?n False) = Some lv" "length lv = ?n"
    "\<forall>i < ?n. lv ! i \<noteq> None" "acyclic (step_rel steps) \<longrightarrow> settled_ok steps ?bn ?n lv"
    using dfs_roots_spec[OF bn, of "replicate ?n None" "replicate ?n False" "[0..<?n]" steps]
    by (auto simp: settled_ok_def rel atLeast0LessThan)
  define lvl where "lvl i = (case lv ! i of Some l \<Rightarrow> l | None \<Rightarrow> 0)" for i
  have some: "lv ! i = Some (lvl i)" if "i < ?n" for i using lv(3) that by (auto simp: lvl_def)
  have "bucket_at (bucket_levels lv) l = filter (\<lambda>i. lvl i = l) [0..<?n]" for l
    unfolding bucket_levels_def lvl_def lv(2) fold_place by (simp add: bucket_at_def)
  then have bucket: "\<forall>l < length (bucket_levels lv). bucket_levels lv ! l = filter (\<lambda>i. lvl i = l) [0..<?n]"
    by (metis bucket_at_def)
  have len: "\<forall>i < ?n. lvl i < length (bucket_levels lv)"
    using length_fold_place[of "[]" lvl "[0..<?n]"] unfolding bucket_levels_def lvl_def lv(2) by auto
  have below: "lvl d < lvl i" if "acyclic (step_rel steps)" "(i, d) \<in> step_rel steps" for i d
  proof -
    have "i < ?n" "d < ?n" using that(2) bn by (auto simp: step_rel_def)
    then show ?thesis using that lv(4) some[of i] some[of d] settle_level_gt[of i d steps ?bn ?n lv] by (auto simp: settled_ok_def rel)
  qed
  have tight: "(\<exists>d. (i, d) \<in> step_rel steps \<and> lvl i = Suc (lvl d)) \<or>
      lvl i = 1 \<and> (\<exists>dep \<in> set (st_plan_deps (steps ! i)). ?bn dep = None)"
    if "acyclic (step_rel steps)" "i < ?n" "0 < lvl i" for i
  proof -
    have "lvl i = settle_level steps ?bn lv i" using that lv(4) some[of i] by (auto simp: settled_ok_def)
    with settle_level_attained[of steps ?bn lv i] that(3) obtain dep where dep: "dep \<in> set (st_plan_deps (steps ! i))"
      "lvl i = Suc (case Option.bind (?bn dep) (\<lambda>d. lv ! d) of Some l \<Rightarrow> l | None \<Rightarrow> 0)" by auto
    show ?thesis
    proof (cases "?bn dep")
      case (Some d)
      then have "(i, d) \<in> step_rel steps" "lvl i = Suc (lvl d)" using dep that(2) by (auto simp: step_rel_def lvl_def)
      then show ?thesis by blast
    qed (use dep in auto)
  qed
  have grp: "group_steps_by_level p = Some (bucket_levels lv)" using lv(1) steps by (simp add: group_steps_by_level_def Let_def)
  show ?thesis by (rule that[OF grp len bucket]) (use below tight in blast)+
qed

text \<open>
  C7: grouping the steps of a plan by level always returns, never panics and loses no step: there is a
  level for every step such that the buckets are exactly the steps of that level, in plan order. When
  the dependencies have no cycle, every step is at a strictly higher level than each step it waits for,
  and no higher than needed: a step above level 0 waits for a step of the level just below it (or sits at
  level 1 for a dependency no step of the plan provides).
\<close>

theorem group_levels_correct:
  fixes p
  defines "steps \<equiv> ep_steps p"
  shows "\<exists>levels lvl. group_steps_by_level p = Some levels \<and>
    (\<forall>i < length steps. lvl i < length levels) \<and>
    (\<forall>l < length levels. levels ! l = filter (\<lambda>i. lvl i = l) [0..<length steps]) \<and>
    (acyclic (step_rel steps) \<longrightarrow>
      (\<forall>(i, d) \<in> step_rel steps. lvl d < lvl i) \<and>
      (\<forall>i < length steps. 0 < lvl i \<longrightarrow> (\<exists>d. (i, d) \<in> step_rel steps \<and> lvl i = Suc (lvl d)) \<or>
        lvl i = 1 \<and> (\<exists>dep \<in> set (st_plan_deps (steps ! i)). steps_by_name steps dep = None)))"
proof -
  obtain levels lvl where
    "group_steps_by_level p = Some levels" "\<forall>i < length steps. lvl i < length levels"
    "\<forall>l < length levels. levels ! l = filter (\<lambda>i. lvl i = l) [0..<length steps]"
    "acyclic (step_rel steps) \<Longrightarrow> \<forall>(i, d) \<in> step_rel steps. lvl d < lvl i"
    "acyclic (step_rel steps) \<Longrightarrow> \<forall>i < length steps. 0 < lvl i \<longrightarrow>
      (\<exists>d. (i, d) \<in> step_rel steps \<and> lvl i = Suc (lvl d)) \<or>
      lvl i = 1 \<and> (\<exists>dep \<in> set (st_plan_deps (steps ! i)). steps_by_name steps dep = None)"
    using group_levels[of steps p] unfolding steps_def by blast
  then show ?thesis by blast
qed

definition diamond_plan :: execution_plan where
  "diamond_plan =
     \<lparr>ep_steps = [plain_step ''report'' [''left'', ''right''] [], plain_step ''left'' [''raw''] [],
                  plain_step ''right'' [''left''] [], plain_step ''raw'' [] []], ep_action = None\<rparr>"

theorem group_levels_correct_witness:
  "\<exists>lvl. group_steps_by_level diamond_plan = Some [[3], [1], [2], [0]] \<and> lvl (2 :: nat) < (lvl 0 :: nat) \<and> lvl 1 < lvl 2 \<and> lvl 3 < lvl 1"
proof -
  let ?s = "ep_steps diamond_plan"
  have rel: "step_rel ?s = {(0, 1), (0, 2), (1, 3), (2, 1)}"
  proof -
    have "length ?s = 4" by code_simp
    then have "step_rel ?s = {(i, d). i \<in> set [0..<4] \<and> d \<in> set (List.map_filter (steps_by_name ?s) (st_plan_deps (?s ! i)))}"
      by (auto simp: step_rel_def in_map_filter)
    also have "\<dots> = set (concat (map (\<lambda>i. map (Pair i) (List.map_filter (steps_by_name ?s) (st_plan_deps (?s ! i)))) [0..<4]))" by auto
    also have "\<dots> = {(0, 1), (0, 2), (1, 3), (2, 1)}" by code_simp
    finally show ?thesis .
  qed
  have acyc: "acyclic {(0, 1), (0, 2), (1, 3), (2, 1 :: nat)}"
    by (rule acyclicI_order[of _ "\<lambda>i. [3, 1, 2, 0 :: nat] ! i"]) auto
  have "group_steps_by_level diamond_plan = Some [[3], [1], [2], [0]]" by code_simp
  moreover have "\<exists>lvl. \<forall>(i, d) \<in> step_rel ?s. lvl d < (lvl i :: nat)"
    using group_levels_correct[of diamond_plan] acyc unfolding rel by meson
  ultimately show ?thesis unfolding rel by auto
qed

end
