(* ===== verification/Plan_Builders.thy ===== *)
theory Plan_Builders
  imports Plan_Levels
begin

text \<open>
  What the plan builders of \<open>rivers-core/src/execution/plan.rs\<close> guarantee: an action plan runs every
  target once and orders related targets, also through the parallel levels; a plan from a selection has
  every selected asset in exactly one step and waits for exactly the steps its members depend on.
\<close>

section \<open>Actions\<close>

text \<open>\<open>a\<close> is upstream of \<open>b\<close>: \<open>b\<close> depends on it, directly or not.\<close>

definition upstream_name :: "asset_graph \<Rightarrow> string \<Rightarrow> string \<Rightarrow> bool" where
  "upstream_name g a b \<longleftrightarrow> (\<exists>i j. (i, j) \<in> (set (g_edges g))\<^sup>+ \<and> node_name g i = b \<and> node_name g j = a)"

definition runs_before :: "asset_graph \<Rightarrow> action_ordering \<Rightarrow> string \<Rightarrow> string \<Rightarrow> bool" where
  "runs_before g how a b =
     (case how of Unordered \<Rightarrow> False | UpstreamFirst \<Rightarrow> upstream_name g a b | DownstreamFirst \<Rightarrow> upstream_name g b a)"

lemma edge_ends: "graph_ok g \<Longrightarrow> (i, j) \<in> (set (g_edges g))\<^sup>+ \<Longrightarrow> i < node_count g \<and> j < node_count g"
  using trancl_subset_Sigma[of "set (g_edges g)" "{..<node_count g}"] by (auto simp: graph_ok_def)

lemma find_node_none: "find_node_by_name g n = None \<longleftrightarrow> (\<forall>i < node_count g. node_name g i \<noteq> n)"
  by (auto simp: find_node_by_name_def find_None_iff)

lemma closures_named:
  assumes "petgraph_ok P" and "graph_ok g"
  shows "ancestors P g n = Some {a. upstream_name g a n}" and "descendants P g n = Some {a. upstream_name g n a}"
proof -
  show "ancestors P g n = Some {a. upstream_name g a n}"
  proof (cases "\<exists>i < node_count g. node_name g i = n")
    case True
    then obtain i where i: "i < node_count g" "n = node_name g i" by blast
    have "{node_name g j | j. (i, j) \<in> (set (g_edges g))\<^sup>+} = {a. upstream_name g a n}"
      using i edge_ends[OF assms(2)] inj_node_name[OF assms(2)] unfolding upstream_name_def inj_on_def by blast
    then show ?thesis using lineage_facts(1)[OF assms i(1)] i(2) by simp
  next
    case False
    then show ?thesis using edge_ends[OF assms(2)] find_node_none[of g n]
      by (auto simp: ancestors_def traverse_def upstream_name_def split: option.splits)
  qed
  show "descendants P g n = Some {a. upstream_name g n a}"
  proof (cases "\<exists>i < node_count g. node_name g i = n")
    case True
    then obtain i where i: "i < node_count g" "n = node_name g i" by blast
    have "{node_name g j | j. (j, i) \<in> (set (g_edges g))\<^sup>+} = {a. upstream_name g n a}"
      using i edge_ends[OF assms(2)] inj_node_name[OF assms(2)] unfolding upstream_name_def inj_on_def by blast
    then show ?thesis using lineage_facts(2)[OF assms i(1)] i(2) by simp
  next
    case False
    then show ?thesis using edge_ends[OF assms(2)] find_node_none[of g n]
      by (auto simp: descendants_def traverse_def upstream_name_def split: option.splits)
  qed
qed

lemma action_steps_exact:
  assumes "petgraph_ok P" and "graph_ok g"
  shows "action_steps P g all how ts = Some (map (\<lambda>t. plain_step t (filter (\<lambda>u. runs_before g how u t) all) []) ts)"
  by (induction ts) (auto simp: action_deps_def related_targets_def runs_before_def closures_named[OF assms] split: action_ordering.splits)

lemma steps_by_name_plain:
  assumes "distinct (map st_name steps)" and "\<forall>s \<in> set steps. st_outputs s = []"
  shows "steps_by_name steps n = Some i \<longleftrightarrow> i < length steps \<and> st_name (steps ! i) = n"
proof -
  have "steps_by_name steps = fold (\<lambda>i m. m(st_name (steps ! i) \<mapsto> i)) [0..<length steps] Map.empty"
    unfolding steps_by_name_def by (rule fold_cong) (use assms(2) in auto)
  then show ?thesis using fold_index_inj[of "\<lambda>i. st_name (steps ! i)" "length steps"] assms(1)
    by (auto simp: inj_on_def distinct_conv_nth)
qed

lemma acyclic_names:
  assumes "graph_ok g" and "acyclic (set (g_edges g))"
  shows "acyclic {(b, a). upstream_name g a b}"
proof -
  have "{(b, a). upstream_name g a b} = map_prod (node_name g) (node_name g) ` (set (g_edges g))\<^sup>+"
    by (force simp: upstream_name_def)
  moreover have "(set (g_edges g))\<^sup>+ \<subseteq> {..<node_count g} \<times> {..<node_count g}"
    using edge_ends[OF assms(1)] by auto
  ultimately show ?thesis using acyclic_image[OF inj_node_name[OF assms(1)]] assms(2) by (auto simp: acyclic_def)
qed

lemma acyclic_before:
  assumes "graph_ok g" and "acyclic (set (g_edges g))"
  shows "acyclic {(b, a). runs_before g how a b}"
proof (cases how)
  case DownstreamFirst
  have "{(b, a). upstream_name g b a} = {(b, a). upstream_name g a b}\<inverse>" by auto
  then show ?thesis using DownstreamFirst acyclic_names[OF assms] by (simp add: runs_before_def)
qed (use acyclic_names[OF assms] in \<open>auto simp: runs_before_def acyclic_def\<close>)

lemma action_plan_rel:
  fixes B :: "string \<Rightarrow> string \<Rightarrow> bool"
  assumes "distinct ts"
  defines "steps \<equiv> map (\<lambda>t. plain_step t (filter (\<lambda>u. B u t) ts) []) ts"
  shows "step_rel steps = {(i, d). i < length ts \<and> d < length ts \<and> B (ts ! d) (ts ! i)}"
    and "\<forall>i < length ts. \<forall>dep \<in> set (st_plan_deps (steps ! i)). steps_by_name steps dep \<noteq> None"
proof -
  have by_nm: "steps_by_name steps n = Some i \<longleftrightarrow> i < length ts \<and> ts ! i = n" for n i
    using steps_by_name_plain[of steps n i] assms(1) by (auto simp: steps_def plain_step_def comp_def)
  then show "step_rel steps = {(i, d). i < length ts \<and> d < length ts \<and> B (ts ! d) (ts ! i)}"
    by (auto simp: step_rel_def) (auto simp: steps_def plain_step_def)
  show "\<forall>i < length ts. \<forall>dep \<in> set (st_plan_deps (steps ! i)). steps_by_name steps dep \<noteq> None"
    using by_nm by (auto simp: steps_def plain_step_def in_set_conv_nth)
qed

lemma filter_nth: "(\<And>i. i < length ts \<Longrightarrow> P i = Q (ts ! i)) \<Longrightarrow> map ((!) ts) (filter P [0..<length ts]) = filter Q ts"
proof -
  assume *: "\<And>i. i < length ts \<Longrightarrow> P i = Q (ts ! i)"
  have "filter P [0..<length ts] = filter (Q \<circ> (!) ts) [0..<length ts]" by (rule filter_cong) (auto simp: *)
  then show ?thesis by (metis filter_map map_nth)
qed

lemma acyclic_indices:
  assumes "acyclic {(b, a). B a b}"
  shows "acyclic {(i, d). i < n \<and> d < n \<and> B (f d) (f i)}"
proof -
  have "(f i, f d) \<in> {(b, a). B a b}\<^sup>+" if "(i, d) \<in> {(i, d). i < n \<and> d < n \<and> B (f d) (f i)}\<^sup>+" for i d
    using that by (induction rule: trancl_induct) (auto intro: trancl_into_trancl)
  then show ?thesis using assms unfolding acyclic_def by blast
qed

text \<open>
  C9: on a resolved graph, planning an action always gives a plan that carries the verb and has one step per
  distinct target, in order of first occurrence. Grouping it into parallel levels puts every target into one
  level, so that of two targets the graph relates, at any distance, the one the ordering asks for runs at a
  strictly earlier level, and a target no other target has to precede runs at once.
\<close>

theorem action_order_respected:
  assumes "petgraph_ok P" and "graph_ok g" and "acyclic (set (g_edges g))"
  shows "\<exists>p levels lvl. for_action P g action targets how = Some p \<and> ep_action p = Some action \<and>
    map st_name (ep_steps p) = dedup targets \<and> group_steps_by_level p = Some levels \<and>
    (\<forall>l < length levels. map (\<lambda>i. st_name (ep_steps p ! i)) (levels ! l) = filter (\<lambda>t. lvl t = l) (dedup targets)) \<and>
    (\<forall>t \<in> set targets. lvl t < length levels) \<and>
    (\<forall>a \<in> set targets. \<forall>b \<in> set targets. runs_before g how a b \<longrightarrow> lvl a < lvl b) \<and>
    (\<forall>b \<in> set targets. (\<forall>a \<in> set targets. \<not> runs_before g how a b) \<longrightarrow> lvl b = 0)"
proof -
  define ts where "ts = dedup targets"
  have ts: "distinct ts" "set ts = set targets" by (auto simp: ts_def distinct_dedup_from set_dedup_from)
  define p where "p = \<lparr>ep_steps = map (\<lambda>t. plain_step t (filter (\<lambda>u. runs_before g how u t) ts) []) ts, ep_action = Some action\<rparr>"
  have p: "for_action P g action targets how = Some p" "map st_name (ep_steps p) = ts" "length (ep_steps p) = length ts"
    using action_steps_exact[OF assms(1,2)] by (auto simp: for_action_def p_def ts_def[symmetric] Let_def plain_step_def comp_def)
  note rel = action_plan_rel[OF ts(1), of "runs_before g how"]
  have steps: "ep_steps p = map (\<lambda>t. plain_step t (filter (\<lambda>u. runs_before g how u t) ts) []) ts" by (simp add: p_def)
  have acyc: "acyclic (step_rel (ep_steps p))"
    unfolding steps rel(1) by (rule acyclic_indices[OF acyclic_before[OF assms(2,3)]])
  obtain levels lv where lv0: "group_steps_by_level p = Some levels" "\<forall>i < length (ep_steps p). lv i < length levels"
    "\<forall>l < length levels. levels ! l = filter (\<lambda>i. lv i = l) [0..<length (ep_steps p)]"
    "acyclic (step_rel (ep_steps p)) \<Longrightarrow> \<forall>(i, d) \<in> step_rel (ep_steps p). lv d < lv i"
    "acyclic (step_rel (ep_steps p)) \<Longrightarrow> \<forall>i < length (ep_steps p). 0 < lv i \<longrightarrow>
      (\<exists>d. (i, d) \<in> step_rel (ep_steps p) \<and> lv i = Suc (lv d)) \<or>
      lv i = 1 \<and> (\<exists>dep \<in> set (st_plan_deps (ep_steps p ! i)). steps_by_name (ep_steps p) dep = None)"
    using group_levels[of "ep_steps p" p] by blast
  note lv = lv0(1-3)[unfolded p(3)] lv0(4)[OF acyc, unfolded steps rel(1)] lv0(5)[OF acyc, unfolded p(3), unfolded steps rel(1)]
  define lvl where "lvl t = lv (the (steps_by_name (ep_steps p) t))" for t
  have lvl: "lvl (ts ! i) = lv i" if "i < length ts" for i
  proof -
    have "steps_by_name (ep_steps p) (ts ! i) = Some i"
      using steps_by_name_plain[of "ep_steps p" "ts ! i" i] ts(1) that by (auto simp: steps plain_step_def comp_def)
    then show ?thesis by (simp add: lvl_def)
  qed
  have "map (\<lambda>i. st_name (ep_steps p ! i)) (levels ! l) = filter (\<lambda>t. lvl t = l) ts" if "l < length levels" for l
  proof -
    have "map (\<lambda>i. st_name (ep_steps p ! i)) (levels ! l) = map ((!) ts) (filter (\<lambda>i. lv i = l) [0..<length ts])"
      using lv(3) that p(2) by (auto simp: steps plain_step_def)
    also have "\<dots> = filter (\<lambda>t. lvl t = l) ts" by (rule filter_nth) (simp add: lvl)
    finally show ?thesis .
  qed
  moreover have "\<forall>t \<in> set ts. lvl t < length levels" using lv(2) lvl by (auto simp: in_set_conv_nth)
  moreover have "\<forall>a \<in> set ts. \<forall>b \<in> set ts. runs_before g how a b \<longrightarrow> lvl a < lvl b"
    using lv(4) lvl by (auto simp: in_set_conv_nth)
  moreover have "lvl b = 0" if b: "b \<in> set ts" and free: "\<forall>a \<in> set ts. \<not> runs_before g how a b" for b
  proof (rule ccontr)
    assume "lvl b \<noteq> 0"
    moreover obtain i where i: "i < length ts" "b = ts ! i" using b by (auto simp: in_set_conv_nth)
    ultimately have "0 < lv i" using lvl[OF i(1)] by simp
    then obtain d where "d < length ts" "runs_before g how (ts ! d) (ts ! i)" using lv(5) rel(2) i(1) by blast
    then show False using free i(2) nth_mem by blast
  qed
  ultimately show ?thesis using p lv(1) unfolding ts(2) ts_def[symmetric]
    by (intro exI[of _ p] exI[of _ levels] exI[of _ lvl]) (simp add: p_def)
qed

theorem action_order_respected_witness:
  "\<exists>p levels lvl. for_action reference_petgraph sample_graph ''delete'' [''raw'', ''report''] DownstreamFirst = Some p \<and>
     group_steps_by_level p = Some levels \<and> lvl ''report'' < (lvl ''raw'' :: nat) \<and> lvl ''raw'' < length levels"
proof -
  have g: "graph_ok sample_graph"
    by (auto simp: graph_ok_def sample_graph_def node_names_of_def node_count_def new_node_def)
  have edges: "set (g_edges sample_graph) = {(1, 0), (2, 1)}" by (simp add: sample_graph_def)
  have acyc: "acyclic (set (g_edges sample_graph))" unfolding edges by (rule acyclicI_order[of _ "\<lambda>i. i"]) auto
  have "(2, 0) \<in> (set (g_edges sample_graph))\<^sup>+" unfolding edges
    by (rule trancl_into_trancl2[of 2 1]) auto
  then have "upstream_name sample_graph ''raw'' ''report''"
    by (force simp: upstream_name_def sample_graph_def node_name_def new_node_def)
  then have "runs_before sample_graph DownstreamFirst ''report'' ''raw''" by (simp add: runs_before_def)
  then show ?thesis
    using action_order_respected[OF reference_petgraph_ok g acyc, of "''delete''" "[''raw'', ''report'']" DownstreamFirst]
    by (elim exE conjE) (intro exI conjI, assumption+, auto)
qed

section \<open>Selections\<close>

text \<open>
  What a step built from a selection satisfies, relative to the rewriting of outputs to steps so far:
  \<open>D\<close> gives the direct dependencies of an asset.
\<close>

definition own_ok :: "(string \<rightharpoonup> string) \<Rightarrow> (string \<rightharpoonup> nat) \<Rightarrow> nat \<Rightarrow> execution_step \<Rightarrow> bool" where
  "own_ok groups gs k t \<longleftrightarrow>
     (if st_outputs t = [] then groups (st_name t) = None
      else st_name t \<in> set (st_outputs t) \<and> (\<exists>grp. gs grp = Some k \<and> (\<forall>m \<in> set (st_outputs t). groups m = Some grp)))"

definition deps_ok :: "(string \<Rightarrow> string set) \<Rightarrow> string set \<Rightarrow> (string \<rightharpoonup> string) \<Rightarrow> execution_step \<Rightarrow> bool" where
  "deps_ok D sel o2s t \<longleftrightarrow>
     (\<forall>m \<in> set (event_names t). rewrite_dep o2s m = st_name t) \<and>
     set (st_plan_deps t) = rewrite_dep o2s ` (\<Union> (D ` set (event_names t)) \<inter> sel) - {st_name t} \<and>
     set (st_graph_deps t) = \<Union> (D ` set (event_names t)) - set (event_names t)"

definition plan_ok :: "(string \<Rightarrow> string set) \<Rightarrow> string set \<Rightarrow> (string \<rightharpoonup> string) \<Rightarrow> string list \<Rightarrow> subgraph_state \<Rightarrow> bool" where
  "plan_ok D sel groups ds s \<longleftrightarrow>
     mset (concat (map event_names (sg_steps s))) = mset ds \<and>
     (\<forall>k < length (sg_steps s). own_ok groups (sg_group_step s) k (sg_steps s ! k) \<and> deps_ok D sel (sg_output_to_step s) (sg_steps s ! k)) \<and>
     (\<forall>grp k. sg_group_step s grp = Some k \<longrightarrow>
        k < length (sg_steps s) \<and> (\<exists>m \<in> set (st_outputs (sg_steps s ! k)). groups m = Some grp)) \<and>
     dom (sg_output_to_step s) \<subseteq> set ds"

lemma set_add_deps: "set (add_deps ok new deps) = set deps \<union> {d \<in> set new. ok d}"
  unfolding add_deps_def by (induction new arbitrary: deps) auto

lemma own_name: "own_ok groups gs k t \<Longrightarrow> st_name t \<in> set (event_names t)"
  by (auto simp: own_ok_def event_names_def split: if_splits)

lemma deps_ok_frame:
  assumes "n \<notin> set (event_names t)" and "n \<notin> \<Union> (D ` set (event_names t)) \<inter> sel"
  shows "deps_ok D sel (o2s(n \<mapsto> x)) t \<longleftrightarrow> deps_ok D sel o2s t"
proof -
  have same: "rewrite_dep (o2s(n \<mapsto> x)) m = rewrite_dep o2s m" if "m \<noteq> n" for m using that by (simp add: rewrite_dep_def)
  have "rewrite_dep (o2s(n \<mapsto> x)) ` (\<Union> (D ` set (event_names t)) \<inter> sel) = rewrite_dep o2s ` (\<Union> (D ` set (event_names t)) \<inter> sel)"
    by (rule image_cong[OF refl same]) (use assms(2) in blast)
  moreover have "(\<forall>m \<in> set (event_names t). rewrite_dep (o2s(n \<mapsto> x)) m = st_name t) = (\<forall>m \<in> set (event_names t). rewrite_dep o2s m = st_name t)"
    using assms(1) same by metis
  ultimately show ?thesis unfolding deps_ok_def by simp
qed

lemma concat_owner:
  assumes "distinct (concat xss)" and "j < length xss" and "k < length xss" and "m \<in> set (xss ! j)" and "m \<in> set (xss ! k)"
  shows "j = k"
  using assms
proof (induction xss arbitrary: j k)
  case (Cons xs xss)
  have apart: "m' \<notin> set xs" if "m' \<in> set (xss ! i)" "i < length xss" for m' i
    using Cons.prems(1) that by (auto simp: disjoint_iff)
  show ?case using Cons.prems apart Cons.IH by (cases j; cases k) fastforce+
qed simp

lemma plan_ok_names:
  assumes "plan_ok D sel groups ds s"
  shows "k < length (sg_steps s) \<Longrightarrow> set (event_names (sg_steps s ! k)) \<subseteq> set ds"
    and "d \<in> set ds \<Longrightarrow> \<exists>k < length (sg_steps s). d \<in> set (event_names (sg_steps s ! k)) \<and>
      rewrite_dep (sg_output_to_step s) d = st_name (sg_steps s ! k) \<and> st_name (sg_steps s ! k) \<in> set (event_names (sg_steps s ! k))"
proof -
  have "mset (concat (map event_names (sg_steps s))) = mset ds" using assms by (simp add: plan_ok_def)
  then have all: "set (concat (map event_names (sg_steps s))) = set ds" by (metis set_mset_mset)
  then show "k < length (sg_steps s) \<Longrightarrow> set (event_names (sg_steps s ! k)) \<subseteq> set ds" by (metis UN_upper nth_mem set_concat set_map image_eqI list.set_map)
  assume "d \<in> set ds"
  then obtain t where "t \<in> set (sg_steps s)" "d \<in> set (event_names t)" using all by auto
  then obtain k where k: "k < length (sg_steps s)" "d \<in> set (event_names (sg_steps s ! k))" by (auto simp: in_set_conv_nth)
  then have ok: "own_ok groups (sg_group_step s) k (sg_steps s ! k)" "deps_ok D sel (sg_output_to_step s) (sg_steps s ! k)"
    using assms by (auto simp: plan_ok_def)
  have "rewrite_dep (sg_output_to_step s) d = st_name (sg_steps s ! k)" using ok(2) k(2) by (simp add: deps_ok_def)
  then show "\<exists>k < length (sg_steps s). d \<in> set (event_names (sg_steps s ! k)) \<and>
      rewrite_dep (sg_output_to_step s) d = st_name (sg_steps s ! k) \<and> st_name (sg_steps s ! k) \<in> set (event_names (sg_steps s ! k))"
    using k own_name[OF ok(1)] by blast
qed

lemma rewrite_new: "dom o2s \<subseteq> set ds \<Longrightarrow> n \<notin> set ds \<Longrightarrow> rewrite_dep o2s n = n"
  by (auto simp: rewrite_dep_def split: option.splits)

text \<open>The dependencies of a new asset rewrite to steps built before it.\<close>

lemma rewrite_old:
  assumes "plan_ok D sel groups ds s" and "D n \<inter> sel \<subseteq> set ds"
  shows "rewrite_dep (sg_output_to_step s) ` (D n \<inter> sel) \<subseteq> set ds"
proof
  fix y assume "y \<in> rewrite_dep (sg_output_to_step s) ` (D n \<inter> sel)"
  then obtain d where "d \<in> set ds" "y = rewrite_dep (sg_output_to_step s) d" using assms(2) by blast
  with plan_ok_names(2)[OF assms(1) this(1)] obtain k where "k < length (sg_steps s)" "y \<in> set (event_names (sg_steps s ! k))" by metis
  then show "y \<in> set ds" using plan_ok_names(1)[OF assms(1)] by blast
qed

lemma new_step_deps:
  assumes ok: "plan_ok D sel groups ds s" and n: "n \<notin> set ds" "n \<in> sel" "D n \<inter> sel \<subseteq> set ds"
    and deps: "set pd = rewrite_dep (sg_output_to_step s) ` (D n \<inter> sel)" "set nb = D n"
    and t: "event_names t = [n]" "st_name t = n" "st_plan_deps t = pd" "st_graph_deps t = nb"
  shows "deps_ok D sel (sg_output_to_step s) t" and "deps_ok D sel ((sg_output_to_step s)(n \<mapsto> n)) t"
proof -
  have dom: "dom (sg_output_to_step s) \<subseteq> set ds" using ok by (simp add: plan_ok_def)
  have not_self: "n \<notin> rewrite_dep (sg_output_to_step s) ` (D n \<inter> sel)" using rewrite_old[OF ok n(3)] n(1) by blast
  have "n \<notin> D n" using n by blast
  then show ok1: "deps_ok D sel (sg_output_to_step s) t"
    using rewrite_new[OF dom n(1)] not_self deps t by (auto simp: deps_ok_def)
  have upd: "rewrite_dep ((sg_output_to_step s)(n \<mapsto> n)) = rewrite_dep (sg_output_to_step s)"
    using rewrite_new[OF dom n(1)] by (auto simp: rewrite_dep_def fun_eq_iff)
  show "deps_ok D sel ((sg_output_to_step s)(n \<mapsto> n)) t" using ok1 unfolding deps_ok_def upd .
qed

text \<open>The steps of other assets are not affected by a new asset.\<close>

lemma old_step_frame:
  assumes ok: "plan_ok D sel groups ds s" and closed: "\<forall>m \<in> set ds. D m \<inter> sel \<subseteq> set ds" and n: "n \<notin> set ds"
    and k: "k < length (sg_steps s)"
  shows "deps_ok D sel ((sg_output_to_step s)(n \<mapsto> x)) (sg_steps s ! k)"
proof -
  have "set (event_names (sg_steps s ! k)) \<subseteq> set ds" by (rule plan_ok_names(1)[OF ok k])
  then have "n \<notin> set (event_names (sg_steps s ! k))" "n \<notin> \<Union> (D ` set (event_names (sg_steps s ! k))) \<inter> sel"
    using closed n by blast+
  then show ?thesis using ok k by (simp add: deps_ok_frame plan_ok_def)
qed

lemma own_new_group: "own_ok groups gs k t \<Longrightarrow> gs grp = None \<Longrightarrow> own_ok groups (gs(grp \<mapsto> l)) k t"
  unfolding own_ok_def by (metis fun_upd_apply option.distinct(1))

lemma plan_ok_snoc:
  assumes ok: "plan_ok D sel groups ds s" and t: "event_names t = [n]"
    and own: "\<And>k. k < length (sg_steps s) \<Longrightarrow> own_ok groups gs k (sg_steps s ! k)" "own_ok groups gs (length (sg_steps s)) t"
    and deps: "\<And>k. k < length (sg_steps s) \<Longrightarrow> deps_ok D sel o2s (sg_steps s ! k)" "deps_ok D sel o2s t"
    and gs: "\<And>grp k. gs grp = Some k \<Longrightarrow> sg_group_step s grp = Some k \<or> k = length (sg_steps s) \<and> (\<exists>m \<in> set (st_outputs t). groups m = Some grp)"
    and dom: "dom o2s \<subseteq> set (ds @ [n])"
  shows "plan_ok D sel groups (ds @ [n]) (s\<lparr>sg_output_to_step := o2s, sg_group_step := gs, sg_steps := sg_steps s @ [t]\<rparr>)"
  unfolding plan_ok_def
proof (intro conjI allI impI)
  let ?s = "s\<lparr>sg_output_to_step := o2s, sg_group_step := gs, sg_steps := sg_steps s @ [t]\<rparr>"
  show "mset (concat (map event_names (sg_steps ?s))) = mset (ds @ [n])" using ok t by (simp add: plan_ok_def)
  show "own_ok groups (sg_group_step ?s) k (sg_steps ?s ! k)" "deps_ok D sel (sg_output_to_step ?s) (sg_steps ?s ! k)"
    if "k < length (sg_steps ?s)" for k
    using own deps that by (cases "k = length (sg_steps s)"; simp add: nth_append)+
  fix grp k assume "sg_group_step ?s grp = Some k"
  then have "gs grp = Some k" by simp
  from gs[OF this] have "k < length (sg_steps s) \<and> (\<exists>m \<in> set (st_outputs (sg_steps s ! k)). groups m = Some grp) \<or>
      k = length (sg_steps s) \<and> (\<exists>m \<in> set (st_outputs t). groups m = Some grp)" using ok by (auto simp: plan_ok_def)
  then show "k < length (sg_steps ?s)" "\<exists>m \<in> set (st_outputs (sg_steps ?s ! k)). groups m = Some grp"
    by (auto simp: nth_append)
qed (use dom in simp)

lemma add_single:
  assumes ok: "plan_ok D sel groups ds s" and n: "n \<notin> set ds" "n \<in> sel" "D n \<inter> sel \<subseteq> set ds" and none: "groups n = None"
    and deps: "set pd = rewrite_dep (sg_output_to_step s) ` (D n \<inter> sel)" "set nb = D n"
  shows "plan_ok D sel groups (ds @ [n]) (s\<lparr>sg_steps := sg_steps s @ [plain_step n pd nb]\<rparr>)"
proof -
  have "deps_ok D sel (sg_output_to_step s) (plain_step n pd nb)"
    by (rule new_step_deps(1)[OF ok n deps]) (auto simp: plain_step_def event_names_def)
  moreover have "own_ok groups (sg_group_step s) (length (sg_steps s)) (plain_step n pd nb)"
    using none by (simp add: own_ok_def plain_step_def)
  ultimately have "plan_ok D sel groups (ds @ [n])
      (s\<lparr>sg_output_to_step := sg_output_to_step s, sg_group_step := sg_group_step s, sg_steps := sg_steps s @ [plain_step n pd nb]\<rparr>)"
    using ok by (intro plan_ok_snoc[OF ok]) (auto simp: plan_ok_def plain_step_def event_names_def)
  then show ?thesis by simp
qed

lemma add_first:
  assumes ok: "plan_ok D sel groups ds s" and closed: "\<forall>m \<in> set ds. D m \<inter> sel \<subseteq> set ds"
    and n: "n \<notin> set ds" "n \<in> sel" "D n \<inter> sel \<subseteq> set ds" and grp: "groups n = Some grp" "sg_group_step s grp = None"
    and deps: "set pd = rewrite_dep (sg_output_to_step s) ` (D n \<inter> sel)" "set nb = D n"
  shows "plan_ok D sel groups (ds @ [n])
    (s\<lparr>sg_output_to_step := (sg_output_to_step s)(n \<mapsto> n), sg_group_step := (sg_group_step s)(grp \<mapsto> length (sg_steps s)),
       sg_steps := sg_steps s @ [(plain_step n pd nb)\<lparr>st_outputs := [n]\<rparr>]\<rparr>)"
proof -
  let ?t = "(plain_step n pd nb)\<lparr>st_outputs := [n]\<rparr>"
  have "deps_ok D sel ((sg_output_to_step s)(n \<mapsto> n)) ?t"
    by (rule new_step_deps(2)[OF ok n deps]) (auto simp: plain_step_def event_names_def)
  moreover have "own_ok groups ((sg_group_step s)(grp \<mapsto> length (sg_steps s))) (length (sg_steps s)) ?t"
    using grp by (simp add: own_ok_def plain_step_def)
  moreover have "own_ok groups ((sg_group_step s)(grp \<mapsto> length (sg_steps s))) k (sg_steps s ! k)" if "k < length (sg_steps s)" for k
    using ok that grp(2) by (auto simp: plan_ok_def intro: own_new_group)
  moreover have "dom (sg_output_to_step s) \<subseteq> set ds" using ok by (simp add: plan_ok_def)
  ultimately show ?thesis using grp(1)
    by (intro plan_ok_snoc[OF ok] old_step_frame[OF ok closed n(1)])
       (auto simp: plain_step_def event_names_def split: if_splits)
qed

text \<open>Joining the step of the asset's group.\<close>

lemma join_group_simps [simp]:
  "st_name (join_group n pd nb t) = st_name t" "st_outputs (join_group n pd nb t) = st_outputs t @ [n]"
  "event_names (join_group n pd nb t) = st_outputs t @ [n]"
  "set (st_plan_deps (join_group n pd nb t)) = set (st_plan_deps t) \<union> {d \<in> set pd. d \<noteq> st_name t \<and> d \<notin> set (st_outputs t @ [n])}"
  "set (st_graph_deps (join_group n pd nb t)) = set (st_graph_deps t) \<union> {d \<in> set nb. d \<noteq> st_name t \<and> d \<notin> set (st_outputs t @ [n])}"
  by (auto simp: join_group_def Let_def set_add_deps event_names_def)

lemma join_deps:
  assumes ok: "deps_ok D sel o2s t" and outs: "st_outputs t \<noteq> []" "st_name t \<in> set (st_outputs t)"
    and n: "n \<notin> set (st_outputs t)" "n \<in> sel" "n \<notin> D n" "\<forall>m \<in> set (st_outputs t). n \<notin> D m"
    and deps: "set pd = rewrite_dep o2s ` (D n \<inter> sel)" "set nb = D n"
    and own: "\<forall>d \<in> D n \<inter> sel. rewrite_dep o2s d \<in> set (st_outputs t @ [n]) \<longrightarrow> rewrite_dep o2s d = st_name t"
  shows "deps_ok D sel (o2s(n \<mapsto> st_name t)) (join_group n pd nb t)"
proof -
  let ?t = "join_group n pd nb t" and ?r = "rewrite_dep (o2s(n \<mapsto> st_name t))"
  have ev: "event_names t = st_outputs t" using outs by (simp add: event_names_def)
  have same: "?r d = rewrite_dep o2s d" if "d \<noteq> n" for d using that by (simp add: rewrite_dep_def)
  have named: "\<forall>m \<in> set (event_names ?t). ?r m = st_name ?t"
    using ok same n(1) by (auto simp: deps_ok_def ev rewrite_dep_def)
  have "\<Union> (D ` set (event_names ?t)) \<inter> sel = (\<Union> (D ` set (st_outputs t)) \<inter> sel) \<union> (D n \<inter> sel)" by auto
  moreover have "?r ` (\<Union> (D ` set (st_outputs t)) \<inter> sel) = rewrite_dep o2s ` (\<Union> (D ` set (st_outputs t)) \<inter> sel)"
    by (rule image_cong[OF refl same]) (use n(4) in blast)
  moreover have "?r ` (D n \<inter> sel) = rewrite_dep o2s ` (D n \<inter> sel)"
    by (rule image_cong[OF refl same]) (use n(3) in blast)
  moreover have "{d \<in> set pd. d \<noteq> st_name t \<and> d \<notin> set (st_outputs t @ [n])} = set pd - {st_name t}"
    using own deps(1) by auto
  ultimately have plan: "set (st_plan_deps ?t) = ?r ` (\<Union> (D ` set (event_names ?t)) \<inter> sel) - {st_name ?t}"
    using ok deps(1) by (simp only: join_group_simps image_Un Un_Diff deps_ok_def ev)
  have "set (st_graph_deps ?t) = \<Union> (D ` set (event_names ?t)) - set (event_names ?t)"
    using ok n deps(2) outs(2) by (auto simp: deps_ok_def ev)
  then show ?thesis using named plan unfolding deps_ok_def by blast
qed

lemma mset_concat_snoc: "k < length xss \<Longrightarrow> mset (concat (xss[k := xss ! k @ [n]])) = add_mset n (mset (concat xss))"
  by (induction xss arbitrary: k) (auto split: nat.splits)

lemma plan_ok_replace:
  assumes ok: "plan_ok D sel groups ds s" and k: "k < length (sg_steps s)"
    and t: "event_names t = event_names (sg_steps s ! k) @ [n]" "set (st_outputs (sg_steps s ! k)) \<subseteq> set (st_outputs t)"
    and own: "own_ok groups (sg_group_step s) k t"
    and deps: "\<And>j. j < length (sg_steps s) \<Longrightarrow> deps_ok D sel o2s (sg_steps s ! j)" "deps_ok D sel o2s t"
    and dom: "dom o2s \<subseteq> set (ds @ [n])"
  shows "plan_ok D sel groups (ds @ [n]) (s\<lparr>sg_steps := (sg_steps s)[k := t], sg_output_to_step := o2s\<rparr>)"
  unfolding plan_ok_def
proof (intro conjI allI impI)
  let ?s = "s\<lparr>sg_steps := (sg_steps s)[k := t], sg_output_to_step := o2s\<rparr>"
  have "map event_names (sg_steps ?s) = (map event_names (sg_steps s))[k := map event_names (sg_steps s) ! k @ [n]]"
    using t(1) k by (simp add: map_update)
  then show "mset (concat (map event_names (sg_steps ?s))) = mset (ds @ [n])"
    using ok k mset_concat_snoc[of k "map event_names (sg_steps s)" n] by (simp add: plan_ok_def)
  show "own_ok groups (sg_group_step ?s) j (sg_steps ?s ! j)" "deps_ok D sel (sg_output_to_step ?s) (sg_steps ?s ! j)"
    if "j < length (sg_steps ?s)" for j
    using own deps ok that by (cases "j = k"; simp add: plan_ok_def)+
  fix grp j assume "sg_group_step ?s grp = Some j"
  then have "j < length (sg_steps s) \<and> (\<exists>m \<in> set (st_outputs (sg_steps s ! j)). groups m = Some grp)" using ok by (simp add: plan_ok_def)
  then show "j < length (sg_steps ?s)" "\<exists>m \<in> set (st_outputs (sg_steps ?s ! j)). groups m = Some grp"
    using t(2) k by (auto simp: nth_upd)
qed (use dom in simp)

lemma rewrite_owner:
  assumes ok: "plan_ok D sel groups ds s" and dist: "distinct ds" and d: "d \<in> set ds" and k: "k < length (sg_steps s)"
    and mem: "rewrite_dep (sg_output_to_step s) d \<in> set (event_names (sg_steps s ! k))"
  shows "rewrite_dep (sg_output_to_step s) d = st_name (sg_steps s ! k)"
proof -
  obtain j where j: "j < length (sg_steps s)" "rewrite_dep (sg_output_to_step s) d = st_name (sg_steps s ! j)"
    "st_name (sg_steps s ! j) \<in> set (event_names (sg_steps s ! j))" using plan_ok_names(2)[OF ok d] by blast
  have "distinct (concat (map event_names (sg_steps s)))"
    using ok dist unfolding plan_ok_def by (metis mset_eq_imp_distinct_iff)
  then have "j = k" using concat_owner[of "map event_names (sg_steps s)" j k "st_name (sg_steps s ! j)"] j k mem by simp
  then show ?thesis using j(2) by simp
qed

lemma add_join:
  assumes ok: "plan_ok D sel groups ds s" and dist: "distinct ds" and closed: "\<forall>m \<in> set ds. D m \<inter> sel \<subseteq> set ds"
    and n: "n \<notin> set ds" "n \<in> sel" "D n \<inter> sel \<subseteq> set ds" and grp: "groups n = Some grp" "sg_group_step s grp = Some k"
    and deps: "set pd = rewrite_dep (sg_output_to_step s) ` (D n \<inter> sel)" "set nb = D n"
  shows "plan_ok D sel groups (ds @ [n])
    (s\<lparr>sg_steps := (sg_steps s)[k := join_group n pd nb (sg_steps s ! k)],
       sg_output_to_step := (sg_output_to_step s)(n \<mapsto> st_name (sg_steps s ! k))\<rparr>)"
proof -
  define t where "t = sg_steps s ! k"
  have "k < length (sg_steps s) \<and> (\<exists>m \<in> set (st_outputs t). groups m = Some grp)"
    using ok grp(2) unfolding plan_ok_def t_def by blast
  then obtain m where k: "k < length (sg_steps s)" and m: "m \<in> set (st_outputs t)" "groups m = Some grp" by blast
  then have outs: "st_outputs t \<noteq> []" by auto
  have own: "own_ok groups (sg_group_step s) k t" and dok: "deps_ok D sel (sg_output_to_step s) t"
    using ok k by (simp_all add: plan_ok_def t_def)
  then have all: "\<forall>m \<in> set (st_outputs t). groups m = Some grp" and name: "st_name t \<in> set (st_outputs t)"
    using m by (auto simp: own_ok_def split: if_splits)
  have ev: "event_names t = st_outputs t" using outs by (simp add: event_names_def)
  have sub: "set (st_outputs t) \<subseteq> set ds" using plan_ok_names(1)[OF ok k] unfolding t_def[symmetric] ev .
  have "rewrite_dep (sg_output_to_step s) d = st_name t"
    if "d \<in> D n \<inter> sel" "rewrite_dep (sg_output_to_step s) d \<in> set (st_outputs t @ [n])" for d
  proof -
    have "rewrite_dep (sg_output_to_step s) d \<noteq> n" using rewrite_old[OF ok n(3)] that(1) n(1) by blast
    then show ?thesis using rewrite_owner[OF ok dist _ k, of d] that n(3) by (auto simp: ev t_def[symmetric])
  qed
  then have "deps_ok D sel ((sg_output_to_step s)(n \<mapsto> st_name t)) (join_group n pd nb t)"
    using n sub closed by (intro join_deps[OF dok outs name _ n(2) _ _ deps]) blast+
  moreover have "own_ok groups (sg_group_step s) k (join_group n pd nb t)"
    using all name grp by (simp add: own_ok_def)
  ultimately show ?thesis
    unfolding t_def[symmetric]
    by (intro plan_ok_replace[OF ok k] old_step_frame[OF ok closed n(1)])
       (use ok in \<open>auto simp: t_def[symmetric] ev plan_ok_def\<close>)
qed

section \<open>The plan of a selection\<close>

definition deps_of :: "asset_graph \<Rightarrow> string \<Rightarrow> string set" where
  "deps_of g m = {node_name g j | i j. (i, j) \<in> set (g_edges g) \<and> node_name g i = m}"

lemma dep_names_set:
  assumes "petgraph_ok P" and "graph_ok g" and "i < node_count g"
  shows "set (dep_names P g i) = deps_of g (node_name g i)"
proof -
  have "set (pg_neighbors P g Outgoing i) = set (g_edges g) `` {i}" using assms unfolding petgraph_ok_def by (auto simp: edge_rel_def)
  moreover have "i' = i" if "(i', j) \<in> set (g_edges g)" "node_name g i' = node_name g i" for i' j
    using that inj_node_name[OF assms(2)] assms(2,3) by (auto simp: graph_ok_def inj_on_def)
  ultimately show ?thesis by (auto simp: dep_names_def deps_of_def)
qed

lemma add_node_ok:
  assumes P: "petgraph_ok P" "graph_ok g" "i < node_count g" and iter: "\<And>S. finite S \<Longrightarrow> set (iter S) = S"
    and ok: "plan_ok (deps_of g) sel groups ds s" "distinct ds" "\<forall>m \<in> set ds. deps_of g m \<inter> sel \<subseteq> set ds"
    and n: "node_name g i \<notin> set ds" "deps_of g (node_name g i) \<inter> sel \<subseteq> set ds"
  shows "plan_ok (deps_of g) sel groups (if node_name g i \<in> sel then ds @ [node_name g i] else ds) (add_node P iter g sel groups i s)"
proof (cases "node_name g i \<in> sel")
  case True
  let ?n = "node_name g i" and ?nb = "dep_names P g i"
  let ?pd = "iter (rewrite_dep (sg_output_to_step s) ` {n \<in> set ?nb. n \<in> sel})"
  have nb: "set ?nb = deps_of g ?n" by (rule dep_names_set[OF P])
  have pd: "set ?pd = rewrite_dep (sg_output_to_step s) ` (deps_of g ?n \<inter> sel)"
    by (subst iter) (simp_all add: nb[symmetric] Int_def)
  show ?thesis
    using add_single[OF ok(1) n(1) True n(2) _ pd nb] add_first[OF ok(1,3) n(1) True n(2) _ _ pd nb]
      add_join[OF ok n(1) True n(2) _ _ pd nb] True
    by (simp add: add_node_def Let_def split: option.splits)
qed (use ok in \<open>simp add: add_node_def\<close>)

definition deps_first :: "asset_graph \<Rightarrow> nat list \<Rightarrow> bool" where
  "deps_first g order \<longleftrightarrow> distinct order \<and> set order \<subseteq> {..<node_count g} \<and>
     (\<forall>pre i post j. order = pre @ i # post \<longrightarrow> (i, j) \<in> set (g_edges g) \<longrightarrow> j \<in> set pre)"

lemma topo_deps_first: "topo_order g order \<Longrightarrow> deps_first g (rev order)"
proof -
  assume topo: "topo_order g order"
  have "j \<in> set pre" if "rev order = pre @ i # post" "(i, j) \<in> set (g_edges g)" for pre i post j
  proof -
    have "order = rev post @ i # rev pre" using that(1) by (metis append_assoc append_Cons append_Nil rev.simps(2) rev_append rev_rev_ident)
    then have "j \<in> set (rev pre)" using topo that(2) unfolding topo_order_def by blast
    then show ?thesis by simp
  qed
  then show ?thesis using topo by (auto simp: deps_first_def topo_order_def)
qed

lemma deps_first_snoc:
  assumes "deps_first g (order @ [i])"
  shows "deps_first g order" and "(i, j) \<in> set (g_edges g) \<Longrightarrow> j \<in> set order"
    and "k \<in> set order \<Longrightarrow> (k, j) \<in> set (g_edges g) \<Longrightarrow> j \<in> set order"
proof -
  have pre: "j \<in> set pre" if "order @ [i] = pre @ k # post" "(k, j) \<in> set (g_edges g)" for pre k post j
    using assms that unfolding deps_first_def by blast
  show "(i, j) \<in> set (g_edges g) \<Longrightarrow> j \<in> set order" using pre[of order i "[]"] by simp
  show "deps_first g order" unfolding deps_first_def
  proof (intro conjI allI impI)
    fix pre' k post j assume "order = pre' @ k # post" "(k, j) \<in> set (g_edges g)"
    then show "j \<in> set pre'" using pre[of pre' k "post @ [i]"] by simp
  qed (use assms in \<open>auto simp: deps_first_def\<close>)
  show "j \<in> set order" if "k \<in> set order" "(k, j) \<in> set (g_edges g)"
  proof -
    obtain pre' post where "order = pre' @ k # post" using \<open>k \<in> set order\<close> by (meson split_list)
    then show ?thesis using pre[of pre' k "post @ [i]" j] that(2) by auto
  qed
qed

lemma subgraph_fold:
  assumes P: "petgraph_ok P" "graph_ok g" and iter: "\<And>S. finite S \<Longrightarrow> set (iter S) = S" and "deps_first g order"
  shows "plan_ok (deps_of g) sel groups (filter (\<lambda>n. n \<in> sel) (map (node_name g) order))
    (fold (add_node P iter g sel groups) order \<lparr>sg_group_step = Map.empty, sg_output_to_step = Map.empty, sg_steps = []\<rparr>)"
  using assms(4)
proof (induction order rule: rev_induct)
  case (snoc i order)
  let ?ds = "filter (\<lambda>n. n \<in> sel) (map (node_name g) order)"
  note first = deps_first_snoc[OF snoc.prems]
  have i: "i < node_count g" "i \<notin> set order" and ord: "set order \<subseteq> {..<node_count g}" "distinct order"
    using snoc.prems by (auto simp: deps_first_def)
  have inj: "inj_on (node_name g) {..<node_count g}" by (rule inj_node_name[OF P(2)])
  have dist: "distinct ?ds" using inj_on_subset[OF inj ord(1)] ord(2) by (intro distinct_filter) (simp add: distinct_map)
  have new: "node_name g i \<notin> set ?ds" using inj i ord by (auto simp: inj_on_def)
  have ends: "k < node_count g" if "(k, j) \<in> set (g_edges g)" for k j using that P(2) by (auto simp: graph_ok_def)
  have same: "k' = k" if "node_name g k' = node_name g k" "k' < node_count g" "k < node_count g" for k k'
    using inj that by (auto simp: inj_on_def)
  have closed: "\<forall>m \<in> set ?ds. deps_of g m \<inter> sel \<subseteq> set ?ds"
  proof (intro ballI subsetI)
    fix m d assume "m \<in> set ?ds" and d: "d \<in> deps_of g m \<inter> sel"
    then obtain k where k: "k \<in> set order" "m = node_name g k" by auto
    then obtain j where "(k, j) \<in> set (g_edges g)" "d = node_name g j" using d ends same ord(1) by (fastforce simp: deps_of_def)
    then show "d \<in> set ?ds" using first(3)[OF k(1)] d by auto
  qed
  have "deps_of g (node_name g i) \<inter> sel \<subseteq> set ?ds"
  proof
    fix d assume d: "d \<in> deps_of g (node_name g i) \<inter> sel"
    then obtain j where "(i, j) \<in> set (g_edges g)" "d = node_name g j" using ends same i(1) by (fastforce simp: deps_of_def)
    then show "d \<in> set ?ds" using first(2) d by auto
  qed
  from add_node_ok[OF P i(1) iter snoc.IH[OF first(1)] dist closed new this] show ?case by (simp split: if_splits)
qed (simp add: plan_ok_def)

lemma plan_ok_owner:
  assumes ok: "plan_ok D sel groups ds s" and dist: "distinct ds" and "t \<in> set (sg_steps s)" and "u \<in> set (sg_steps s)"
    and "m \<in> set (event_names t)" and "m \<in> set (event_names u)"
  shows "t = u"
proof -
  have "distinct (concat (map event_names (sg_steps s)))" using ok dist unfolding plan_ok_def by (metis mset_eq_imp_distinct_iff)
  moreover obtain j k where "j < length (sg_steps s)" "t = sg_steps s ! j" "k < length (sg_steps s)" "u = sg_steps s ! k"
    using assms(3,4) by (metis in_set_conv_nth)
  ultimately show ?thesis using concat_owner[of "map event_names (sg_steps s)" j k m] assms(5,6) by simp
qed

lemma plan_ok_step:
  assumes "plan_ok D sel groups ds s" and "t \<in> set (sg_steps s)"
  shows "\<exists>k. own_ok groups (sg_group_step s) k t" and "deps_ok D sel (sg_output_to_step s) t" and "set (event_names t) \<subseteq> set ds"
    and "st_name t \<in> set (event_names t)"
proof -
  obtain k where k: "k < length (sg_steps s)" "t = sg_steps s ! k" using assms(2) by (metis in_set_conv_nth)
  then show own: "\<exists>k. own_ok groups (sg_group_step s) k t" and "deps_ok D sel (sg_output_to_step s) t"
    using assms(1) by (auto simp: plan_ok_def)
  show "set (event_names t) \<subseteq> set ds" using plan_ok_names(1)[OF assms(1) k(1)] k(2) by simp
  show "st_name t \<in> set (event_names t)" using own own_name by blast
qed

text \<open>The steps a step waits for.\<close>

definition waits_for :: "asset_graph \<Rightarrow> execution_step list \<Rightarrow> execution_step \<Rightarrow> string set" where
  "waits_for g steps t = {st_name u | u. u \<in> set steps \<and> u \<noteq> t \<and>
     (\<exists>m \<in> set (event_names t). \<exists>d \<in> set (event_names u). d \<in> deps_of g m)}"

lemma plan_ok_deps:
  assumes ok: "plan_ok (deps_of g) sel groups ds s" and dist: "distinct ds" and t: "t \<in> set (sg_steps s)"
    and closed: "\<forall>m \<in> set ds. deps_of g m \<inter> sel \<subseteq> set ds" and sub: "set ds \<subseteq> sel"
  shows "set (st_plan_deps t) = waits_for g (sg_steps s) t"
proof (intro set_eqI iffI)
  let ?r = "rewrite_dep (sg_output_to_step s)"
  have plan: "set (st_plan_deps t) = ?r ` (\<Union> (deps_of g ` set (event_names t)) \<inter> sel) - {st_name t}"
    using plan_ok_step(2)[OF ok t] by (simp add: deps_ok_def)
  {
    fix x assume "x \<in> set (st_plan_deps t)"
    then obtain m d where d: "m \<in> set (event_names t)" "d \<in> deps_of g m" "d \<in> sel" "x = ?r d" "x \<noteq> st_name t" unfolding plan by blast
    have "d \<in> set ds" using plan_ok_step(3)[OF ok t] closed d by blast
    from plan_ok_names(2)[OF ok this] obtain j where j: "j < length (sg_steps s)" "d \<in> set (event_names (sg_steps s ! j))"
      "?r d = st_name (sg_steps s ! j)" by blast
    then show "x \<in> waits_for g (sg_steps s) t" unfolding waits_for_def using d nth_mem[OF j(1)] by blast
  next
    fix x assume "x \<in> waits_for g (sg_steps s) t"
    then obtain u m d where u: "u \<in> set (sg_steps s)" "u \<noteq> t" "m \<in> set (event_names t)" "d \<in> set (event_names u)"
      "d \<in> deps_of g m" "x = st_name u" unfolding waits_for_def by blast
    have "x \<noteq> st_name t" using plan_ok_owner[OF ok dist u(1) t] plan_ok_step(4)[OF ok] u t by metis
    moreover have "?r d = x" using plan_ok_step(2)[OF ok u(1)] u by (simp add: deps_ok_def)
    moreover have "d \<in> sel" using plan_ok_step(3)[OF ok u(1)] u(4) sub by blast
    ultimately show "x \<in> set (st_plan_deps t)" unfolding plan using u(3,5) by (auto simp: image_iff)
  }
qed

lemma plan_ok_groups:
  assumes ok: "plan_ok D sel groups ds s" and dist: "distinct ds" and t: "t \<in> set (sg_steps s)"
    and m: "m \<in> set (event_names t)" and n: "n \<in> set ds"
  shows "n \<in> set (event_names t) \<longleftrightarrow> n = m \<or> (groups m \<noteq> None \<and> groups n = groups m)"
proof -
  obtain k where k: "k < length (sg_steps s)" "t = sg_steps s ! k" using t by (metis in_set_conv_nth)
  obtain j where j: "j < length (sg_steps s)" "n \<in> set (event_names (sg_steps s ! j))" using plan_ok_names(2)[OF ok n] by blast
  have kind: "(st_outputs (sg_steps s ! i) = [] \<and> x = st_name (sg_steps s ! i) \<and> groups x = None) \<or>
      (\<exists>grp. sg_group_step s grp = Some i \<and> groups x = Some grp)"
    if "i < length (sg_steps s)" "x \<in> set (event_names (sg_steps s ! i))" for i x
  proof -
    have "own_ok groups (sg_group_step s) i (sg_steps s ! i)" using ok that(1) by (simp add: plan_ok_def)
    then show ?thesis using that(2) by (auto simp: own_ok_def event_names_def split: if_splits)
  qed
  have "j = k" if "groups m \<noteq> None" "groups n = groups m" using kind[OF k(1), of m] kind[OF j] m k(2) that by auto
  moreover have "n = m \<or> (groups m \<noteq> None \<and> groups n = groups m)" if "n \<in> set (event_names t)"
    using plan_ok_step(1)[OF ok t] m that by (auto simp: own_ok_def event_names_def split: if_splits)
  ultimately show ?thesis using j(2) k(2) m by blast
qed

lemma subgraph_steps_spec:
  fixes sel :: "string set" and groups :: "string \<rightharpoonup> string"
  assumes P: "petgraph_ok P" "graph_ok g" and iter: "\<And>S. finite S \<Longrightarrow> set (iter S) = S" and topo: "topo_order g order"
  defines "steps \<equiv> sg_steps (subgraph_steps P iter g sel groups order)"
  shows "mset (concat (map event_names steps)) = mset (filter (\<lambda>n. n \<in> sel) (node_names_of g))"
    and "\<forall>t \<in> set steps. set (st_plan_deps t) = waits_for g steps t"
    and "\<forall>t \<in> set steps. set (st_graph_deps t) = \<Union> (deps_of g ` set (event_names t)) - set (event_names t)"
    and "\<forall>t \<in> set steps. \<forall>m \<in> set (event_names t). \<forall>n \<in> set (node_names_of g) \<inter> sel.
      n \<in> set (event_names t) \<longleftrightarrow> n = m \<or> (groups m \<noteq> None \<and> groups n = groups m)"
proof -
  define ds where "ds = filter (\<lambda>n. n \<in> sel) (map (node_name g) (rev order))"
  have names: "node_names_of g = map (node_name g) [0..<node_count g]"
    by (auto simp: node_names_of_def node_name_def node_count_def intro: nth_equalityI)
  have "mset order = mset [0..<node_count g]"
    using topo by (intro set_eq_iff_mset_eq_distinct[THEN iffD1]) (auto simp: topo_order_def)
  then have ds: "mset ds = mset (filter (\<lambda>n. n \<in> sel) (node_names_of g))"
    unfolding ds_def names by (simp add: mset_filter)
  then have dist: "distinct ds" using P(2) unfolding graph_ok_def by (metis distinct_filter mset_eq_imp_distinct_iff)
  have set: "set ds = set (node_names_of g) \<inter> sel" using mset_eq_setD[OF ds] by auto
  have "deps_of g m \<subseteq> set (node_names_of g)" for m using P(2) unfolding names by (auto simp: deps_of_def graph_ok_def)
  then have closed: "\<forall>m \<in> set ds. deps_of g m \<inter> sel \<subseteq> set ds" using set by blast
  have ok: "plan_ok (deps_of g) sel groups ds (subgraph_steps P iter g sel groups order)"
    unfolding subgraph_steps_def ds_def by (rule subgraph_fold[OF P iter topo_deps_first[OF topo]])
  show "mset (concat (map event_names steps)) = mset (filter (\<lambda>n. n \<in> sel) (node_names_of g))"
    using ok ds by (simp add: plan_ok_def steps_def)
  show "\<forall>t \<in> set steps. set (st_plan_deps t) = waits_for g steps t"
    using plan_ok_deps[OF ok dist _ closed] set unfolding steps_def by blast
  show "\<forall>t \<in> set steps. set (st_graph_deps t) = \<Union> (deps_of g ` set (event_names t)) - set (event_names t)"
    using plan_ok_step(2)[OF ok] unfolding steps_def by (auto simp: deps_ok_def)
  show "\<forall>t \<in> set steps. \<forall>m \<in> set (event_names t). \<forall>n \<in> set (node_names_of g) \<inter> sel.
      n \<in> set (event_names t) \<longleftrightarrow> n = m \<or> (groups m \<noteq> None \<and> groups n = groups m)"
    using plan_ok_groups[OF ok dist] set unfolding steps_def by blast
qed

text \<open>
  C8: the plan of a selection on a resolved graph. Every selected asset of the graph is produced by exactly one
  step, and two assets share a step exactly when they have the same group. A step waits for exactly the other
  steps that produce a direct dependency of one of its assets, and records as provenance exactly the direct
  dependencies of its assets that it does not produce itself. Only the sort by composition order can panic, and
  then nothing is planned; whatever permutation it produces, the plan has these properties.
\<close>

theorem subgraph_plan_exact:
  assumes "petgraph_ok P" and "graph_ok g" and "acyclic (set (g_edges g))"
    and "\<And>S. finite S \<Longrightarrow> set (iter S) = S" and "\<And>c xs ys. sort_by c xs = Some ys \<Longrightarrow> mset ys = mset xs"
  shows "case from_subgraph P iter sort_by g sel groups corder of
      None \<Rightarrow> corder \<noteq> []
    | Some p \<Rightarrow>
        mset (all_asset_names p) = mset (filter (\<lambda>n. n \<in> sel) (node_names_of g)) \<and>
        (\<forall>t \<in> set (ep_steps p).
           set (st_plan_deps t) = waits_for g (ep_steps p) t \<and>
           set (st_graph_deps t) = \<Union> (deps_of g ` set (event_names t)) - set (event_names t) \<and>
           (\<forall>m \<in> set (event_names t). \<forall>n \<in> set (node_names_of g) \<inter> sel.
              n \<in> set (event_names t) \<longleftrightarrow> n = m \<or> (groups m \<noteq> None \<and> groups n = groups m)))"
proof -
  obtain order where order: "pg_toposort P g = Some order" "topo_order g order"
    using assms(1-3) unfolding petgraph_ok_def by (auto split: option.splits)
  define steps where "steps = sg_steps (subgraph_steps P iter g sel groups order)"
  note spec = subgraph_steps_spec[OF assms(1,2,4) order(2), of sel groups, folded steps_def]
  have plan: "from_subgraph P iter sort_by g sel groups corder = map_option (\<lambda>ss. \<lparr>ep_steps = ss, ep_action = None\<rparr>)
      (if corder = [] then Some steps else sort_by (cmp_steps (step_levels steps) (map_of corder)) steps)"
    by (simp add: from_subgraph_def order(1) Let_def steps_def)
  have perm: "mset ss = mset steps" if "(if corder = [] then Some steps else sort_by c steps) = Some ss" for ss c
    using that assms(5) by (auto split: if_splits)
  have "mset (concat (map event_names ss)) = mset (concat (map event_names steps)) \<and> set ss = set steps \<and> waits_for g ss = waits_for g steps"
    if "mset ss = mset steps" for ss
  proof -
    have "set ss = set steps" using that by (rule mset_eq_setD)
    moreover have "mset (concat (map event_names ss)) = mset (concat (map event_names steps))"
      using that unfolding mset_concat by (metis mset_map sum_mset_sum_list)
    ultimately show ?thesis by (auto simp: waits_for_def fun_eq_iff)
  qed
  then have fin: "mset (concat (map event_names ss)) = mset (filter (\<lambda>n. n \<in> sel) (node_names_of g))" "set ss = set steps" "waits_for g ss = waits_for g steps"
    if "mset ss = mset steps" for ss using that spec(1) by metis+
  show ?thesis
  proof (cases "from_subgraph P iter sort_by g sel groups corder")
    case None
    then show ?thesis by (auto simp: plan split: if_splits)
  next
    case (Some p)
    then have same: "mset (ep_steps p) = mset steps" using perm unfolding plan by auto
    show ?thesis unfolding Some option.case all_asset_names_def fin[OF same] using spec(2-4) by blast
  qed
qed

text \<open>
  Assets \<open>a\<close> and \<open>b\<close> come from one multi-asset; \<open>b\<close> also depends on \<open>x\<close>, which depends on \<open>y\<close>.
\<close>

definition grouped_graph :: asset_graph where
  "grouped_graph = AssetGraph (map new_node [''a'', ''b'', ''x'', ''y'']) [(1, 2), (2, 3)]"

definition grouped :: "string \<rightharpoonup> string" where
  "grouped = [''a'' \<mapsto> ''pair'', ''b'' \<mapsto> ''pair'']"

theorem subgraph_plan_exact_witness:
  "\<exists>p. from_subgraph reference_petgraph sorted_list_of_set (\<lambda>c xs. Some xs) grouped_graph {''a'', ''b'', ''y''} grouped [] = Some p \<and>
     mset (all_asset_names p) = {#''a'', ''b'', ''y''#} \<and>
     (\<forall>t \<in> set (ep_steps p). set (st_plan_deps t) = waits_for grouped_graph (ep_steps p) t)"
proof -
  have g: "graph_ok grouped_graph"
    by (auto simp: graph_ok_def grouped_graph_def node_names_of_def node_count_def new_node_def)
  have edges: "set (g_edges grouped_graph) = {(1, 2), (2, 3)}" by (simp add: grouped_graph_def)
  have acyc: "acyclic (set (g_edges grouped_graph))" unfolding edges by (rule acyclicI_order[of _ "\<lambda>i. 3 - i"]) auto
  have "filter (\<lambda>n. n \<in> {''a'', ''b'', ''y''}) (node_names_of grouped_graph) = [''a'', ''b'', ''y'']" by code_simp
  then show ?thesis
    using subgraph_plan_exact[OF reference_petgraph_ok g acyc, where iter = sorted_list_of_set and sort_by = "\<lambda>c xs. Some xs" and
      sel = "{''a'', ''b'', ''y''}" and groups = grouped and corder = "[]"]
    by (auto split: option.splits)
qed

text \<open>A step of a group can come before a step it waits for: the list of steps is not topologically ordered.\<close>

lemma subgraph_not_topological:
  fixes P
  defines "P \<equiv> \<lparr>pg_neighbors = (\<lambda>g dir i. map snd (filter (\<lambda>e. fst e = i) (g_edges g))), pg_toposort = (\<lambda>g. Some [1, 2, 3, 0]),
    pg_is_cyclic = (\<lambda>g. False), pg_tarjan_scc = (\<lambda>g. []), pg_has_path = (\<lambda>g i j. False)\<rparr>"
  shows "topo_order grouped_graph [1, 2, 3, 0] \<and>
    map_option (\<lambda>p. map (\<lambda>t. (st_name t, st_plan_deps t)) (ep_steps p))
      (from_subgraph P sorted_list_of_set (\<lambda>c xs. Some xs) grouped_graph {''a'', ''b'', ''x'', ''y''} grouped [])
    = Some [(''a'', [''x'']), (''y'', []), (''x'', [''y''])]"
proof
  show "topo_order grouped_graph [1, 2, 3, 0]"
    by (auto simp: topo_order_def grouped_graph_def node_count_def Cons_eq_append_conv)
  show "map_option (\<lambda>p. map (\<lambda>t. (st_name t, st_plan_deps t)) (ep_steps p))
      (from_subgraph P sorted_list_of_set (\<lambda>c xs. Some xs) grouped_graph {''a'', ''b'', ''x'', ''y''} grouped [])
    = Some [(''a'', [''x'']), (''y'', []), (''x'', [''y''])]"
    unfolding P_def by code_simp
qed

text \<open>Equality of the composition order is not transitive, so that it is not a total order.\<close>

lemma cmp_steps_not_transitive:
  fixes levels corder
  defines "levels \<equiv> [''g/b'' \<mapsto> 0, ''plain'' \<mapsto> 0, ''g/a'' \<mapsto> 0]" and "corder \<equiv> [''g/a'' \<mapsto> 0, ''g/b'' \<mapsto> 1]"
  shows "cmp_steps levels corder (plain_step ''g/b'' [] []) (plain_step ''plain'' [] []) = Equal \<and>
    cmp_steps levels corder (plain_step ''plain'' [] []) (plain_step ''g/a'' [] []) = Equal \<and>
    cmp_steps levels corder (plain_step ''g/b'' [] []) (plain_step ''g/a'' [] []) = Greater"
  unfolding levels_def corder_def by code_simp

end
