(* ===== verification/Run_Queue.thy ===== *)
theory Run_Queue
  imports Prelude "HOL-Library.Sublist" "HOL-Library.Product_Lexorder"
begin

text \<open>
  The run queue (\<open>rivers-core/src/concurrency\<close>): tag concurrency limits, their counter, and the
  coordinator's dequeue cycle. Counts are \<open>u32\<close> and wrap around in release builds, which is written out.
  Storage is a parameter: the answer of the tick query and whether each status update fails. Writes are
  recorded in order; writes whose failure the code ignores always count as issued. Durations are
  milliseconds. Of a queued run only the fields the cycle reads are kept; it carries the others along.
\<close>

section \<open>Limits and reasons\<close>

record tag_limit =
  tl_key :: string
  tl_value :: "string option"
  tl_per_unique_value :: bool
  tl_limit :: nat

record run_queue_config =
  rq_max_concurrent_runs :: int
  rq_tag_limits :: "tag_limit list"
  rq_dequeue_interval :: nat
  rq_start_timeout :: nat

definition default_run_queue_config :: run_queue_config where
  "default_run_queue_config =
     \<lparr>rq_max_concurrent_runs = 10, rq_tag_limits = [], rq_dequeue_interval = 250, rq_start_timeout = 180000\<rparr>"

type_synonym tags = "(string \<times> string) list"

datatype block_reason =
    GlobalRunLimit nat nat
  | TagLimit string "string option" nat nat
  | PoolFull string nat nat
  | PoolsFull "(string \<times> nat \<times> nat) list"

definition ratio :: "nat \<Rightarrow> nat \<Rightarrow> string" where
  "ratio a b = ''('' @ show_nat a @ ''/'' @ show_nat b"

fun show_block_reason :: "block_reason \<Rightarrow> string" where
  "show_block_reason (GlobalRunLimit cur lim) = ''global run limit '' @ ratio cur lim @ '')''"
| "show_block_reason (TagLimit key (Some v) cur lim) = ''tag limit: '' @ key @ ''='' @ v @ '' '' @ ratio cur lim @ '')''"
| "show_block_reason (TagLimit key None cur lim) = ''tag limit: '' @ key @ '' '' @ ratio cur lim @ '')''"
| "show_block_reason (PoolFull pool claimed lim) =
     ''pool '' @ [CHR 0x27] @ pool @ [CHR 0x27] @ '' full '' @ ratio claimed lim @ '' slots)''"
| "show_block_reason (PoolsFull pools) =
     ''pools full: '' @ join '', '' (map (\<lambda>(p, c, l). [CHR 0x27] @ p @ [CHR 0x27] @ '' '' @ ratio c l @ '')'') pools)"

section \<open>The counter\<close>

record tag_counter =
  tc_key_counts :: "string \<rightharpoonup> nat"
  tc_key_value_counts :: "string \<times> string \<rightharpoonup> nat"
  tc_unique_value_counts :: "string \<rightharpoonup> (string \<rightharpoonup> nat)"
  tc_limits :: "tag_limit list"

definition or_zero :: "nat option \<Rightarrow> nat" where
  "or_zero n = (case n of Some n \<Rightarrow> n | None \<Rightarrow> 0)"

definition bump_at :: "'k \<Rightarrow> ('k \<rightharpoonup> nat) \<Rightarrow> ('k \<rightharpoonup> nat)" where
  "bump_at k m = m(k \<mapsto> (or_zero (m k) + 1) mod 2 ^ 32)"

definition count_tag :: "string \<times> string \<Rightarrow> tag_counter \<Rightarrow> tag_counter" where
  "count_tag kv c =
     c\<lparr>tc_key_counts := bump_at (fst kv) (tc_key_counts c),
       tc_key_value_counts := bump_at kv (tc_key_value_counts c),
       tc_unique_value_counts := (tc_unique_value_counts c)(fst kv \<mapsto>
         bump_at (snd kv) (case tc_unique_value_counts c (fst kv) of Some m \<Rightarrow> m | None \<Rightarrow> Map.empty))\<rparr>"

definition counter_from_runs :: "tags list \<Rightarrow> tag_limit list \<Rightarrow> tag_counter" where
  "counter_from_runs runs limits =
     fold (fold (\<lambda>kv c. if fst kv \<notin> tl_key ` set limits then c else count_tag kv c)) runs
       \<lparr>tc_key_counts = Map.empty, tc_key_value_counts = Map.empty, tc_unique_value_counts = Map.empty, tc_limits = limits\<rparr>"

definition record_launch :: "tags \<Rightarrow> tag_counter \<Rightarrow> tag_counter" where
  "record_launch ts c = fold count_tag ts c"

text \<open>One limit: the first reason it gives against the run, if any.\<close>

definition check_limit :: "tag_counter \<Rightarrow> tags \<Rightarrow> tag_limit \<Rightarrow> block_reason option" where
  "check_limit c ts l =
     (if tl_per_unique_value l
      then (let counts = tc_unique_value_counts c (tl_key l);
                current = (\<lambda>v. or_zero (Option.bind counts (\<lambda>m. m v)))
            in map_option (\<lambda>kv. TagLimit (tl_key l) (Some (snd kv)) (current (snd kv)) (tl_limit l))
                 (find (\<lambda>kv. fst kv = tl_key l \<and> current (snd kv) \<ge> tl_limit l) ts))
      else (case tl_value l of
              Some v \<Rightarrow>
                (let current = or_zero (tc_key_value_counts c (tl_key l, v))
                 in if (tl_key l, v) \<in> set ts \<and> current \<ge> tl_limit l
                    then Some (TagLimit (tl_key l) (Some v) current (tl_limit l)) else None)
            | None \<Rightarrow>
                (let current = or_zero (tc_key_counts c (tl_key l))
                 in if tl_key l \<in> fst ` set ts \<and> current \<ge> tl_limit l
                    then Some (TagLimit (tl_key l) None current (tl_limit l)) else None)))"

fun first_reason :: "tag_counter \<Rightarrow> tags \<Rightarrow> tag_limit list \<Rightarrow> block_reason option" where
  "first_reason c ts [] = None"
| "first_reason c ts (l # ls) = (case check_limit c ts l of Some r \<Rightarrow> Some r | None \<Rightarrow> first_reason c ts ls)"

definition is_blocked :: "tag_counter \<Rightarrow> tags \<Rightarrow> block_reason option" where
  "is_blocked c ts = first_reason c ts (tc_limits c)"

section \<open>The dequeue cycle\<close>

record queued_run =
  qr_run_id :: string
  qr_code_location_id :: string
  qr_tags :: tags
  qr_priority :: int
  qr_start_time :: int

datatype queue_write =
    BlockAllQueued string
  | SetBlockReason string string
  | MarkNotStarted string
  | RunDequeuedEvent string string int

text \<open>The order of the queue: higher priority first, then earlier start.\<close>

definition queue_before :: "queued_run \<Rightarrow> queued_run \<Rightarrow> bool" where
  "queue_before a b \<longleftrightarrow> qr_priority a > qr_priority b \<or> (qr_priority a = qr_priority b \<and> qr_start_time a \<le> qr_start_time b)"

fun pick_runs :: "nat \<Rightarrow> tag_counter \<Rightarrow> queued_run list \<Rightarrow> queued_run list \<Rightarrow> queue_write list \<Rightarrow> queued_run list \<times> queue_write list" where
  "pick_runs slots c [] launch ws = (launch, ws)"
| "pick_runs slots c (r # rs) launch ws =
     (if length launch \<ge> slots then (launch, ws)
      else (case is_blocked c (qr_tags r) of
              Some reason \<Rightarrow> pick_runs slots c rs launch (ws @ [SetBlockReason (qr_run_id r) (show_block_reason reason)])
            | None \<Rightarrow> pick_runs slots (record_launch (qr_tags r) c) rs (launch @ [r]) ws))"

text \<open>Marking the picked runs: the first failed status update ends the cycle with its error.\<close>

fun mark_runs :: "(string \<Rightarrow> string option) \<Rightarrow> queued_run list \<Rightarrow> queue_write list \<Rightarrow> (string + unit) \<times> queue_write list" where
  "mark_runs update_fails [] ws = (Inr (), ws)"
| "mark_runs update_fails (r # rs) ws =
     (case update_fails (qr_run_id r) of
        Some e \<Rightarrow> (Inl e, ws)
      | None \<Rightarrow> mark_runs update_fails rs
                  (ws @ [MarkNotStarted (qr_run_id r), RunDequeuedEvent (qr_code_location_id r) (qr_run_id r) (qr_priority r)]))"

definition slots_available :: "int \<Rightarrow> nat \<Rightarrow> nat" where
  "slots_available mx in_progress = (if mx < 0 then usize_max else nat mx - in_progress)"

definition tick_selection ::
  "(queued_run list \<Rightarrow> queued_run list) \<Rightarrow> run_queue_config \<Rightarrow> queued_run list \<Rightarrow> queued_run list \<Rightarrow> queued_run list \<times> queue_write list" where
  "tick_selection sort_unstable cfg in_progress queued =
     pick_runs (slots_available (rq_max_concurrent_runs cfg) (length in_progress))
       (counter_from_runs (map qr_tags in_progress) (rq_tag_limits cfg)) (sort_unstable queued) [] []"

definition coordinator_tick ::
  "(queued_run list \<Rightarrow> queued_run list) \<Rightarrow> (string \<Rightarrow> string option) \<Rightarrow> run_queue_config \<Rightarrow>
   string + queued_run list \<times> queued_run list \<Rightarrow> (string + queued_run list) \<times> queue_write list" where
  "coordinator_tick sort_unstable update_fails cfg query =
     (case query of
        Inl e \<Rightarrow> (Inl e, [])
      | Inr (in_progress, queued) \<Rightarrow>
          (let mx = rq_max_concurrent_runs cfg; n = length in_progress
           in if mx \<ge> 0 \<and> n \<ge> nat mx
              then (Inr [], [BlockAllQueued (''global run limit '' @ ratio n (nat mx) @ '')'')])
              else
                (case tick_selection sort_unstable cfg in_progress queued of
                   (launch, ws) \<Rightarrow>
                     (case mark_runs update_fails launch ws of
                        (Inl e, ws') \<Rightarrow> (Inl e, ws')
                      | (Inr _, ws') \<Rightarrow> (Inr launch, ws')))))"

section \<open>The counter counts\<close>

text \<open>The tags a limit counts for a run, and whether it concerns the run; \<open>v\<close> only matters per unique value.\<close>

definition counted_by :: "tag_limit \<Rightarrow> string \<Rightarrow> string \<times> string \<Rightarrow> bool" where
  "counted_by l v kv \<longleftrightarrow> fst kv = tl_key l \<and>
     (if tl_per_unique_value l then snd kv = v else (case tl_value l of Some w \<Rightarrow> snd kv = w | None \<Rightarrow> True))"

definition concerns :: "tag_limit \<Rightarrow> string \<Rightarrow> tags \<Rightarrow> bool" where
  "concerns l v ts \<longleftrightarrow> (\<exists>kv \<in> set ts. counted_by l v kv)"

definition tag_count :: "tag_limit \<Rightarrow> string \<Rightarrow> tags \<Rightarrow> nat" where
  "tag_count l v ts = length (filter (counted_by l v) ts)"

definition uv_count :: "tag_counter \<Rightarrow> string \<Rightarrow> string \<Rightarrow> nat" where
  "uv_count c k v = or_zero (Option.bind (tc_unique_value_counts c k) (\<lambda>m. m v))"

definition counts_ok :: "tag_limit list \<Rightarrow> tags \<Rightarrow> tag_counter \<Rightarrow> bool" where
  "counts_ok limits ts c \<longleftrightarrow> tc_limits c = limits \<and>
     (\<forall>k \<in> tl_key ` set limits.
        or_zero (tc_key_counts c k) = length (filter (\<lambda>kv. fst kv = k) ts) mod 2 ^ 32 \<and>
        (\<forall>v. or_zero (tc_key_value_counts c (k, v)) = length (filter (\<lambda>kv. kv = (k, v)) ts) mod 2 ^ 32 \<and>
             uv_count c k v = length (filter (\<lambda>kv. kv = (k, v)) ts) mod 2 ^ 32))"

lemma or_zero_simps [simp]: "or_zero (Some n) = n" "or_zero None = 0"
  by (auto simp: or_zero_def)

lemma or_zero_bump: "or_zero (bump_at k m j) = (if j = k then (or_zero (m k) + 1) mod 2 ^ 32 else or_zero (m j))"
  by (simp add: bump_at_def)

lemma uv_count_tag: "uv_count (count_tag kv c) k v = (if (k, v) = kv then (uv_count c k v + 1) mod 2 ^ 32 else uv_count c k v)"
  by (cases kv; cases "tc_unique_value_counts c (fst kv)") (auto simp: uv_count_def count_tag_def or_zero_bump)

lemma count_tag_simps:
  "tc_limits (count_tag kv c) = tc_limits c"
  "or_zero (tc_key_counts (count_tag kv c) k) = (if k = fst kv then (or_zero (tc_key_counts c k) + 1) mod 2 ^ 32 else or_zero (tc_key_counts c k))"
  "or_zero (tc_key_value_counts (count_tag kv c) kw) =
     (if kw = kv then (or_zero (tc_key_value_counts c kw) + 1) mod 2 ^ 32 else or_zero (tc_key_value_counts c kw))"
  by (auto simp: count_tag_def or_zero_bump)

lemma count_tag_ok: "counts_ok limits ts c \<Longrightarrow> counts_ok limits (ts @ [kv]) (count_tag kv c)"
  unfolding counts_ok_def count_tag_simps uv_count_tag by (cases kv) (auto simp: mod_simps)

lemma skip_tag_ok: "counts_ok limits ts c \<Longrightarrow> fst kv \<notin> tl_key ` set limits \<Longrightarrow> counts_ok limits (ts @ [kv]) c"
  unfolding counts_ok_def by (cases kv) auto

lemma record_launch_ok: "counts_ok limits ts c \<Longrightarrow> counts_ok limits (ts @ us) (record_launch us c)"
  unfolding record_launch_def
proof (induction us arbitrary: ts c)
  case (Cons kv us)
  from Cons.IH[OF count_tag_ok[OF Cons.prems, of kv]] show ?case by simp
qed simp

lemma from_runs_ok: "counts_ok limits (concat runs) (counter_from_runs runs limits)"
proof -
  let ?f = "\<lambda>kv c. if fst kv \<notin> tl_key ` set limits then c else count_tag kv c"
  have inner: "counts_ok limits (ts @ us) (fold ?f us c)" if "counts_ok limits ts c" for us ts c
    using that
  proof (induction us arbitrary: ts c)
    case (Cons kv us)
    have "counts_ok limits (ts @ [kv]) (?f kv c)" using Cons.prems by (auto intro: count_tag_ok skip_tag_ok)
    from Cons.IH[OF this] show ?case by simp
  qed simp
  have outer: "counts_ok limits (ts @ concat runs) (fold (fold ?f) runs c)" if "counts_ok limits ts c" for ts c
    using that
  proof (induction runs arbitrary: ts c)
    case (Cons r runs)
    from Cons.IH[OF inner[OF Cons.prems, of r]] show ?case by simp
  qed simp
  let ?c0 = "\<lparr>tc_key_counts = Map.empty, tc_key_value_counts = Map.empty, tc_unique_value_counts = Map.empty, tc_limits = limits\<rparr>"
  have "counts_ok limits [] ?c0" by (simp add: counts_ok_def uv_count_def)
  from outer[OF this] show ?thesis unfolding counter_from_runs_def by simp
qed

section \<open>Limits hold\<close>

lemma tag_count_le: "tag_count l v ts \<le> length ts"
  by (simp add: tag_count_def)

text \<open>A run is let through exactly when every limit that concerns it still has room.\<close>

lemma check_limit_iff:
  assumes ok: "counts_ok limits ts c" and l: "l \<in> set limits" and small: "length ts < 2 ^ 32"
  shows "check_limit c us l = None \<longleftrightarrow> (\<forall>v. concerns l v us \<longrightarrow> tag_count l v ts < tl_limit l)"
proof -
  have k: "tl_key l \<in> tl_key ` set limits" using l by blast
  have le: "length (filter P ts) mod 2 ^ 32 = length (filter P ts)" for P
    using small le_less_trans[OF length_filter_le[of P ts]] by simp
  have counts: "or_zero (tc_key_counts c (tl_key l)) = length (filter (\<lambda>kv. fst kv = tl_key l) ts)"
    "\<And>v. or_zero (tc_key_value_counts c (tl_key l, v)) = length (filter (\<lambda>kv. kv = (tl_key l, v)) ts)"
    "\<And>v. uv_count c (tl_key l) v = length (filter (\<lambda>kv. kv = (tl_key l, v)) ts)"
    using ok k le unfolding counts_ok_def by auto
  have by_unique: "counted_by l v = (\<lambda>kv. kv = (tl_key l, v))" if "tl_per_unique_value l" for v
    using that by (auto simp: counted_by_def fun_eq_iff)
  have by_value: "counted_by l v = (\<lambda>kv. kv = (tl_key l, w))" if "\<not> tl_per_unique_value l" "tl_value l = Some w" for v w
    using that by (auto simp: counted_by_def fun_eq_iff)
  have by_key: "counted_by l v = (\<lambda>kv. fst kv = tl_key l)" if "\<not> tl_per_unique_value l" "tl_value l = None" for v
    using that by (auto simp: counted_by_def fun_eq_iff)
  consider "tl_per_unique_value l" | w where "\<not> tl_per_unique_value l" "tl_value l = Some w" | "\<not> tl_per_unique_value l" "tl_value l = None"
    by (cases "tl_value l") auto
  then show ?thesis
  proof cases
    case 1
    then show ?thesis
      by (auto simp: check_limit_def uv_count_def[symmetric] counts concerns_def tag_count_def by_unique find_None_iff not_le Let_def)
  next
    case (2 w)
    then show ?thesis by (auto simp: check_limit_def counts concerns_def tag_count_def by_value not_le Let_def)
  next
    case 3
    then show ?thesis by (auto simp: check_limit_def counts concerns_def tag_count_def by_key not_le Let_def) force+
  qed
qed

lemma first_reason_None: "first_reason c us ls = None \<longleftrightarrow> (\<forall>l \<in> set ls. check_limit c us l = None)"
  by (induction ls) (auto split: option.splits)

lemma is_blocked_iff:
  assumes "counts_ok limits ts c" and "length ts < 2 ^ 32"
  shows "is_blocked c us = None \<longleftrightarrow> (\<forall>l \<in> set limits. \<forall>v. concerns l v us \<longrightarrow> tag_count l v ts < tl_limit l)"
proof -
  have "tc_limits c = limits" using assms(1) by (simp add: counts_ok_def)
  then show ?thesis using check_limit_iff[OF assms(1) _ assms(2)] by (auto simp: is_blocked_def first_reason_None)
qed

text \<open>The runs a limit concerns.\<close>

definition usage :: "tag_limit \<Rightarrow> string \<Rightarrow> queued_run list \<Rightarrow> nat" where
  "usage l v runs = length (filter (\<lambda>r. concerns l v (qr_tags r)) runs)"

lemma usage_le_count: "usage l v runs \<le> tag_count l v (concat (map qr_tags runs))"
proof (induction runs)
  case (Cons r runs)
  have "concerns l v (qr_tags r) \<Longrightarrow> 0 < tag_count l v (qr_tags r)"
    by (auto simp: concerns_def tag_count_def filter_empty_conv)
  moreover have "tag_count l v (concat (map qr_tags (r # runs))) = tag_count l v (qr_tags r) + tag_count l v (concat (map qr_tags runs))"
    by (simp add: tag_count_def)
  moreover have "usage l v (r # runs) = (if concerns l v (qr_tags r) then 1 else 0) + usage l v runs" by (simp add: usage_def)
  ultimately show ?case using Cons by (cases "concerns l v (qr_tags r)") simp_all
qed (simp add: usage_def)

definition all_tags :: "queued_run list \<Rightarrow> tags" where
  "all_tags runs = concat (map qr_tags runs)"

lemma usage_append: "usage l v (xs @ ys) = usage l v xs + usage l v ys"
  by (simp add: usage_def)

lemma all_tags_append [simp]: "all_tags (xs @ ys) = all_tags xs @ all_tags ys"
  by (simp add: all_tags_def)

lemma launch_within_limit:
  assumes "counts_ok limits (all_tags runs) c" and "length (all_tags runs) < 2 ^ 32" and "is_blocked c (qr_tags r) = None"
    and "l \<in> set limits" and "usage l v runs \<le> max (tl_limit l) m"
  shows "usage l v (runs @ [r]) \<le> max (tl_limit l) m"
proof (cases "concerns l v (qr_tags r)")
  case True
  have "tag_count l v (all_tags runs) < tl_limit l" using is_blocked_iff[OF assms(1,2)] assms(3,4) True by blast
  then have "usage l v runs < tl_limit l" using usage_le_count[of l v runs] by (simp add: all_tags_def)
  moreover have "usage l v [r] \<le> 1" by (simp add: usage_def)
  ultimately show ?thesis unfolding usage_append by simp
next
  case False
  then have "usage l v [r] = 0" by (simp add: usage_def)
  then show ?thesis using assms(5) unfolding usage_append by simp
qed

text \<open>What the picking loop keeps: the slots, the limits, and that the launched runs come from the queue in order.\<close>

lemma pick_runs_limits:
  assumes "pick_runs slots c queue launch ws = (launch', ws')" and "counts_ok limits (all_tags (ip @ launch)) c"
    and "length (all_tags (ip @ launch @ queue)) < 2 ^ 32" and "length launch \<le> slots"
    and "\<And>l v. l \<in> set limits \<Longrightarrow> usage l v (ip @ launch) \<le> max (tl_limit l) (usage l v ip)"
  shows "length launch' \<le> slots \<and> (\<exists>picked. launch' = launch @ picked \<and> subseq picked queue) \<and>
    (\<forall>l \<in> set limits. \<forall>v. usage l v (ip @ launch') \<le> max (tl_limit l) (usage l v ip))"
  using assms
proof (induction slots c queue launch ws rule: pick_runs.induct)
  case (2 slots c r rs launch ws)
  show ?case
  proof (cases "length launch \<ge> slots")
    case False
    note room = False
    show ?thesis
    proof (cases "is_blocked c (qr_tags r)")
      case (Some reason)
      then have "length launch' \<le> slots \<and> (\<exists>picked. launch' = launch @ picked \<and> subseq picked rs) \<and>
          (\<forall>l \<in> set limits. \<forall>v. usage l v (ip @ launch') \<le> max (tl_limit l) (usage l v ip))"
        using "2.prems" room by (intro "2.IH"(2)[OF room Some]) (auto simp: all_tags_def)
      then show ?thesis by (blast intro: list_emb_Cons)
    next
      case None
      have small: "length (all_tags (ip @ launch)) < 2 ^ 32" using "2.prems"(3) by simp
      have "counts_ok limits (all_tags (ip @ launch @ [r])) (record_launch (qr_tags r) c)"
        using record_launch_ok[OF "2.prems"(2), of "qr_tags r"] by (simp add: all_tags_def)
      moreover have "usage l v (ip @ launch @ [r]) \<le> max (tl_limit l) (usage l v ip)" if "l \<in> set limits" for l v
        using launch_within_limit[OF "2.prems"(2) small None that "2.prems"(5)[OF that]] by simp
      ultimately have "length launch' \<le> slots \<and> (\<exists>picked. launch' = (launch @ [r]) @ picked \<and> subseq picked rs) \<and>
          (\<forall>l \<in> set limits. \<forall>v. usage l v (ip @ launch') \<le> max (tl_limit l) (usage l v ip))"
        using "2.prems" room None by (intro "2.IH"(1)[OF room None]) (auto simp: all_tags_def)
      then obtain picked where "launch' = launch @ (r # picked)" "subseq (r # picked) (r # rs)" "length launch' \<le> slots"
        "\<forall>l \<in> set limits. \<forall>v. usage l v (ip @ launch') \<le> max (tl_limit l) (usage l v ip)" by auto
      then show ?thesis by blast
    qed
  qed (use "2.prems" in auto)
qed auto

text \<open>What the loop leaves in the queue: blocked runs, with a limit that is used up, and runs that came too late.\<close>

definition held_back :: "tag_limit list \<Rightarrow> queued_run list \<Rightarrow> queue_write list \<Rightarrow> queued_run \<Rightarrow> bool" where
  "held_back limits runs ws q \<longleftrightarrow> (\<exists>reason. SetBlockReason (qr_run_id q) reason \<in> set ws) \<and>
     (\<exists>l \<in> set limits. \<exists>v. concerns l v (qr_tags q) \<and> tl_limit l \<le> tag_count l v (all_tags runs))"

lemma held_back_mono:
  "held_back limits runs ws q \<Longrightarrow> set ws \<subseteq> set ws' \<Longrightarrow> held_back limits (runs @ rest) ws' q"
  unfolding held_back_def by (auto simp: tag_count_def intro: trans_le_add1)

lemma pick_runs_writes: "pick_runs slots c queue launch ws = (launch', ws') \<Longrightarrow> set ws \<subseteq> set ws'"
  by (induction slots c queue launch ws rule: pick_runs.induct) (auto split: if_splits option.splits)

lemma pick_runs_extends: "pick_runs slots c queue launch ws = (launch', ws') \<Longrightarrow> \<exists>picked. launch' = launch @ picked"
  by (induction slots c queue launch ws rule: pick_runs.induct) (auto split: if_splits option.splits)

lemma pick_runs_complete:
  assumes "pick_runs slots c queue launch ws = (launch', ws')" and "counts_ok limits (all_tags (ip @ launch)) c"
    and "length (all_tags (ip @ launch @ queue)) < 2 ^ 32" and "sorted_wrt queue_before queue"
    and "\<forall>p \<in> set launch. \<forall>q \<in> set queue. queue_before p q" and "q \<in> set queue"
  shows "q \<in> set launch' \<or> held_back limits (ip @ launch') ws' q \<or> (slots \<le> length launch' \<and> (\<forall>p \<in> set launch'. queue_before p q))"
  using assms
proof (induction slots c queue launch ws rule: pick_runs.induct)
  case (2 slots c r rs launch ws)
  obtain picked where picked: "launch' = launch @ picked" using pick_runs_extends[OF "2.prems"(1)] by blast
  show ?case
  proof (cases "length launch \<ge> slots")
    case False
    note room = False
    have small: "length (all_tags (ip @ launch)) < 2 ^ 32" using "2.prems"(3) by simp
    show ?thesis
    proof (cases "is_blocked c (qr_tags r)")
      case (Some reason)
      let ?w = "SetBlockReason (qr_run_id r) (show_block_reason reason)"
      have step: "pick_runs slots c rs launch (ws @ [?w]) = (launch', ws')" using "2.prems"(1) room Some by simp
      show ?thesis
      proof (cases "q = r")
        case True
        have "?w \<in> set ws'" using pick_runs_writes[OF step] by auto
        moreover have "is_blocked c (qr_tags r) \<noteq> None" using Some by simp
        ultimately have "held_back limits (ip @ launch) ws' r"
          using is_blocked_iff[OF "2.prems"(2) small, of "qr_tags r"] unfolding held_back_def by (auto simp: not_less)
        from held_back_mono[OF this order_refl, of picked] show ?thesis using True picked by simp
      next
        case False
        then show ?thesis using "2.prems" step by (intro "2.IH"(2)[OF room Some]) (auto simp: all_tags_def)
      qed
    next
      case None
      have step: "pick_runs slots (record_launch (qr_tags r) c) rs (launch @ [r]) ws = (launch', ws')" using "2.prems"(1) room None by simp
      show ?thesis
      proof (cases "q = r")
        case True
        then show ?thesis using pick_runs_extends[OF step] by auto
      next
        case False
        have "counts_ok limits (all_tags (ip @ launch @ [r])) (record_launch (qr_tags r) c)"
          using record_launch_ok[OF "2.prems"(2), of "qr_tags r"] by (simp add: all_tags_def)
        then show ?thesis using "2.prems" step False by (intro "2.IH"(1)[OF room None]) (auto simp: all_tags_def)
      qed
    qed
  qed (use "2.prems" in auto)
qed simp

lemma subseq_mset: "subseq xs ys \<Longrightarrow> mset xs \<subseteq># mset ys"
  by (induction rule: list_emb.induct) (auto simp: subseteq_mset_def le_SucI)

text \<open>The runs a cycle has marked.\<close>

definition marked :: "queue_write list \<Rightarrow> string list" where
  "marked ws = List.map_filter (\<lambda>w. case w of MarkNotStarted i \<Rightarrow> Some i | _ \<Rightarrow> None) ws"

lemma marked_simps [simp]: "marked [] = []" "marked (MarkNotStarted i # ws) = i # marked ws"
  "marked (BlockAllQueued a # ws) = marked ws" "marked (SetBlockReason i a # ws) = marked ws"
  "marked (RunDequeuedEvent i j p # ws) = marked ws" "marked (ws @ ws') = marked ws @ marked ws'"
  by (auto simp: marked_def List.map_filter_def)

lemma pick_runs_marked: "pick_runs slots c queue launch ws = (launch', ws') \<Longrightarrow> marked ws' = marked ws"
  by (induction slots c queue launch ws rule: pick_runs.induct) (auto split: if_splits option.splits)

lemma mark_runs_marked:
  "mark_runs fails rs ws = (res, ws') \<Longrightarrow>
     \<exists>ids. marked ws' = marked ws @ ids \<and> prefix ids (map qr_run_id rs) \<and> set ws \<subseteq> set ws' \<and>
       (res = Inr () \<longrightarrow> ids = map qr_run_id rs)"
proof (induction fails rs ws rule: mark_runs.induct)
  case (2 fails r rs ws)
  show ?case
  proof (cases "fails (qr_run_id r)")
    case None
    let ?ws = "ws @ [MarkNotStarted (qr_run_id r), RunDequeuedEvent (qr_code_location_id r) (qr_run_id r) (qr_priority r)]"
    have "mark_runs fails rs ?ws = (res, ws')" using "2.prems" None by simp
    from "2.IH"[OF None this] obtain ids where "marked ws' = marked ws @ qr_run_id r # ids" "prefix ids (map qr_run_id rs)" "set ws \<subseteq> set ws'"
      "res = Inr () \<longrightarrow> ids = map qr_run_id rs" by auto
    then show ?thesis by (intro exI[of _ "qr_run_id r # ids"]) auto
  qed (use "2.prems" in auto)
qed auto

lemma all_tags_perm: "mset xs = mset ys \<Longrightarrow> length (all_tags (ip @ [] @ xs)) = length (all_tags (ip @ ys))"
proof -
  assume "mset xs = mset ys"
  then have "sum_list (map (length \<circ> qr_tags) xs) = sum_list (map (length \<circ> qr_tags) ys)" by (metis mset_map sum_mset_sum_list)
  then show ?thesis by (simp add: all_tags_def length_concat comp_def)
qed

lemma tick_counter_ok:
  "counts_ok (rq_tag_limits cfg) (all_tags (ip @ [])) (counter_from_runs (map qr_tags ip) (rq_tag_limits cfg))"
  using from_runs_ok by (simp add: all_tags_def)

text \<open>
  C10: a dequeue cycle never exceeds its limits, whatever order the unstable sort gives ties and whether or not a
  status update fails midway. The runs it marks are among the queued runs it selected; the selected runs fit into
  the free slots, so that the runs in progress never exceed the configured maximum; and for every tag limit (and
  every value, for limits per unique value) the runs it concerns never exceed the limit, unless the runs already
  in progress did. The \<open>u32\<close> counters must not wrap, that is, there are fewer than $2^{32}$ tags.
\<close>

theorem tick_respects_limits:
  assumes "\<And>rs. mset (sort_unstable rs) = mset rs" and "length (all_tags (in_progress @ queued)) < 2 ^ 32"
    and "coordinator_tick sort_unstable fails cfg (Inr (in_progress, queued)) = (res, ws)"
  shows "\<exists>launch. mset launch \<subseteq># mset queued \<and> prefix (marked ws) (map qr_run_id launch) \<and>
    (\<forall>done. res = Inr done \<longrightarrow> done = launch \<and> marked ws = map qr_run_id launch) \<and>
    (rq_max_concurrent_runs cfg \<ge> 0 \<longrightarrow>
       launch = [] \<or> int (length in_progress + length launch) \<le> rq_max_concurrent_runs cfg) \<and>
    (\<forall>l \<in> set (rq_tag_limits cfg). \<forall>v. usage l v (in_progress @ launch) \<le> max (tl_limit l) (usage l v in_progress))"
proof (cases "rq_max_concurrent_runs cfg \<ge> 0 \<and> length in_progress \<ge> nat (rq_max_concurrent_runs cfg)")
  case True
  then show ?thesis using assms(3) by (intro exI[of _ "[]"]) (auto simp: coordinator_tick_def Let_def)
next
  case False
  obtain launch ws1 where pick: "tick_selection sort_unstable cfg in_progress queued = (launch, ws1)" by fastforce
  obtain r ws2 where mark: "mark_runs fails launch ws1 = (r, ws2)" by fastforce
  have tick: "ws = ws2" "res = (case r of Inl e \<Rightarrow> Inl e | Inr _ \<Rightarrow> Inr launch)"
    using assms(3) False pick mark by (auto simp: coordinator_tick_def Let_def split: sum.splits)
  have len: "length (all_tags (in_progress @ [] @ sort_unstable queued)) < 2 ^ 32"
    using assms(2) by (simp only: all_tags_perm[OF assms(1)])
  note start = tick_counter_ok[of cfg in_progress]
  from pick_runs_limits[OF pick[unfolded tick_selection_def] start len]
  have limits: "length launch \<le> slots_available (rq_max_concurrent_runs cfg) (length in_progress)" "subseq launch (sort_unstable queued)"
    "\<forall>l \<in> set (rq_tag_limits cfg). \<forall>v. usage l v (in_progress @ launch) \<le> max (tl_limit l) (usage l v in_progress)" by auto
  have "marked ws1 = []" using pick_runs_marked[OF pick[unfolded tick_selection_def]] by simp
  with mark_runs_marked[OF mark] have marks: "prefix (marked ws) (map qr_run_id launch)" "r = Inr () \<longrightarrow> marked ws = map qr_run_id launch"
    by (auto simp: tick(1))
  have "mset launch \<subseteq># mset queued" using subseq_mset[OF limits(2)] assms(1) by simp
  then show ?thesis using limits marks tick(2) False
    by (intro exI[of _ launch]) (auto simp: slots_available_def split: sum.splits if_splits)
qed

text \<open>The order of the queue as a sort.\<close>

definition queue_sort :: "queued_run list \<Rightarrow> queued_run list" where
  "queue_sort rs = sort_key (\<lambda>r. (- qr_priority r, qr_start_time r)) rs"

lemma queue_sort_ok: "mset (queue_sort rs) = mset rs" "sorted_wrt queue_before (queue_sort rs)"
proof -
  show "mset (queue_sort rs) = mset rs" by (simp add: queue_sort_def)
  have "sorted_wrt (\<lambda>a b. (- qr_priority a, qr_start_time a) \<le> (- qr_priority b, qr_start_time b)) (queue_sort rs)"
    using sorted_sort_key[of "\<lambda>r. (- qr_priority r, qr_start_time r)" rs] by (simp add: queue_sort_def sorted_map)
  then show "sorted_wrt queue_before (queue_sort rs)"
    by (rule sorted_wrt_mono_rel[rotated]) (auto simp: queue_before_def)
qed

definition sample_run :: "string \<Rightarrow> int \<Rightarrow> tags \<Rightarrow> queued_run" where
  "sample_run i p ts = \<lparr>qr_run_id = i, qr_code_location_id = ''dev'', qr_tags = ts, qr_priority = p, qr_start_time = 0\<rparr>"

definition sample_queue_config :: run_queue_config where
  "sample_queue_config = \<lparr>rq_max_concurrent_runs = 3,
     rq_tag_limits = [\<lparr>tl_key = ''db'', tl_value = None, tl_per_unique_value = True, tl_limit = 1\<rparr>], rq_dequeue_interval = 250, rq_start_timeout = 180000\<rparr>"

lemma digit_one: "digit_char (Suc 0) = CHR ''1''"
  by code_simp

lemmas tick_eval = coordinator_tick_def tick_selection_def queue_sort_def slots_available_def counter_from_runs_def is_blocked_def
  check_limit_def count_tag_def record_launch_def bump_at_def ratio_def show_nat.simps digit_one sample_run_def usize_max_def Let_def

theorem tick_respects_limits_witness:
  "\<exists>launch ws. coordinator_tick queue_sort (\<lambda>i. None) sample_queue_config
       (Inr ([sample_run ''r0'' 0 [(''db'', ''main'')]],
             [sample_run ''r1'' 5 [(''db'', ''main'')], sample_run ''r2'' 1 [(''db'', ''copy'')], sample_run ''r3'' 2 []]))
     = (Inr launch, ws) \<and> length launch = 2 \<and> marked ws = map qr_run_id launch"
proof -
  let ?ip = "[sample_run ''r0'' 0 [(''db'', ''main'')]]"
  let ?q = "[sample_run ''r1'' 5 [(''db'', ''main'')], sample_run ''r2'' 1 [(''db'', ''copy'')], sample_run ''r3'' 2 []]"
  have run: "map_prod (map_sum (\<lambda>e. e) (map qr_run_id)) (\<lambda>ws. ws)
      (coordinator_tick queue_sort (\<lambda>i. None) sample_queue_config (Inr (?ip, ?q)))
    = (Inr [''r3'', ''r2''], [SetBlockReason ''r1'' ''tag limit: db=main (1/1)'', MarkNotStarted ''r3'',
        RunDequeuedEvent ''dev'' ''r3'' 2, MarkNotStarted ''r2'', RunDequeuedEvent ''dev'' ''r2'' 1])"
    by (simp add: tick_eval sample_queue_config_def)
  obtain res ws where t: "coordinator_tick queue_sort (\<lambda>i. None) sample_queue_config (Inr (?ip, ?q)) = (res, ws)" by fastforce
  have small: "length (all_tags (?ip @ ?q)) < 2 ^ 32" by (simp add: all_tags_def sample_run_def)
  from run obtain launch where l: "res = Inr launch" "map qr_run_id launch = [''r3'', ''r2'']" unfolding t by (cases res) auto
  have "marked ws = map qr_run_id launch"
    using tick_respects_limits[OF queue_sort_ok(1) small t] l(1) by blast
  moreover have "length launch = 2" using arg_cong[OF l(2), of length] by simp
  ultimately show ?thesis using t l(1) by blast
qed



end
