(* ===== verification/Staleness.thy ===== *)
theory Staleness
  imports Condition_State Asset_Graph "HOL-Library.AList"
begin

text \<open>
  Staleness of assets (\<open>rivers-core/src/staleness.rs\<close>): a topological order by Kahn's algorithm over
  the dependency edges, then one pass that derives the status of each asset from its record and the
  results of its upstreams. Subtracting from a zero in-degree is a panic (\<open>None\<close>).
\<close>

section \<open>Statuses and causes\<close>

datatype stale_status = UpToDate | Stale | MissingData

datatype stale_category = CodeCause | DataCause string

fun category_dependency :: "stale_category \<Rightarrow> string option" where
  "category_dependency (DataCause d) = Some d"
| "category_dependency CodeCause = None"

record stale_cause =
  sc_asset_key :: string
  sc_category :: stale_category
  sc_reason :: string

type_synonym stale_results = "string \<rightharpoonup> stale_status \<times> stale_cause list"

section \<open>Kahn's algorithm\<close>

definition record_by_key :: "asset_record list \<Rightarrow> string \<rightharpoonup> asset_record" where
  "record_by_key recs = fold (\<lambda>r m. m(asset_key r \<mapsto> r)) recs Map.empty"

definition upstream_list :: "(string \<times> string) list \<Rightarrow> string \<Rightarrow> string list" where
  "upstream_list edges a = map snd (filter (\<lambda>e. fst e = a) edges)"

definition downstream_list :: "(string \<times> string) list \<Rightarrow> string \<Rightarrow> string list" where
  "downstream_list edges a = map fst (filter (\<lambda>e. snd e = a) edges)"

definition init_degrees :: "asset_record list \<Rightarrow> (string \<times> string) list \<Rightarrow> (string \<times> nat) list" where
  "init_degrees recs edges =
     fold (\<lambda>(f, t) m. AList.update f ((case map_of m f of Some n \<Rightarrow> n | None \<Rightarrow> 0) + 1) m) edges
       (fold (\<lambda>r m. if map_of m (asset_key r) = None then AList.update (asset_key r) 0 m else m) recs [])"

definition init_queue :: "(string \<times> nat) list \<Rightarrow> string list" where
  "init_queue degs = sort (map fst (filter (\<lambda>(k, n). n = 0) degs))"

text \<open>The loop over the dependents of a node that has been ordered.\<close>

fun relax :: "string list \<Rightarrow> (string \<times> nat) list \<Rightarrow> string list \<Rightarrow> ((string \<times> nat) list \<times> string list) option" where
  "relax [] degs queue = Some (degs, queue)"
| "relax (d # ds) degs queue =
     (case map_of degs d of
        None \<Rightarrow> relax ds degs queue
      | Some 0 \<Rightarrow> None
      | Some (Suc n) \<Rightarrow> relax ds (AList.update d n degs) (if n = 0 then sort (queue @ [d]) else queue))"

definition degree_sum :: "(string \<times> nat) list \<Rightarrow> nat" where
  "degree_sum degs = sum_list (map snd degs)"

lemma degree_sum_update: "map_of degs d = Some (Suc n) \<Longrightarrow> degree_sum (AList.update d n degs) < degree_sum degs"
  by (induction degs) (auto simp: degree_sum_def split: if_splits)

lemma relax_decreases:
  "relax ds degs queue = Some (degs', queue') \<Longrightarrow> degree_sum degs' < degree_sum degs \<or> (degs' = degs \<and> queue' = queue)"
proof (induction ds degs queue rule: relax.induct)
  case (2 d ds degs queue)
  then show ?case using degree_sum_update[of degs d] by (fastforce split: option.splits nat.splits)
qed simp

function kahn :: "(string \<times> string) list \<Rightarrow> (string \<times> nat) list \<Rightarrow> string list \<Rightarrow> string list \<Rightarrow> string list option" where
  "kahn edges degs queue order =
     (if queue = [] then Some order
      else (case relax (downstream_list edges (last queue)) degs (butlast queue) of
              None \<Rightarrow> None
            | Some (degs', queue') \<Rightarrow> kahn edges degs' queue' (order @ [last queue])))"
  by pat_completeness auto

termination kahn
  by (relation "measures [\<lambda>(edges, degs, queue, order). degree_sum degs, \<lambda>(edges, degs, queue, order). length queue]")
     (auto dest: relax_decreases)

declare kahn.simps [simp del]

section \<open>Status of an asset\<close>

definition code_causes :: "asset_record \<Rightarrow> stale_cause list" where
  "code_causes r =
     (if code_version r \<noteq> None \<and> code_version r \<noteq> last_materialization_code_version r
      then [\<lparr>sc_asset_key = asset_key r, sc_category = CodeCause, sc_reason = ''code version changed''\<rparr>] else [])"

definition input_versions :: "asset_record \<Rightarrow> string \<rightharpoonup> string" where
  "input_versions r = fold (\<lambda>(k, v) m. m(k \<mapsto> v)) (last_input_data_versions r) Map.empty"

definition data_cause :: "asset_record \<Rightarrow> string \<Rightarrow> string \<Rightarrow> stale_cause list" where
  "data_cause r dep why =
     [\<lparr>sc_asset_key = asset_key r, sc_category = DataCause dep, sc_reason = ''upstream '' @ quoted dep @ why\<rparr>]"

definition dep_causes :: "(string \<rightharpoonup> asset_record) \<Rightarrow> stale_results \<Rightarrow> asset_record \<Rightarrow> string \<Rightarrow> stale_cause list" where
  "dep_causes rm res r dep =
     (if (case res dep of Some (st, _) \<Rightarrow> st = Stale \<or> st = MissingData | None \<Rightarrow> False)
      then data_cause r dep '' is stale''
      else (case rm dep of
              None \<Rightarrow> []
            | Some dr \<Rightarrow>
                (case (last_data_version dr, input_versions r dep) of
                   (Some cur, Some used) \<Rightarrow> (if cur \<noteq> used then data_cause r dep '' has new data version'' else [])
                 | (Some _, None) \<Rightarrow> data_cause r dep '' has data not yet consumed''
                 | _ \<Rightarrow> [])))"

definition conclude :: "stale_cause list \<Rightarrow> stale_status \<times> stale_cause list" where
  "conclude causes = (if causes = [] then UpToDate else Stale, causes)"

definition asset_status :: "(string \<rightharpoonup> asset_record) \<Rightarrow> (string \<times> string) list \<Rightarrow> stale_results \<Rightarrow> asset_record \<Rightarrow> stale_status \<times> stale_cause list" where
  "asset_status rm edges res r =
     (if last_data_version r = None then (MissingData, [])
      else conclude (code_causes r @ concat (map (dep_causes rm res r) (upstream_list edges (asset_key r)))))"

definition status_step :: "(string \<rightharpoonup> asset_record) \<Rightarrow> (string \<times> string) list \<Rightarrow> string \<Rightarrow> stale_results \<Rightarrow> stale_results" where
  "status_step rm edges a res = (case rm a of None \<Rightarrow> res | Some r \<Rightarrow> res(a \<mapsto> asset_status rm edges res r))"

definition orphan_step :: "asset_record \<Rightarrow> stale_results \<Rightarrow> stale_results" where
  "orphan_step r res =
     (if res (asset_key r) \<noteq> None then res
      else res(asset_key r \<mapsto> (if last_data_version r = None then (MissingData, []) else conclude (code_causes r))))"

definition compute_staleness :: "asset_record list \<Rightarrow> (string \<times> string) list \<Rightarrow> stale_results option" where
  "compute_staleness recs edges =
     (let degs = init_degrees recs edges
      in map_option (\<lambda>order. fold orphan_step recs (fold (status_step (record_by_key recs) edges) order Map.empty))
           (kahn edges degs (init_queue degs) []))"

section \<open>The order is topological\<close>

lemma map_of_update: "map_of (AList.update k v al) = (map_of al)(k \<mapsto> v)"
  by (simp add: update_conv')

text \<open>The edges of an asset, with multiplicity, that lead to none of the given assets.\<close>

definition open_edges :: "(string \<times> string) list \<Rightarrow> string set \<Rightarrow> string \<Rightarrow> nat" where
  "open_edges edges settled a = length (filter (\<lambda>e. fst e = a \<and> snd e \<notin> settled) edges)"

lemma relax_exact:
  assumes "\<And>d. d \<in> set ds \<Longrightarrow> \<exists>n \<ge> count_list ds d. map_of degs d = Some n" and "distinct queue" and "set queue \<inter> set ds = {}"
  shows "\<exists>degs' queue'. relax ds degs queue = Some (degs', queue') \<and>
    (\<forall>k. map_of degs' k = map_option (\<lambda>n. n - count_list ds k) (map_of degs k)) \<and> distinct queue' \<and>
    set queue' = set queue \<union> {d \<in> set ds. map_of degs d = Some (count_list ds d)}"
  using assms
proof (induction ds degs queue rule: relax.induct)
  case (1 degs queue)
  then show ?case by (auto simp: option.map_ident)
next
  case (2 d ds degs queue)
  obtain n where n: "map_of degs d = Some (Suc n)" "count_list ds d \<le> n"
    using "2.prems"(1)[of d] by (auto simp: Suc_le_eq) (metis Suc_pred count_list.simps(2) less_Suc_eq_le not_gr_zero not_less0)
  let ?degs = "AList.update d n degs" and ?queue = "if n = 0 then sort (queue @ [d]) else queue"
  have q: "distinct ?queue" "set ?queue = set queue \<union> (if n = 0 then {d} else {})" using "2.prems"(2,3) by auto
  have disj: "set ?queue \<inter> set ds = {}" using q(2) "2.prems"(3) n(2) by (auto simp: count_list_0_iff)
  have avail: "\<exists>m \<ge> count_list ds k. map_of ?degs k = Some m" if "k \<in> set ds" for k
    using "2.prems"(1)[of k] n that by (auto simp: map_of_update split: if_splits)
  obtain degs' queue' where r: "relax ds ?degs ?queue = Some (degs', queue')"
    "\<forall>k. map_of degs' k = map_option (\<lambda>n. n - count_list ds k) (map_of ?degs k)" "distinct queue'"
    "set queue' = set ?queue \<union> {d \<in> set ds. map_of ?degs d = Some (count_list ds d)}"
    using "2.IH"(2)[OF n(1) refl avail q(1) disj] by blast
  have pos: "d \<in> set ds" if "0 < count_list ds d" using that count_notin[of d ds] by fastforce
  have "relax (d # ds) degs queue = Some (degs', queue')" using r(1) n(1) by simp
  moreover have "\<forall>k. map_of degs' k = map_option (\<lambda>n. n - count_list (d # ds) k) (map_of degs k)"
    using r(2) n(1) by (auto simp: map_of_update option.map_comp)
  moreover have "set queue' = set queue \<union> {k \<in> set (d # ds). map_of degs k = Some (count_list (d # ds) k)}"
    unfolding r(4) q(2) using n by (auto simp: map_of_update count_list_0_iff intro: pos)
  ultimately show ?case using r(3) by blast
qed

definition topo_list :: "(string \<times> string) set \<Rightarrow> string list \<Rightarrow> bool" where
  "topo_list E order \<longleftrightarrow> distinct order \<and> (\<forall>pre a post t. order = pre @ a # post \<longrightarrow> (a, t) \<in> E \<longrightarrow> t \<in> set pre)"

definition kahn_ok :: "(string \<times> string) list \<Rightarrow> string set \<Rightarrow> (string \<times> nat) list \<Rightarrow> string list \<Rightarrow> string list \<Rightarrow> bool" where
  "kahn_ok edges K degs queue order \<longleftrightarrow>
     (\<forall>k. map_of degs k = (if k \<in> K then Some (open_edges edges (set order) k) else None)) \<and>
     distinct queue \<and> set queue = {k \<in> K. k \<notin> set order \<and> open_edges edges (set order) k = 0} \<and>
     set order \<subseteq> K \<and> topo_list (set edges) order"

lemma topo_list_snoc:
  assumes "topo_list E order" and "a \<notin> set order" and "\<forall>t. (a, t) \<in> E \<longrightarrow> t \<in> set order"
  shows "topo_list E (order @ [a])"
  unfolding topo_list_def
proof (intro conjI allI impI)
  show "distinct (order @ [a])" using assms(1,2) by (simp add: topo_list_def)
  fix pre b post t assume split: "order @ [a] = pre @ b # post" and e: "(b, t) \<in> E"
  show "t \<in> set pre"
  proof (cases post rule: rev_cases)
    case Nil
    then show ?thesis using split e assms(3) by simp
  next
    case (snoc post' x)
    then have "order = pre @ b # post'" using split by (metis append_Cons append_assoc butlast_snoc)
    then show ?thesis using assms(1) e unfolding topo_list_def by blast
  qed
qed

lemma count_downstream: "count_list (downstream_list edges a) k = length (filter (\<lambda>e. fst e = k \<and> snd e = a) edges)"
  by (induction edges) (auto simp: downstream_list_def)

lemma open_edges_settle:
  assumes "a \<notin> settled"
  shows "open_edges edges settled k = open_edges edges (insert a settled) k + count_list (downstream_list edges a) k"
  unfolding open_edges_def count_downstream by (induction edges) (use assms in auto)

lemma open_edges_0: "open_edges edges settled a = 0 \<longleftrightarrow> (\<forall>t. (a, t) \<in> set edges \<longrightarrow> t \<in> settled)"
  by (force simp: open_edges_def filter_empty_conv)

lemma topo_open: "topo_list (set edges) order \<Longrightarrow> k \<in> set order \<Longrightarrow> open_edges edges (set order) k = 0"
  unfolding open_edges_0 topo_list_def by (metis Un_iff set_append split_list)

lemma kahn_step:
  assumes ok: "kahn_ok edges K degs queue order" and q: "queue \<noteq> []" and closed: "set edges \<subseteq> K \<times> K"
  obtains degs' queue' where "relax (downstream_list edges (last queue)) degs (butlast queue) = Some (degs', queue')"
    and "kahn_ok edges K degs' queue' (order @ [last queue])"
proof -
  let ?a = "last queue" and ?ds = "downstream_list edges (last queue)"
  have deg: "map_of degs k = (if k \<in> K then Some (open_edges edges (set order) k) else None)" for k using ok by (simp add: kahn_ok_def)
  have queue: "set queue = {k \<in> K. k \<notin> set order \<and> open_edges edges (set order) k = 0}" "distinct queue" using ok by (auto simp: kahn_ok_def)
  have a: "?a \<in> K" "?a \<notin> set order" "open_edges edges (set order) ?a = 0" using queue(1) last_in_set[OF q] by auto
  note settle = open_edges_settle[OF a(2), of edges]
  have but: "distinct (butlast queue)" "set (butlast queue) = set queue - {?a}"
    using queue(2) q by (metis append_butlast_last_id distinct_append distinct.simps(2) distinct_butlast)
      (metis (no_types) Diff_insert_absorb append_butlast_last_id disjoint_insert(1) distinct_append list.simps(15) q queue(2) set_append Un_insert_right empty_set sup_bot_right)
  have ds: "d \<in> K \<and> 0 < open_edges edges (set order) d" if "d \<in> set ?ds" for d
    using that closed a(2) by (force simp: downstream_list_def open_edges_def filter_empty_conv)
  have avail: "\<exists>n \<ge> count_list ?ds d. map_of degs d = Some n" if "d \<in> set ?ds" for d
    using ds[OF that] settle[of d] by (simp add: deg)
  have disj: "set (butlast queue) \<inter> set ?ds = {}" using ds queue(1) but(2) by fastforce
  obtain degs' queue' where r: "relax ?ds degs (butlast queue) = Some (degs', queue')"
    "\<forall>k. map_of degs' k = map_option (\<lambda>n. n - count_list ?ds k) (map_of degs k)" "distinct queue'"
    "set queue' = set (butlast queue) \<union> {d \<in> set ?ds. map_of degs d = Some (count_list ?ds d)}"
    using relax_exact[OF avail but(1) disj] by blast
  have "map_of degs' k = (if k \<in> K then Some (open_edges edges (set (order @ [?a])) k) else None)" for k
    using r(2) settle[of k] by (simp add: deg)
  moreover have "set queue' = {k \<in> K. k \<notin> set (order @ [?a]) \<and> open_edges edges (set (order @ [?a])) k = 0}"
  proof (intro set_eqI)
    fix k
    have "k \<in> set ?ds \<longleftrightarrow> 0 < count_list ?ds k" using count_list_0_iff[of ?ds k] by auto
    moreover have "k \<in> set order \<Longrightarrow> open_edges edges (set order) k = 0" using ok topo_open by (auto simp: kahn_ok_def)
    ultimately show "k \<in> set queue' \<longleftrightarrow> k \<in> {k \<in> K. k \<notin> set (order @ [?a]) \<and> open_edges edges (set (order @ [?a])) k = 0}"
      unfolding r(4) but(2) queue(1) using settle[of k] a ds[of k] deg[of k] by auto
  qed
  moreover have "topo_list (set edges) (order @ [?a])"
    using ok a open_edges_0[of edges "set order" ?a] by (intro topo_list_snoc) (auto simp: kahn_ok_def)
  moreover have "set (order @ [?a]) \<subseteq> K" using ok a(1) by (auto simp: kahn_ok_def)
  ultimately have "kahn_ok edges K degs' queue' (order @ [?a])" unfolding kahn_ok_def using r(3) by blast
  then show thesis using that r(1) by blast
qed

lemma kahn_total:
  assumes "kahn_ok edges K degs queue order" and "set edges \<subseteq> K \<times> K"
  shows "\<exists>degs' order'. kahn edges degs queue order = Some order' \<and> kahn_ok edges K degs' [] order'"
  using assms(2,1)
proof (induction edges degs queue order rule: kahn.induct)
  case (1 edges degs queue order)
  show ?case
  proof (cases "queue = []")
    case False
    obtain degs' queue' where r: "relax (downstream_list edges (last queue)) degs (butlast queue) = Some (degs', queue')"
      "kahn_ok edges K degs' queue' (order @ [last queue])" using kahn_step[OF "1.prems"(2) False "1.prems"(1)] by blast
    from "1.IH"[OF False r(1) refl "1.prems"(1) r(2)] show ?thesis using False r(1) by (subst kahn.simps) auto
  next
    case True
    then show ?thesis using "1.prems"(2) by (subst kahn.simps) auto
  qed
qed

lemma fold_init:
  "map_of (fold (\<lambda>r m. if map_of m (asset_key r) = None then AList.update (asset_key r) 0 m else m) recs m) k =
     (if map_of m k \<noteq> None then map_of m k else if k \<in> asset_key ` set recs then Some (0 :: nat) else None)"
  by (induction recs arbitrary: m) (auto simp: map_of_update)

lemma fold_degrees:
  assumes "fst ` set edges \<subseteq> dom (map_of m)"
  shows "map_of (fold (\<lambda>(f, t) m. AList.update f ((case map_of m f of Some n \<Rightarrow> n | None \<Rightarrow> 0) + 1) m) edges m) k =
    map_option (\<lambda>n. n + open_edges edges {} k) (map_of m k)"
  using assms
proof (induction edges arbitrary: m)
  case (Cons e edges)
  obtain f t where e: "e = (f, t)" by force
  obtain n where n: "map_of m f = Some n" using Cons.prems e by auto
  have "fst ` set edges \<subseteq> dom (map_of (AList.update f (n + 1) m))" using Cons.prems by (auto simp: map_of_update)
  from Cons.IH[OF this] show ?case using n by (auto simp: e map_of_update open_edges_def option.map_comp comp_def)
qed (simp add: open_edges_def option.map_ident)

lemma init_degrees_exact:
  assumes "set edges \<subseteq> asset_key ` set recs \<times> asset_key ` set recs"
  shows "map_of (init_degrees recs edges) k = (if k \<in> asset_key ` set recs then Some (open_edges edges {} k) else None)"
proof -
  let ?m = "fold (\<lambda>r m. if map_of m (asset_key r) = None then AList.update (asset_key r) (0 :: nat) m else m) recs []"
  have m: "map_of ?m j = (if j \<in> asset_key ` set recs then Some 0 else None)" for j unfolding fold_init by simp
  have "fst ` set edges \<subseteq> dom (map_of ?m)" using assms by (auto simp: m)
  from fold_degrees[OF this, of k] show ?thesis unfolding init_degrees_def m by auto
qed

lemma distinct_degrees: "distinct (map fst (init_degrees recs edges))"
proof -
  have "distinct (map fst (fold (\<lambda>r m. if map_of m (asset_key r) = None then AList.update (asset_key r) 0 m else m) recs m))"
    if "distinct (map fst m)" for m :: "(string \<times> nat) list"
    using that by (induction recs arbitrary: m) (auto simp: distinct_update)
  moreover have "distinct (map fst (fold (\<lambda>(f, t) m. AList.update f ((case map_of m f of Some n \<Rightarrow> n | None \<Rightarrow> 0) + 1) m) edges m))"
    if "distinct (map fst m)" for m :: "(string \<times> nat) list"
    using that by (induction edges arbitrary: m) (auto simp: distinct_update)
  ultimately show ?thesis unfolding init_degrees_def by simp
qed

lemma kahn_start:
  assumes "set edges \<subseteq> asset_key ` set recs \<times> asset_key ` set recs"
  shows "kahn_ok edges (asset_key ` set recs) (init_degrees recs edges) (init_queue (init_degrees recs edges)) []"
proof -
  let ?d = "init_degrees recs edges"
  have "set (init_queue ?d) = {k. map_of ?d k = Some 0}"
    using distinct_degrees[of recs edges] by (force simp: init_queue_def)
  also have "\<dots> = {k \<in> asset_key ` set recs. open_edges edges {} k = 0}" by (auto simp: init_degrees_exact[OF assms] split: if_splits)
  finally have "set (init_queue ?d) = {k \<in> asset_key ` set recs. open_edges edges {} k = 0}" .
  moreover have "distinct (init_queue ?d)"
    using distinct_degrees[of recs edges] by (simp add: init_queue_def distinct_map_filter)
  ultimately show ?thesis using init_degrees_exact[OF assms] by (auto simp: kahn_ok_def topo_list_def)
qed

lemma acyclic_sink:
  assumes "acyclic E" and "finite S" and "S \<noteq> {}" and "finite E"
  shows "\<exists>a \<in> S. \<forall>t. (a, t) \<in> E \<longrightarrow> t \<notin> S"
proof -
  have "wf (E\<inverse>)" using assms(1,4) finite_acyclic_wf_converse by blast
  then obtain a where "a \<in> S" "\<And>y. (y, a) \<in> E\<inverse> \<Longrightarrow> y \<notin> S" using assms(3) by (meson wf_eq_minimal ex_in_conv)
  then show ?thesis by blast
qed

lemma kahn_complete:
  assumes "set edges \<subseteq> asset_key ` set recs \<times> asset_key ` set recs" and "acyclic (set edges)"
  obtains order where "kahn edges (init_degrees recs edges) (init_queue (init_degrees recs edges)) [] = Some order"
    and "topo_list (set edges) order" and "set order = asset_key ` set recs"
proof -
  let ?K = "asset_key ` set recs"
  obtain degs order where k: "kahn edges (init_degrees recs edges) (init_queue (init_degrees recs edges)) [] = Some order"
    "kahn_ok edges ?K degs [] order" using kahn_total[OF kahn_start[OF assms(1)] assms(1)] by blast
  have "?K - set order = {}"
  proof (rule ccontr)
    assume "?K - set order \<noteq> {}"
    from acyclic_sink[OF assms(2) _ this] obtain a where a: "a \<in> ?K - set order" "\<forall>t. (a, t) \<in> set edges \<longrightarrow> t \<notin> ?K - set order" by auto
    then have "\<forall>t. (a, t) \<in> set edges \<longrightarrow> t \<in> set order" using assms(1) by auto
    then have "a \<in> set []" using k(2) a(1) open_edges_0[of edges "set order" a] unfolding kahn_ok_def by blast
    then show False by simp
  qed
  then have "set order = ?K" using k(2) by (auto simp: kahn_ok_def)
  then show thesis using that k by (auto simp: kahn_ok_def)
qed

section \<open>The results are a fixpoint of the status rule\<close>

lemma record_by_key_in:
  assumes "distinct (map asset_key recs)"
  shows "record_by_key recs k = Some r \<longleftrightarrow> r \<in> set recs \<and> asset_key r = k"
proof -
  have "fold (\<lambda>r m. m(asset_key r \<mapsto> r)) recs m k = Some r \<longleftrightarrow>
      (if k \<in> asset_key ` set recs then r \<in> set recs \<and> asset_key r = k else m k = Some r)" for m
    using assms
  proof (induction recs arbitrary: m)
    case (Cons x xs)
    have "asset_key q \<noteq> asset_key x" if "q \<in> set xs" for q using Cons.prems that by (metis distinct.simps(2) image_eqI list.simps(9) set_map)
    moreover have "distinct (map asset_key xs)" using Cons.prems by simp
    moreover from this have "asset_key x \<notin> asset_key ` set xs" using Cons.prems by simp
    ultimately show ?case using Cons.IH[of "m(asset_key x \<mapsto> x)"] by (cases "k = asset_key x") auto
  qed simp
  then show ?thesis by (auto simp: record_by_key_def)
qed

lemma in_upstream_list: "d \<in> set (upstream_list edges a) \<longleftrightarrow> (a, d) \<in> set edges"
  by (force simp: upstream_list_def)

lemma asset_status_cong:
  assumes "\<And>d. (asset_key r, d) \<in> set edges \<Longrightarrow> res d = res' d"
  shows "asset_status rm edges res r = asset_status rm edges res' r"
proof -
  have "map (dep_causes rm res r) (upstream_list edges (asset_key r)) = map (dep_causes rm res' r) (upstream_list edges (asset_key r))"
    by (rule map_cong) (auto simp: dep_causes_def in_upstream_list assms)
  then show ?thesis by (simp only: asset_status_def)
qed

lemma topo_list_snocD:
  assumes "topo_list E (order @ [a])"
  shows "topo_list E order" and "a \<notin> set order" and "(a, t) \<in> E \<Longrightarrow> t \<in> set order"
    and "b \<in> set order \<Longrightarrow> (b, t) \<in> E \<Longrightarrow> t \<in> set order"
proof -
  have pre: "t \<in> set pre" if "order @ [a] = pre @ b # post" "(b, t) \<in> E" for pre b post t
    using assms that unfolding topo_list_def by blast
  have "t \<in> set pre" if "order = pre @ b # post" "(b, t) \<in> E" for pre b post t
    using pre[of pre b "post @ [a]" t] that by simp
  then show "topo_list E order" using assms unfolding topo_list_def by auto
  show "a \<notin> set order" using assms by (simp add: topo_list_def)
  show "(a, t) \<in> E \<Longrightarrow> t \<in> set order" using pre[of order a "[]" t] by simp
  show "t \<in> set order" if "b \<in> set order" "(b, t) \<in> E"
    using split_list[OF that(1)] pre[of _ b "_ @ [a]" t] that(2) by fastforce
qed

lemma status_fold:
  assumes "topo_list (set edges) order" and "\<forall>a \<in> set order. \<exists>r. rm a = Some r \<and> asset_key r = a"
  defines "R \<equiv> \<lambda>order. fold (status_step rm edges) order Map.empty"
  shows "dom (R order) = set order \<and> (\<forall>a \<in> set order. R order a = Some (asset_status rm edges (R order) (the (rm a))))"
  using assms(1,2)
proof (induction order rule: rev_induct)
  case (snoc a order)
  note topo = topo_list_snocD[OF snoc.prems(1)]
  have ih: "dom (R order) = set order" "\<forall>b \<in> set order. R order b = Some (asset_status rm edges (R order) (the (rm b)))"
    using snoc.IH[OF topo(1)] snoc.prems(2) by auto
  obtain r where r: "rm a = Some r" "asset_key r = a" using snoc.prems(2) by auto
  have R: "R (order @ [a]) = (R order)(a \<mapsto> asset_status rm edges (R order) r)" by (simp add: R_def status_step_def r(1))
  have frame: "asset_status rm edges (R (order @ [a])) q = asset_status rm edges (R order) q" if "asset_key q \<in> insert a (set order)" for q
  proof (rule asset_status_cong)
    fix d assume "(asset_key q, d) \<in> set edges"
    then have "d \<in> set order" using that topo(3,4) by blast
    then show "R (order @ [a]) d = R order d" using topo(2) by (auto simp: R)
  qed
  have "R (order @ [a]) b = Some (asset_status rm edges (R (order @ [a])) (the (rm b)))" if "b \<in> set (order @ [a])" for b
  proof (cases "b = a")
    case True
    then show ?thesis using frame[of r] r by (simp add: R)
  next
    case False
    then have b: "b \<in> set order" using that by simp
    obtain q where "rm b = Some q" "asset_key q = b" using snoc.prems(2) b by auto
    then show ?thesis using frame[of q] ih(2) b False by (simp add: R)
  qed
  moreover have "dom (R (order @ [a])) = set (order @ [a])" using ih(1) by (auto simp: R)
  ultimately show ?case by blast
qed (simp add: R_def)

lemma orphans_none: "asset_key ` set recs \<subseteq> dom res \<Longrightarrow> fold orphan_step recs res = res"
  by (induction recs) (auto simp: orphan_step_def)

lemma staleness_fixpoint:
  assumes "distinct (map asset_key recs)" and "acyclic (set edges)" and "set edges \<subseteq> asset_key ` set recs \<times> asset_key ` set recs"
  obtains R where "compute_staleness recs edges = Some R" and "dom R = asset_key ` set recs"
    and "\<And>r. r \<in> set recs \<Longrightarrow> R (asset_key r) = Some (asset_status (record_by_key recs) edges R r)"
proof -
  let ?rm = "record_by_key recs"
  obtain order where k: "kahn edges (init_degrees recs edges) (init_queue (init_degrees recs edges)) [] = Some order"
    "topo_list (set edges) order" "set order = asset_key ` set recs" using kahn_complete[OF assms(3,2)] .
  have rm: "?rm (asset_key r) = Some r" if "r \<in> set recs" for r using record_by_key_in[OF assms(1)] that by blast
  define R where "R = fold (status_step ?rm edges) order Map.empty"
  have "\<forall>a \<in> set order. \<exists>r. ?rm a = Some r \<and> asset_key r = a" using rm k(3) by auto
  from status_fold[OF k(2) this] have R: "dom R = asset_key ` set recs" "\<forall>a \<in> set order. R a = Some (asset_status ?rm edges R (the (?rm a)))"
    by (auto simp: R_def k(3))
  have "compute_staleness recs edges = Some R" using k(1) R(1) by (simp add: compute_staleness_def Let_def R_def[symmetric] orphans_none)
  moreover have "R (asset_key r) = Some (asset_status ?rm edges R r)" if "r \<in> set recs" for r using R(2) k(3) rm[OF that] that by simp
  ultimately show thesis using that R(1) by blast
qed

definition status_of :: "stale_results \<Rightarrow> string \<Rightarrow> stale_status option" where
  "status_of R a = map_option fst (R a)"

lemma concat_map_empty: "concat (map f xs) = [] \<longleftrightarrow> (\<forall>x \<in> set xs. f x = [])"
  by (induction xs) auto

lemma up_to_date_iff:
  "fst (asset_status rm edges R r) = UpToDate \<longleftrightarrow> last_data_version r \<noteq> None \<and> code_causes r = [] \<and>
     (\<forall>d. (asset_key r, d) \<in> set edges \<longrightarrow> dep_causes rm R r d = [])"
  by (auto simp: asset_status_def conclude_def concat_map_empty in_upstream_list)

text \<open>
  C12: on an acyclic graph whose assets all have a record, staleness is computed without a panic for exactly the recorded
  assets. An asset is missing exactly when it was never materialized. It is up to date exactly when it was, its code
  version, if it has one, is the one it was materialized with, and every direct upstream is itself up to date with
  a data version that is the one the asset consumed. Hence everything an up-to-date asset depends on, at any
  distance, is up to date as well.
\<close>

theorem staleness_exact:
  assumes "distinct (map asset_key recs)" and "acyclic (set edges)" and "set edges \<subseteq> asset_key ` set recs \<times> asset_key ` set recs"
  shows "\<exists>R. compute_staleness recs edges = Some R \<and> dom R = asset_key ` set recs \<and>
    (\<forall>r \<in> set recs.
      (status_of R (asset_key r) = Some MissingData \<longleftrightarrow> last_data_version r = None) \<and>
      (status_of R (asset_key r) = Some UpToDate \<longleftrightarrow> last_data_version r \<noteq> None \<and>
         (code_version r = None \<or> code_version r = last_materialization_code_version r) \<and>
         (\<forall>u \<in> set recs. (asset_key r, asset_key u) \<in> set edges \<longrightarrow>
            status_of R (asset_key u) = Some UpToDate \<and> input_versions r (asset_key u) = last_data_version u))) \<and>
    (\<forall>a d. (a, d) \<in> (set edges)\<^sup>+ \<longrightarrow> status_of R a = Some UpToDate \<longrightarrow> status_of R d = Some UpToDate)"
proof -
  obtain R where R: "compute_staleness recs edges = Some R" "dom R = asset_key ` set recs"
    "\<And>r. r \<in> set recs \<Longrightarrow> R (asset_key r) = Some (asset_status (record_by_key recs) edges R r)" using staleness_fixpoint[OF assms] by blast
  let ?rm = "record_by_key recs"
  have status: "status_of R (asset_key r) = Some (fst (asset_status ?rm edges R r))" if "r \<in> set recs" for r
    using R(3)[OF that] by (simp add: status_of_def)
  have missing: "status_of R (asset_key r) = Some MissingData \<longleftrightarrow> last_data_version r = None" if "r \<in> set recs" for r
    using status[OF that] by (auto simp: asset_status_def conclude_def)
  have dep: "dep_causes ?rm R r (asset_key u) = [] \<longleftrightarrow>
      status_of R (asset_key u) = Some UpToDate \<and> input_versions r (asset_key u) = last_data_version u"
    if "u \<in> set recs" for r u
  proof -
    have "?rm (asset_key u) = Some u" using record_by_key_in[OF assms(1)] that by blast
    then show ?thesis using status[OF that] missing[OF that] R(3)[OF that]
      by (cases "fst (asset_status ?rm edges R u)")
         (auto simp: dep_causes_def status_of_def data_cause_def split: option.splits prod.splits)
  qed
  have upto: "status_of R (asset_key r) = Some UpToDate \<longleftrightarrow> last_data_version r \<noteq> None \<and>
      (code_version r = None \<or> code_version r = last_materialization_code_version r) \<and>
      (\<forall>u \<in> set recs. (asset_key r, asset_key u) \<in> set edges \<longrightarrow>
         status_of R (asset_key u) = Some UpToDate \<and> input_versions r (asset_key u) = last_data_version u)" if "r \<in> set recs" for r
  proof -
    have "(\<forall>d. (asset_key r, d) \<in> set edges \<longrightarrow> dep_causes ?rm R r d = []) \<longleftrightarrow>
        (\<forall>u \<in> set recs. (asset_key r, asset_key u) \<in> set edges \<longrightarrow> dep_causes ?rm R r (asset_key u) = [])" using assms(3) by fastforce
    then show ?thesis using status[OF that] up_to_date_iff[of ?rm edges R r] dep by (auto simp: code_causes_def)
  qed
  have direct: "status_of R d = Some UpToDate" if e: "(a, d) \<in> set edges" and st: "status_of R a = Some UpToDate" for a d
  proof -
    obtain r u where "r \<in> set recs" "u \<in> set recs" "a = asset_key r" "d = asset_key u" using e assms(3) by blast
    then show ?thesis using upto[of r] e st by simp
  qed
  have "status_of R d = Some UpToDate" if "(a, d) \<in> (set edges)\<^sup>+" "status_of R a = Some UpToDate" for a d
    using that by (induction rule: trancl_induct) (auto intro: direct)
  then show ?thesis using R(1,2) missing upto by blast
qed

definition sample_asset :: "string \<Rightarrow> string option \<Rightarrow> (string \<times> string) list \<Rightarrow> asset_record" where
  "sample_asset k v inputs =
     \<lparr>code_location_id = ''dev'', asset_key = k, asset_tags = [], asset_kinds = [], asset_group = None, code_version = None,
      last_event_id = None, last_run_id = None, last_timestamp = None, last_data_version = v,
      last_materialization_code_version = None, last_input_data_versions = inputs, asset_pool = []\<rparr>"

theorem staleness_exact_witness:
  "\<exists>R. compute_staleness
       [sample_asset ''report'' (Some ''r1'') [(''clean'', ''c1'')], sample_asset ''clean'' (Some ''c1'') [(''raw'', ''v1'')],
        sample_asset ''raw'' (Some ''v2'') []] [(''report'', ''clean''), (''clean'', ''raw'')] = Some R \<and>
     status_of R ''report'' \<noteq> Some UpToDate"
proof -
  let ?recs = "[sample_asset ''report'' (Some ''r1'') [(''clean'', ''c1'')], sample_asset ''clean'' (Some ''c1'') [(''raw'', ''v1'')],
        sample_asset ''raw'' (Some ''v2'') []]"
  let ?edges = "[(''report'', ''clean''), (''clean'', ''raw'')]"
  have d: "distinct (map asset_key ?recs)" "set ?edges \<subseteq> asset_key ` set ?recs \<times> asset_key ` set ?recs"
    by (auto simp: sample_asset_def)
  have acyc: "acyclic (set ?edges)"
    by (rule acyclicI_order[of _ "\<lambda>k. if k = ''report'' then 2 else if k = ''clean'' then 1 else (0 :: nat)"]) auto
  obtain R where R: "compute_staleness ?recs ?edges = Some R"
    "status_of R ''clean'' = Some UpToDate \<longrightarrow> input_versions (?recs ! 1) ''raw'' = Some ''v2''"
    "\<forall>a d. (a, d) \<in> (set ?edges)\<^sup>+ \<longrightarrow> status_of R a = Some UpToDate \<longrightarrow> status_of R d = Some UpToDate"
    using staleness_exact[OF d(1) acyc d(2)] by (auto simp: sample_asset_def)
  have "status_of R ''clean'' \<noteq> Some UpToDate" using R(2) by (simp add: input_versions_def sample_asset_def)
  moreover have "(''report'', ''clean'') \<in> (set ?edges)\<^sup>+" by auto
  ultimately show ?thesis using R(1,3) by blast
qed

text \<open>
  An asset with an upstream that has no record never leaves the queue's waiting state, so that its other upstreams are
  not looked at: here \<open>report\<close> counts as up to date although it has not consumed the version of \<open>raw\<close>.
\<close>

lemma unrecorded_upstream_hides_staleness:
  "map_option (\<lambda>R. status_of R ''report'')
     (compute_staleness [sample_asset ''report'' (Some ''r1'') [(''raw'', ''v1'')], sample_asset ''raw'' (Some ''v2'') []]
        [(''report'', ''raw''), (''report'', ''external'')]) = Some (Some UpToDate)"
  by code_simp

end
