(* ===== verification/Storage_Retry.thy ===== *)
theory Storage_Retry
  imports Main
begin

text \<open>
  Retrying storage operations (\<open>rivers-core/src/storage/retry.rs\<close>). Durations are nanoseconds. The
  operation is a function of the number of earlier calls, the clock gives the time elapsed after each call;
  the floating-point growth of the backoff is a parameter. The attempt counter is a \<open>u32\<close> that wraps in
  release builds, so that the loop need not end: it is a partial function.
\<close>

record storage_retry_config =
  sr_max_retries :: nat
  sr_initial_backoff :: nat
  sr_max_backoff :: nat
  sr_max_elapsed :: "nat option"

definition default_retry_config :: storage_retry_config where
  "default_retry_config =
     \<lparr>sr_max_retries = 10, sr_initial_backoff = 100000000, sr_max_backoff = 10000000000, sr_max_elapsed = None\<rparr>"

definition CONTENDED_INITIAL_BACKOFF :: nat where
  "CONTENDED_INITIAL_BACKOFF = 250000"

definition CONTENDED_MAX_BACKOFF :: nat where
  "CONTENDED_MAX_BACKOFF = 20000000"

definition CONTENDED_MAX_ELAPSED :: nat where
  "CONTENDED_MAX_ELAPSED = 5000000000"

definition CONTENDED_MAX_RETRIES :: nat where
  "CONTENDED_MAX_RETRIES = 2 * (CONTENDED_MAX_ELAPSED div 1000000) div (CONTENDED_MAX_BACKOFF div 1000000) + 16"

definition contended :: "storage_retry_config \<Rightarrow> storage_retry_config" where
  "contended c =
     \<lparr>sr_max_retries = max (sr_max_retries c) CONTENDED_MAX_RETRIES, sr_initial_backoff = CONTENDED_INITIAL_BACKOFF,
      sr_max_backoff = min CONTENDED_MAX_BACKOFF (sr_max_backoff c), sr_max_elapsed = Some CONTENDED_MAX_ELAPSED\<rparr>"

definition out_of_time :: "storage_retry_config \<Rightarrow> nat \<Rightarrow> bool" where
  "out_of_time c elapsed = (case sr_max_elapsed c of Some cap \<Rightarrow> cap \<le> elapsed | None \<Rightarrow> False)"

text \<open>The result, the number of calls made and the backoffs slept before jitter.\<close>

partial_function (option) retry_loop ::
  "storage_retry_config \<Rightarrow> ('e \<Rightarrow> bool) \<Rightarrow> (nat \<Rightarrow> 'e + 'v) \<Rightarrow> (nat \<Rightarrow> nat) \<Rightarrow> (nat \<Rightarrow> nat) \<Rightarrow> nat \<Rightarrow> nat \<Rightarrow> nat \<Rightarrow> nat list \<Rightarrow>
   (('e + 'v) \<times> nat \<times> nat list) option" where
  "retry_loop c retryable f elapsed grow calls attempts backoff slept =
     (case f calls of
        Inr v \<Rightarrow> Some (Inr v, calls + 1, slept)
      | Inl e \<Rightarrow>
          (if \<not> retryable e then Some (Inl e, calls + 1, slept)
           else (let attempts' = (attempts + 1) mod 2 ^ 32
                 in if attempts' > sr_max_retries c \<or> out_of_time c (elapsed calls) then Some (Inl e, calls + 1, slept)
                    else retry_loop c retryable f elapsed grow (calls + 1) attempts' (grow backoff) (slept @ [backoff]))))"

definition with_retry_if ::
  "storage_retry_config \<Rightarrow> ('e \<Rightarrow> bool) \<Rightarrow> (nat \<Rightarrow> 'e + 'v) \<Rightarrow> (nat \<Rightarrow> nat) \<Rightarrow> (nat \<Rightarrow> nat) \<Rightarrow> (('e + 'v) \<times> nat \<times> nat list) option" where
  "with_retry_if c retryable f elapsed grow = retry_loop c retryable f elapsed grow 0 0 (sr_initial_backoff c) []"

section \<open>The loop ends\<close>

text \<open>A call after which the loop goes on.\<close>

definition goes_on :: "storage_retry_config \<Rightarrow> ('e \<Rightarrow> bool) \<Rightarrow> (nat \<Rightarrow> 'e + 'v) \<Rightarrow> (nat \<Rightarrow> nat) \<Rightarrow> nat \<Rightarrow> bool" where
  "goes_on c retryable f elapsed n \<longleftrightarrow>
     (\<exists>e. f n = Inl e \<and> retryable e) \<and> n < sr_max_retries c \<and> \<not> out_of_time c (elapsed n)"

lemma retry_loop_ends:
  assumes "sr_max_retries c < 2 ^ 32 - 1" and "n \<le> sr_max_retries c"
  shows "\<exists>m \<ge> n. m \<le> sr_max_retries c \<and> (\<forall>i. n \<le> i \<longrightarrow> i < m \<longrightarrow> goes_on c retryable f elapsed i) \<and> \<not> goes_on c retryable f elapsed m \<and>
    retry_loop c retryable f elapsed grow n n b slept = Some (f m, m + 1, slept @ map (\<lambda>i. (grow ^^ i) b) [0..<m - n])"
  using assms(2)
proof (induction "sr_max_retries c - n" arbitrary: n b slept)
  case 0
  then have "n = sr_max_retries c" by simp
  moreover from this have "(n + 1) mod 2 ^ 32 = n + 1" using assms(1) by simp
  ultimately show ?case
    by (intro exI[of _ n]) (subst retry_loop.simps, auto simp: goes_on_def Let_def split: sum.splits)
next
  case (Suc k)
  then have small: "n < sr_max_retries c" "(n + 1) mod 2 ^ 32 = n + 1" using assms(1) by auto
  show ?case
  proof (cases "goes_on c retryable f elapsed n")
    case False
    then show ?thesis using small
      by (intro exI[of _ n]) (subst retry_loop.simps, auto simp: goes_on_def Let_def split: sum.splits)
  next
    case True
    have "k = sr_max_retries c - (n + 1)" "n + 1 \<le> sr_max_retries c" using Suc.hyps(2) small by auto
    from Suc.hyps(1)[OF this, of "grow b" "slept @ [b]"] obtain m where m: "n + 1 \<le> m" "m \<le> sr_max_retries c"
      "\<forall>i. n + 1 \<le> i \<longrightarrow> i < m \<longrightarrow> goes_on c retryable f elapsed i" "\<not> goes_on c retryable f elapsed m"
      "retry_loop c retryable f elapsed grow (n + 1) (n + 1) (grow b) (slept @ [b]) =
         Some (f m, m + 1, (slept @ [b]) @ map (\<lambda>i. (grow ^^ i) (grow b)) [0..<m - (n + 1)])" by blast
    have step: "retry_loop c retryable f elapsed grow n n b slept = retry_loop c retryable f elapsed grow (n + 1) (n + 1) (grow b) (slept @ [b])"
      using True small by (subst retry_loop.simps) (auto simp: goes_on_def Let_def)
    have "[0..<m - n] = 0 # map Suc [0..<m - (n + 1)]" using m(1) by (metis Suc_diff_Suc Suc_eq_plus1 Suc_le_lessD map_Suc_upt upt_conv_Cons zero_less_Suc)
    then have "map (\<lambda>i. (grow ^^ i) b) [0..<m - n] = b # map (\<lambda>i. (grow ^^ i) (grow b)) [0..<m - (n + 1)]"
      by (simp add: funpow_swap1)
    moreover have "goes_on c retryable f elapsed i" if "n \<le> i" "i < m" for i using that True m(3) by (cases "i = n") auto
    ultimately show ?thesis using m step by (intro exI[of _ m]) auto
  qed
qed

text \<open>
  C38: retrying always ends. For every operation, clock and predicate, and every retry limit below the largest \<open>u32\<close>,
  the loop returns after at most one call more than the limit, and what it returns is the answer of its last
  call: the first that succeeded, failed for good, used up the retries or came back after the time was over. Each
  call before it failed with a retryable error.
\<close>

theorem retry_returns:
  assumes "sr_max_retries c < 2 ^ 32 - 1"
  shows "\<exists>m slept. m \<le> sr_max_retries c \<and> with_retry_if c retryable f elapsed grow = Some (f m, m + 1, slept) \<and> length slept = m \<and>
    (\<forall>i < m. \<exists>e. f i = Inl e \<and> retryable e \<and> \<not> out_of_time c (elapsed i)) \<and>
    ((\<exists>v. f m = Inr v) \<or> (\<exists>e. f m = Inl e \<and> (\<not> retryable e \<or> m = sr_max_retries c \<or> out_of_time c (elapsed m))))"
proof -
  obtain m where m: "m \<le> sr_max_retries c" "\<forall>i < m. goes_on c retryable f elapsed i" "\<not> goes_on c retryable f elapsed m"
    "retry_loop c retryable f elapsed grow 0 0 (sr_initial_backoff c) [] = Some (f m, m + 1, map (\<lambda>i. (grow ^^ i) (sr_initial_backoff c)) [0..<m])"
    using retry_loop_ends[OF assms, of 0 retryable f elapsed grow "sr_initial_backoff c" "[]"] by auto
  have "(\<exists>v. f m = Inr v) \<or> (\<exists>e. f m = Inl e \<and> (\<not> retryable e \<or> m = sr_max_retries c \<or> out_of_time c (elapsed m)))"
    using m(1,3) by (cases "f m") (auto simp: goes_on_def)
  then show ?thesis using m unfolding with_retry_if_def goes_on_def by fastforce
qed

theorem retry_returns_witness:
  "\<exists>slept. with_retry_if default_retry_config (\<lambda>e. e = ''conflict'')
     (\<lambda>n. if n < 2 then Inl ''conflict'' else Inr ''ok'') (\<lambda>n. n) (\<lambda>b. 2 * b) = Some (Inr ''ok'', 3, slept)"
proof -
  let ?f = "\<lambda>n. if n < 2 then Inl ''conflict'' else Inr ''ok''" and ?c = default_retry_config
  have "sr_max_retries ?c < 2 ^ 32 - 1" by (simp add: default_retry_config_def)
  from retry_returns[OF this, of "\<lambda>e. e = ''conflict''" ?f "\<lambda>n. n" "\<lambda>b. 2 * b"] obtain m slept where
    m: "with_retry_if ?c (\<lambda>e. e = ''conflict'') ?f (\<lambda>n. n) (\<lambda>b. 2 * b) = Some (?f m, m + 1, slept)"
    "\<forall>i < m. \<exists>e. ?f i = Inl e" "(\<exists>v. ?f m = Inr v) \<or> (\<exists>e. ?f m = Inl e \<and> (e \<noteq> ''conflict'' \<or> m = 10))"
    by (auto simp: default_retry_config_def out_of_time_def)
  have "\<not> 2 < m" using m(2) by (auto dest: spec[of _ 2])
  moreover have "\<not> m < 2" using m(3) by (auto split: if_splits)
  ultimately have "m = 2" by simp
  then show ?thesis using m(1) by auto
qed

section \<open>The budget of a contended operation\<close>

lemma backoff_floor:
  assumes "\<And>b. min cap (2 * b) \<le> grow b"
  shows "min cap (2 ^ i * b) \<le> (grow ^^ i) (b :: nat)"
proof (induction i)
  case (Suc i)
  have "min cap (2 ^ Suc i * b) \<le> min cap (2 * (grow ^^ i) b)" using Suc by (auto simp: min_def split: if_splits)
  also have "\<dots> \<le> (grow ^^ Suc i) b" using assms[of "(grow ^^ i) b"] by simp
  finally show ?case .
qed simp

lemma contended_waits:
  assumes "\<And>b. min CONTENDED_MAX_BACKOFF (2 * b) \<le> grow b" and "CONTENDED_MAX_RETRIES \<le> m"
  shows "CONTENDED_MAX_ELAPSED \<le> (\<Sum>i < m. (grow ^^ i) CONTENDED_INITIAL_BACKOFF div 2)"
proof -
  let ?w = "\<lambda>i. (grow ^^ i) CONTENDED_INITIAL_BACKOFF div 2"
  have m: "516 \<le> m" using assms(2) by (simp add: CONTENDED_MAX_RETRIES_def CONTENDED_MAX_ELAPSED_def CONTENDED_MAX_BACKOFF_def)
  have w: "10000000 \<le> ?w i" if "i \<in> {7..<m}" for i
  proof -
    have "(2 :: nat) ^ 7 \<le> 2 ^ i" using that by (intro power_increasing) auto
    then have "CONTENDED_MAX_BACKOFF \<le> 2 ^ i * CONTENDED_INITIAL_BACKOFF"
      by (simp add: CONTENDED_MAX_BACKOFF_def CONTENDED_INITIAL_BACKOFF_def)
    then have "CONTENDED_MAX_BACKOFF \<le> (grow ^^ i) CONTENDED_INITIAL_BACKOFF" using backoff_floor[OF assms(1), of i CONTENDED_INITIAL_BACKOFF] by simp
    then show ?thesis by (simp add: CONTENDED_MAX_BACKOFF_def)
  qed
  have "CONTENDED_MAX_ELAPSED \<le> (\<Sum>i \<in> {7..<m}. 10000000)" using m by (simp add: CONTENDED_MAX_ELAPSED_def)
  also have "\<dots> \<le> (\<Sum>i \<in> {7..<m}. ?w i)" by (rule sum_mono[OF w])
  also have "\<dots> \<le> (\<Sum>i < m. ?w i)" by (rule sum_mono2) auto
  finally show ?thesis .
qed



end
