(* ===== verification/Json_Text.thy ===== *)
theory Json_Text
  imports Prelude
begin

text \<open>
  JSON text tooling of the config editor (\<open>rivers-ui/src/json_text.rs\<close>): the tokenizer, the parser that
  keeps a spanned tree past errors, and the caret context. A text is its UTF-8 bytes and offsets are bytes;
  slicing off a character boundary is a panic (\<open>None\<close>). Index loops over the bytes are recursion on the
  remaining bytes. The value of a number is left to the parameter \<open>num\<close> (the standard library's
  floating-point parser and the test for a fractional part). The parser has fuel; running out of it is \<open>None\<close>.
\<close>

section \<open>UTF-8\<close>

text \<open>Continuation bytes, and the length of a character by its first byte.\<close>

definition is_cont :: "char \<Rightarrow> bool" where
  "is_cont c \<longleftrightarrow> 128 \<le> (of_char c :: nat) \<and> of_char c < (192 :: nat)"

definition char_len :: "char \<Rightarrow> nat" where
  "char_len c = (let b = of_char c in if b < (192 :: nat) then 1 else if b < 224 then 2 else if b < 240 then 3 else 4)"

definition boundary :: "string \<Rightarrow> nat \<Rightarrow> bool" where
  "boundary text i \<longleftrightarrow> i = length text \<or> (i < length text \<and> \<not> is_cont (text ! i))"

definition slice :: "string \<Rightarrow> nat \<Rightarrow> nat \<Rightarrow> string option" where
  "slice text a b = (if a \<le> b \<and> boundary text a \<and> boundary text b then Some (take (b - a) (drop a text)) else None)"

section \<open>Tokens\<close>

record span =
  sp_start :: nat
  sp_end :: nat

definition mk_span :: "nat \<Rightarrow> nat \<Rightarrow> span" where
  "mk_span a b = \<lparr>sp_start = a, sp_end = b\<rparr>"

datatype token_kind =
  LBrace | RBrace | LBracket | RBracket | Colon | Comma | KeyTok | StrTok | StrOpen | NumTok | BoolTok | NullTok | Space | Invalid

record token =
  tk_kind :: token_kind
  tk_span :: span

abbreviation quote_char :: char where
  "quote_char \<equiv> CHR 0x22"

abbreviation backslash :: char where
  "backslash \<equiv> CHR 0x5C"

abbreviation newline :: char where
  "newline \<equiv> CHR 0x0A"

definition is_ws :: "char \<Rightarrow> bool" where
  "is_ws c \<longleftrightarrow> c \<in> {CHR '' '', CHR 0x09, newline, CHR 0x0D}"

definition in_range :: "char \<Rightarrow> char \<Rightarrow> char \<Rightarrow> bool" where
  "in_range lo hi c \<longleftrightarrow> of_char lo \<le> (of_char c :: nat) \<and> of_char c \<le> (of_char hi :: nat)"

abbreviation is_digit :: "char \<Rightarrow> bool" where
  "is_digit \<equiv> in_range CHR ''0'' CHR ''9''"

definition is_num_char :: "char \<Rightarrow> bool" where
  "is_num_char c \<longleftrightarrow> is_digit c \<or> c \<in> set ''.eE+-''"

definition is_word_start :: "char \<Rightarrow> bool" where
  "is_word_start c \<longleftrightarrow> in_range CHR ''a'' CHR ''z'' c \<or> in_range CHR ''A'' CHR ''Z'' c \<or> c = CHR ''_''"

text \<open>How many of the bytes after an opening quote belong to the string, and whether it is closed.\<close>

fun string_end :: "string \<Rightarrow> nat \<times> bool" where
  "string_end [] = (0, False)"
| "string_end [c] = (if c = quote_char then (1, True) else if c = newline then (0, False) else (1, False))"
| "string_end (c # d # bs) =
     (if c = quote_char then (1, True)
      else if c = backslash then (case string_end bs of (n, closed) \<Rightarrow> (n + 2, closed))
      else if c = newline then (0, False)
      else (case string_end (d # bs) of (n, closed) \<Rightarrow> (n + 1, closed)))"

text \<open>The kind and length of the token at the start of a non-empty rest.\<close>

definition scan :: "string \<Rightarrow> (token_kind \<times> nat) option" where
  "scan rest =
     (let c = hd rest
      in if is_ws c then Some (Space, length (takeWhile is_ws rest))
         else if c = CHR ''{'' then Some (LBrace, 1)
         else if c = CHR ''}'' then Some (RBrace, 1)
         else if c = CHR ''['' then Some (LBracket, 1)
         else if c = CHR '']'' then Some (RBracket, 1)
         else if c = CHR '':'' then Some (Colon, 1)
         else if c = CHR '','' then Some (Comma, 1)
         else if c = quote_char then (case string_end (tl rest) of (n, closed) \<Rightarrow> Some (if closed then StrTok else StrOpen, n + 1))
         else if c = CHR ''-'' \<or> is_digit c then Some (NumTok, 1 + length (takeWhile is_num_char (tl rest)))
         else if is_word_start c
         then (let n = length (takeWhile (\<lambda>c. is_word_start c \<or> is_digit c) rest)
               in map_option (\<lambda>w. (if w = ''true'' \<or> w = ''false'' then BoolTok else if w = ''null'' then NullTok else Invalid, n))
                    (slice rest 0 n))
         else if is_cont c then None
         else Some (Invalid, char_len c))"

lemma scan_pos: "scan rest = Some (k, n) \<Longrightarrow> rest \<noteq> [] \<Longrightarrow> 0 < n"
  by (cases rest) (auto simp: scan_def Let_def char_len_def split: if_splits prod.splits)

function tokens_from :: "nat \<Rightarrow> string \<Rightarrow> token list option" where
  "tokens_from i rest =
     (if rest = [] then Some []
      else (case scan rest of
              None \<Rightarrow> None
            | Some (k, n) \<Rightarrow> map_option ((#) \<lparr>tk_kind = k, tk_span = mk_span i (i + n)\<rparr>) (tokens_from (i + n) (drop n rest))))"
  by pat_completeness auto

termination tokens_from
  by (relation "measure (\<lambda>(i, rest). length rest)") (auto dest: scan_pos)

declare tokens_from.simps [simp del]

text \<open>The backward pass: a string followed by a colon is a key.\<close>

fun mark_keys :: "token list \<Rightarrow> token list \<times> token_kind option" where
  "mark_keys [] = ([], None)"
| "mark_keys (t # ts) =
     (case mark_keys ts of
        (ts', next_kind) \<Rightarrow>
          (let t' = (if tk_kind t = StrTok \<and> next_kind = Some Colon then t\<lparr>tk_kind := KeyTok\<rparr> else t)
           in (t' # ts', if tk_kind t' \<noteq> Space then Some (tk_kind t') else next_kind)))"

definition tokenize :: "string \<Rightarrow> token list option" where
  "tokenize text = map_option (fst \<circ> mark_keys) (tokens_from 0 text)"

section \<open>Literals\<close>

definition hex_value :: "char \<Rightarrow> nat option" where
  "hex_value c =
     (if is_digit c then Some (of_char c - 48)
      else if in_range CHR ''a'' CHR ''f'' c then Some (of_char c - 87)
      else if in_range CHR ''A'' CHR ''F'' c then Some (of_char c - 55)
      else None)"

fun hex4 :: "string \<Rightarrow> (nat \<times> string) option" where
  "hex4 (a # b # c # d # cs) =
     Option.bind (hex_value a) (\<lambda>a. Option.bind (hex_value b) (\<lambda>b. Option.bind (hex_value c) (\<lambda>c.
       Option.bind (hex_value d) (\<lambda>d. Some (((a * 16 + b) * 16 + c) * 16 + d, cs)))))"
| "hex4 _ = None"

text \<open>\<open>char::from_u32\<close> and the UTF-8 encoding of the character.\<close>

definition encode_char :: "nat \<Rightarrow> string option" where
  "encode_char n =
     (if (0xD800 \<le> n \<and> n < 0xE000) \<or> 0x110000 \<le> n then None
      else if n < 0x80 then Some [char_of n]
      else if n < 0x800 then Some [char_of (0xC0 + n div 64), char_of (0x80 + n mod 64)]
      else if n < 0x10000 then Some [char_of (0xE0 + n div 4096), char_of (0x80 + (n div 64) mod 64), char_of (0x80 + n mod 64)]
      else Some [char_of (0xF0 + n div 262144), char_of (0x80 + (n div 4096) mod 64), char_of (0x80 + (n div 64) mod 64),
                 char_of (0x80 + n mod 64)])"

definition simple_escape :: "char \<Rightarrow> char option" where
  "simple_escape c = map_of [(quote_char, quote_char), (backslash, backslash), (CHR ''/'', CHR ''/''), (CHR ''b'', CHR 0x08),
     (CHR ''f'', CHR 0x0C), (CHR ''n'', newline), (CHR ''r'', CHR 0x0D), (CHR ''t'', CHR 0x09)] c"

text \<open>An escaped character after the backslash, and what is left.\<close>

definition unescape_unicode :: "string \<Rightarrow> (string \<times> string) option" where
  "unescape_unicode cs =
     Option.bind (hex4 cs) (\<lambda>(hi, cs).
       if 0xD800 \<le> hi \<and> hi < 0xDC00
       then (case cs of
               c # d # cs' \<Rightarrow>
                 (if c \<noteq> backslash \<or> d \<noteq> CHR ''u'' then None
                  else Option.bind (hex4 cs') (\<lambda>(lo, cs'').
                         if \<not> (0xDC00 \<le> lo \<and> lo < 0xE000) then None
                         else map_option (\<lambda>s. (s, cs'')) (encode_char (0x10000 + (hi - 0xD800) * 1024 + (lo - 0xDC00)))))
             | _ \<Rightarrow> None)
       else map_option (\<lambda>s. (s, cs)) (encode_char hi))"

lemma hex4_shorter: "hex4 cs = Some (n, cs') \<Longrightarrow> length cs' < length cs"
  by (cases cs rule: hex4.cases) (auto simp: bind_eq_Some_conv)

lemma unescape_unicode_shorter: "unescape_unicode cs = Some (s, cs') \<Longrightarrow> length cs' < length cs"
  by (auto simp: unescape_unicode_def bind_eq_Some_conv split: if_splits list.splits dest!: hex4_shorter)

function unescape :: "string \<Rightarrow> string option" where
  "unescape [] = Some []"
| "unescape (c # cs) =
     (if c \<noteq> backslash then map_option ((#) c) (unescape cs)
      else (case cs of
              [] \<Rightarrow> None
            | d # ds \<Rightarrow>
                (case simple_escape d of
                   Some e \<Rightarrow> map_option ((#) e) (unescape ds)
                 | None \<Rightarrow>
                     (if d = CHR ''u''
                      then (case unescape_unicode ds of None \<Rightarrow> None | Some (s, rest) \<Rightarrow> map_option ((@) s) (unescape rest))
                      else None))))"
  by pat_completeness auto

termination unescape
  by (relation "measure length") (auto dest: unescape_unicode_shorter)

text \<open>The grammar of a number literal: each part consumes what it can.\<close>

definition digits1 :: "string \<Rightarrow> string option" where
  "digits1 cs = (if takeWhile is_digit cs = [] then None else Some (dropWhile is_digit cs))"

definition int_part :: "string \<Rightarrow> string option" where
  "int_part cs =
     (case cs of
        [] \<Rightarrow> None
      | c # cs' \<Rightarrow> (if c = CHR ''0'' then Some cs' else if in_range CHR ''1'' CHR ''9'' c then Some (dropWhile is_digit cs) else None))"

definition number_literal :: "string \<Rightarrow> bool" where
  "number_literal raw =
     (case int_part (if raw \<noteq> [] \<and> hd raw = CHR ''-'' then tl raw else raw) of
        None \<Rightarrow> False
      | Some cs \<Rightarrow>
          (case (case cs of c # cs' \<Rightarrow> (if c = CHR ''.'' then digits1 cs' else Some cs) | [] \<Rightarrow> Some cs) of
             None \<Rightarrow> False
           | Some cs \<Rightarrow>
               (case cs of
                  c # cs' \<Rightarrow>
                    (if c = CHR ''e'' \<or> c = CHR ''E''
                     then digits1 (if cs' \<noteq> [] \<and> (hd cs' = CHR ''+'' \<or> hd cs' = CHR ''-'') then tl cs' else cs') = Some []
                     else False)
                | [] \<Rightarrow> True)))"

definition number :: "(string \<Rightarrow> ('f \<times> bool) option) \<Rightarrow> string \<Rightarrow> ('f \<times> bool) option" where
  "number num raw = (if number_literal raw then num raw else None)"

end
