(* ===== verification/Json_Parser.thy ===== *)
theory Json_Parser
  imports Json_Text
begin

text \<open>
  The parser of \<open>rivers-ui/src/json_text.rs\<close> that goes on past errors and keeps the first one, and the caret context for
  completions. The parser's position is the list of tokens from it on. The three mutually recursive methods carry fuel,
  of which \<open>parse\<close> gives two units per token and two more.
\<close>

section \<open>Trees\<close>

datatype 'f json_node =
    NObject span "'f entry list" bool
  | NArray span "'f json_node list" bool
  | NStr span string
  | NNum span 'f bool
  | NBool span bool
  | NNull span
  | NMissing span
and 'f entry = Entry (e_key: string) (e_key_span: span) (e_colon: "span option") (e_value: "'f json_node")

fun node_span :: "'f json_node \<Rightarrow> span" where
  "node_span (NObject sp _ _) = sp"
| "node_span (NArray sp _ _) = sp"
| "node_span (NStr sp _) = sp"
| "node_span (NNum sp _ _) = sp"
| "node_span (NBool sp _) = sp"
| "node_span (NNull sp) = sp"
| "node_span (NMissing sp) = sp"

fun is_container :: "'f json_node \<Rightarrow> bool" where
  "is_container (NObject _ _ _) = True"
| "is_container (NArray _ _ _) = True"
| "is_container _ = False"

fun node_closed :: "'f json_node \<Rightarrow> bool" where
  "node_closed (NObject _ _ closed) = closed"
| "node_closed (NArray _ _ closed) = closed"
| "node_closed _ = True"

definition entry_end :: "'f entry \<Rightarrow> nat" where
  "entry_end e = max (sp_end (node_span (e_value e))) (sp_end (e_key_span e))"

record issue =
  is_span :: span
  is_message :: string

record 'f parsed =
  pd_root :: "'f json_node option"
  pd_error :: "issue option"

section \<open>The parser\<close>

abbreviation in_quotes :: "string \<Rightarrow> string" where
  "in_quotes s \<equiv> [CHR 0x27] @ s @ [CHR 0x27]"

record parser =
  p_text :: string
  p_rest :: "token list"
  p_error :: "issue option"

abbreviation span_here :: "nat \<Rightarrow> span" where
  "span_here i \<equiv> mk_span i i"

definition eof :: "parser \<Rightarrow> span" where
  "eof p = span_here (length (p_text p))"

definition here :: "parser \<Rightarrow> span" where
  "here p = (case p_rest p of [] \<Rightarrow> eof p | t # _ \<Rightarrow> tk_span t)"

definition fail :: "span \<Rightarrow> string \<Rightarrow> parser \<Rightarrow> parser" where
  "fail sp msg p = (if p_error p = None then p\<lparr>p_error := Some \<lparr>is_span = sp, is_message = msg\<rparr>\<rparr> else p)"

definition p_bump :: "parser \<Rightarrow> parser" where
  "p_bump p = p\<lparr>p_rest := tl (p_rest p)\<rparr>"

definition raw :: "parser \<Rightarrow> span \<Rightarrow> string option" where
  "raw p sp = slice (p_text p) (sp_start sp) (sp_end sp)"

definition string_body :: "parser \<Rightarrow> token \<Rightarrow> string option" where
  "string_body p tok =
     Option.bind (raw p (tk_span tok)) (\<lambda>r.
       if tk_kind tok = StrOpen then slice r 1 (length r)
       else if length r = 0 then None else slice r 1 (length r - 1))"

definition parse_string :: "token \<Rightarrow> parser \<Rightarrow> (string \<times> parser) option" where
  "parse_string tok p =
     map_option (\<lambda>body.
       (let p = (if tk_kind tok = StrOpen then fail (tk_span tok) ''Unterminated string'' p else p)
        in case unescape body of
             Some v \<Rightarrow> (v, p)
           | None \<Rightarrow> (body, fail (tk_span tok) ''Invalid escape in string'' p)))
       (string_body p tok)"

abbreviation is_string :: "token_kind \<Rightarrow> bool" where
  "is_string k \<equiv> k = KeyTok \<or> k = StrTok \<or> k = StrOpen"

definition starts_value :: "token_kind \<Rightarrow> bool" where
  "starts_value k \<longleftrightarrow> k \<in> {LBrace, LBracket, NumTok, BoolTok, NullTok}"

text \<open>The values that are one token; the token has been consumed.\<close>

definition parse_scalar :: "(string \<Rightarrow> ('f \<times> bool) option) \<Rightarrow> token \<Rightarrow> parser \<Rightarrow> ('f json_node \<times> parser) option" where
  "parse_scalar num tok p =
     (let sp = tk_span tok
      in if is_string (tk_kind tok) then map_option (\<lambda>(v, p). (NStr sp v, p)) (parse_string tok p)
         else if tk_kind tok = NumTok
         then map_option (\<lambda>r. case number num r of
                Some (v, whole) \<Rightarrow> (NNum sp v whole, p)
              | None \<Rightarrow> (NMissing sp, fail sp ''Invalid number'' p)) (raw p sp)
         else if tk_kind tok = BoolTok then map_option (\<lambda>r. (NBool sp (r = ''true''), p)) (raw p sp)
         else if tk_kind tok = NullTok then Some (NNull sp, p)
         else Some (NMissing sp, fail sp ''Unexpected text'' p))"

text \<open>A key up to its colon, where \<open>tok\<close> is the next token.\<close>

definition parse_key :: "token \<Rightarrow> string set \<Rightarrow> bool \<Rightarrow> span option \<Rightarrow> parser \<Rightarrow> (string \<times> span option \<times> parser) option" where
  "parse_key tok seen first comma p =
     (let p = (if \<not> first \<and> comma = None then fail (tk_span tok) (''Expected '' @ in_quotes '','' @ '' or '' @ in_quotes ''}'') p else p)
      in map_option (\<lambda>(key, p).
           (let p = (if key \<in> seen then fail (tk_span tok) (''Duplicate key '' @ in_quotes key) p else p)
            in case p_rest p of
                 c # _ \<Rightarrow> (if tk_kind c = Colon then (key, Some (tk_span c), p_bump p)
                           else (key, None, fail (here p) (''Expected '' @ in_quotes '':'') p))
               | [] \<Rightarrow> (key, None, fail (here p) (''Expected '' @ in_quotes '':'') p)))
           (parse_string tok (p_bump p)))"

definition take_comma :: "parser \<Rightarrow> span option \<times> parser" where
  "take_comma p =
     (case p_rest p of
        c # _ \<Rightarrow> (if tk_kind c = Comma then (Some (tk_span c), p_bump p) else (None, p))
      | [] \<Rightarrow> (None, p))"

definition missing_or :: "bool \<Rightarrow> span option \<Rightarrow> string \<Rightarrow> string \<Rightarrow> string" where
  "missing_or first comma what close =
     (if first \<or> comma \<noteq> None then what else ''Expected '' @ in_quotes '','' @ '' or '' @ in_quotes close)"

definition no_trailing :: "span option \<Rightarrow> parser \<Rightarrow> parser" where
  "no_trailing comma p = (case comma of Some c \<Rightarrow> fail c ''Trailing comma'' p | None \<Rightarrow> p)"

fun parse_value :: "(string \<Rightarrow> ('f \<times> bool) option) \<Rightarrow> nat \<Rightarrow> parser \<Rightarrow> ('f json_node \<times> parser) option"
  and parse_object :: "(string \<Rightarrow> ('f \<times> bool) option) \<Rightarrow> nat \<Rightarrow> token \<Rightarrow> 'f entry list \<Rightarrow> string set \<Rightarrow> bool \<Rightarrow> span option \<Rightarrow> parser \<Rightarrow>
    ('f json_node \<times> parser) option"
  and parse_array :: "(string \<Rightarrow> ('f \<times> bool) option) \<Rightarrow> nat \<Rightarrow> token \<Rightarrow> 'f json_node list \<Rightarrow> bool \<Rightarrow> span option \<Rightarrow> parser \<Rightarrow>
    ('f json_node \<times> parser) option"
where
  "parse_value num 0 p = None"
| "parse_value num (Suc n) p =
     (case p_rest p of
        [] \<Rightarrow> Some (NMissing (eof p), fail (eof p) ''Expected a value'' p)
      | tok # _ \<Rightarrow>
          (if tk_kind tok = LBrace then parse_object num n tok [] {} True None (p_bump p)
           else if tk_kind tok = LBracket then parse_array num n tok [] True None (p_bump p)
           else if tk_kind tok \<in> {RBrace, RBracket, Colon, Comma, Space}
           then Some (NMissing (span_here (sp_start (tk_span tok))), fail (tk_span tok) ''Expected a value'' p)
           else parse_scalar num tok (p_bump p)))"
| "parse_object num 0 op_tok es seen first comma p = None"
| "parse_object num (Suc n) op_tok es seen first comma p =
     (case p_rest p of
        [] \<Rightarrow> Some (NObject (mk_span (sp_start (tk_span op_tok)) (length (p_text p))) es False,
                    fail (eof p) (missing_or first comma ''Expected a key'' ''}'') p)
      | tok # _ \<Rightarrow>
          (if tk_kind tok = RBrace
           then Some (NObject (mk_span (sp_start (tk_span op_tok)) (sp_end (tk_span tok))) es True, p_bump (no_trailing comma p))
           else if is_string (tk_kind tok)
           then (case parse_key tok seen first comma p of
                   None \<Rightarrow> None
                 | Some (key, colon, p) \<Rightarrow>
                     (case (if colon \<noteq> None \<or> (case p_rest p of t # _ \<Rightarrow> starts_value (tk_kind t) | [] \<Rightarrow> False)
                            then parse_value num n p else Some (NMissing (span_here (sp_start (here p))), p)) of
                        None \<Rightarrow> None
                      | Some (v, p) \<Rightarrow>
                          (case take_comma p of
                             (comma, p) \<Rightarrow>
                               parse_object num n op_tok (es @ [Entry key (tk_span tok) colon v]) (insert key seen) False comma p)))
           else parse_object num n op_tok es seen first comma
                  (p_bump (fail (tk_span tok) (missing_or first comma ''Expected a key'' ''}'') p))))"
| "parse_array num 0 op_tok xs first comma p = None"
| "parse_array num (Suc n) op_tok xs first comma p =
     (case p_rest p of
        [] \<Rightarrow> Some (NArray (mk_span (sp_start (tk_span op_tok)) (length (p_text p))) xs False,
                    fail (eof p) (missing_or first comma ''Expected a value'' '']'') p)
      | tok # _ \<Rightarrow>
          (if tk_kind tok = RBracket
           then Some (NArray (mk_span (sp_start (tk_span op_tok)) (sp_end (tk_span tok))) xs True, p_bump (no_trailing comma p))
           else if tk_kind tok \<in> {Colon, Comma, RBrace}
           then parse_array num n op_tok xs first comma (p_bump (fail (tk_span tok) ''Expected a value'' p))
           else (let p = (if \<not> first \<and> comma = None
                          then fail (tk_span tok) (''Expected '' @ in_quotes '','' @ '' or '' @ in_quotes '']'') p else p)
                 in case parse_value num n p of
                      None \<Rightarrow> None
                    | Some (v, p) \<Rightarrow> (case take_comma p of (comma, p) \<Rightarrow> parse_array num n op_tok (xs @ [v]) False comma p))))"

definition parse :: "(string \<Rightarrow> ('f \<times> bool) option) \<Rightarrow> string \<Rightarrow> 'f parsed option" where
  "parse num text =
     (case tokenize text of
        None \<Rightarrow> None
      | Some ts \<Rightarrow>
          (let toks = filter (\<lambda>t. tk_kind t \<noteq> Space) ts
           in if toks = [] then Some \<lparr>pd_root = None, pd_error = None\<rparr>
              else map_option (\<lambda>(root, p).
                     (let p = (case p_rest p of t # _ \<Rightarrow> fail (tk_span t) ''Unexpected text after the document'' p | [] \<Rightarrow> p)
                      in \<lparr>pd_root = Some root, pd_error = p_error p\<rparr>))
                     (parse_value num (2 * length toks + 2) \<lparr>p_text = text, p_rest = toks, p_error = None\<rparr>)))"

end
