(* ===== verification/Json_Tokens.thy ===== *)
theory Json_Tokens
  imports Json_Text
begin

text \<open>
  The tokenizer of \<open>rivers-ui/src/json_text.rs\<close> on well-formed text: it never slices inside a character, its tokens
  partition the text, and the kind of each token says what its text is.
\<close>

section \<open>Character boundaries\<close>

text \<open>
  Every character is a first byte and the number of continuation bytes that it announces. UTF-8 asks for more, so every
  UTF-8 text is among these.
\<close>

function utf8_ok :: "string \<Rightarrow> bool" where
  "utf8_ok [] \<longleftrightarrow> True"
| "utf8_ok (c # cs) \<longleftrightarrow> \<not> is_cont c \<and> char_len c - 1 \<le> length cs \<and> list_all is_cont (take (char_len c - 1) cs) \<and>
     utf8_ok (drop (char_len c - 1) cs)"
  by pat_completeness auto

termination utf8_ok
  by (relation "measure length") auto

declare utf8_ok.simps(2) [simp del]

lemma char_len_pos [simp]: "0 < char_len c"
  by (simp add: char_len_def Let_def)

lemma char_len_ascii: "of_char c < (128 :: nat) \<Longrightarrow> char_len c = 1"
  by (simp add: char_len_def Let_def)

lemma not_cont_ascii: "of_char c < (128 :: nat) \<Longrightarrow> \<not> is_cont c"
  by (simp add: is_cont_def)

lemma utf8_ascii: "of_char c < (128 :: nat) \<Longrightarrow> utf8_ok (c # cs) \<longleftrightarrow> utf8_ok cs"
  by (simp add: utf8_ok.simps(2) char_len_ascii not_cont_ascii)

lemma utf8_hd: "utf8_ok cs \<Longrightarrow> cs \<noteq> [] \<Longrightarrow> \<not> is_cont (hd cs)"
  by (cases cs) (auto simp: utf8_ok.simps(2))

lemma boundary_utf8:
  assumes "utf8_ok doc"
  shows "boundary doc i \<longleftrightarrow> i \<le> length doc \<and> utf8_ok (drop i doc)"
proof
  assume "i \<le> length doc \<and> utf8_ok (drop i doc)"
  then show "boundary doc i" using utf8_hd[of "drop i doc"] by (cases "i = length doc") (auto simp: boundary_def hd_drop_conv_nth)
next
  assume "boundary doc i"
  with assms show "i \<le> length doc \<and> utf8_ok (drop i doc)"
  proof (induction doc arbitrary: i rule: utf8_ok.induct)
    case 1
    then show ?case by (simp add: boundary_def)
  next
    case (2 c cs)
    let ?n = "char_len c - 1"
    have ok: "?n \<le> length cs" "list_all is_cont (take ?n cs)" "utf8_ok (drop ?n cs)" using "2.prems"(1) by (auto simp: utf8_ok.simps(2))
    show ?case
    proof (cases i)
      case 0
      then show ?thesis using "2.prems"(1) by simp
    next
      case (Suc j)
      have "\<not> j < ?n"
      proof
        assume "j < ?n"
        then have "is_cont (cs ! j)" using ok(1,2) by (auto simp: list_all_length)
        then show False using "2.prems"(2) Suc \<open>j < ?n\<close> ok(1) by (auto simp: boundary_def)
      qed
      then obtain k where j: "j = ?n + k" using le_Suc_ex not_less by blast
      have "boundary (drop ?n cs) k" using "2.prems"(2) Suc ok(1) unfolding j by (auto simp: boundary_def)
      from "2.IH"[OF ok(3) this] show ?thesis using Suc ok(1) unfolding j by (auto simp: add.commute)
    qed
  qed
qed

lemma utf8_dropWhile: "utf8_ok cs \<Longrightarrow> (\<And>c. P c \<Longrightarrow> of_char c < (128 :: nat)) \<Longrightarrow> utf8_ok (dropWhile P cs)"
  by (induction cs) (auto simp: utf8_ascii)

lemma dropWhile_drop: "dropWhile P xs = drop (length (takeWhile P xs)) xs"
  by (rule dropWhile_eq_drop)

section \<open>One token\<close>

text \<open>What the text of a token of each kind is.\<close>

fun lexeme_ok :: "token_kind \<Rightarrow> string \<Rightarrow> bool" where
  "lexeme_ok LBrace s = (s = ''{'')"
| "lexeme_ok RBrace s = (s = ''}'')"
| "lexeme_ok LBracket s = (s = ''['')"
| "lexeme_ok RBracket s = (s = '']'')"
| "lexeme_ok Colon s = (s = '':'')"
| "lexeme_ok Comma s = (s = '','')"
| "lexeme_ok KeyTok s = (\<exists>body. s = quote_char # body @ [quote_char])"
| "lexeme_ok StrTok s = (\<exists>body. s = quote_char # body @ [quote_char])"
| "lexeme_ok StrOpen s = (\<exists>body. s = quote_char # body)"
| "lexeme_ok NumTok s = (s \<noteq> [] \<and> (hd s = CHR ''-'' \<or> is_digit (hd s)) \<and> list_all is_num_char s)"
| "lexeme_ok BoolTok s = (s = ''true'' \<or> s = ''false'')"
| "lexeme_ok NullTok s = (s = ''null'')"
| "lexeme_ok Space s = (s \<noteq> [] \<and> list_all is_ws s)"
| "lexeme_ok Invalid s = (s \<noteq> [] \<and> \<not> is_ws (hd s) \<and> s \<noteq> ''true'' \<and> s \<noteq> ''false'' \<and> s \<noteq> ''null'')"

text \<open>Where a string ends: after a quote, before a line break or at the end of the text.\<close>

lemma string_end_spec:
  "string_end bs = (n, closed) \<Longrightarrow> n \<le> length bs \<and> (closed \<longrightarrow> 0 < n \<and> bs ! (n - 1) = quote_char) \<and>
     (\<not> closed \<longrightarrow> n = length bs \<or> (n < length bs \<and> bs ! n = newline))"
proof (induction bs arbitrary: n closed rule: string_end.induct)
  case (3 c d bs)
  show ?case
  proof (cases "c = quote_char \<or> c = newline")
    case True
    then show ?thesis using "3.prems" by auto
  next
    case False
    show ?thesis
    proof (cases "c = backslash")
      case True
      obtain m where m: "string_end bs = (m, closed)" "n = m + 2" using "3.prems" True by (auto split: prod.splits)
      show ?thesis using "3.IH"(1)[OF _ True m(1)] True m(2) by (auto simp: nth_Cons' numeral_2_eq_2)
    next
      case nb: False
      obtain m where m: "string_end (d # bs) = (m, closed)" "n = m + 1" using "3.prems" False nb by (auto split: prod.splits)
      show ?thesis using "3.IH"(2)[OF _ nb _ m(1)] False m(2) by (auto simp: nth_Cons')
    qed
  qed
qed (auto split: if_splits)

text \<open>An escaped line break does not end a string: it can be closed on a later line.\<close>

lemma string_crosses_line: "string_end [backslash, newline, quote_char] = (3, True)"
  by simp

lemma ascii_chars:
  "is_ws c \<Longrightarrow> of_char c < (128 :: nat)" "is_num_char c \<Longrightarrow> of_char c < (128 :: nat)" "is_digit c \<Longrightarrow> of_char c < (128 :: nat)"
  "is_word_start c \<Longrightarrow> of_char c < (128 :: nat)"
  by (auto simp: is_ws_def is_num_char_def is_word_start_def in_range_def)

text \<open>What a scanned token is in a non-empty rest.\<close>

definition scanned :: "string \<Rightarrow> token_kind \<Rightarrow> nat \<Rightarrow> bool" where
  "scanned rest k n \<longleftrightarrow> scan rest = Some (k, n) \<and> 0 < n \<and> n \<le> length rest \<and> utf8_ok (drop n rest) \<and> k \<noteq> KeyTok \<and> lexeme_ok k (take n rest)"

lemma scan_run:
  assumes "utf8_ok (c # cs)" "P c" "\<And>c. P c \<Longrightarrow> of_char c < (128 :: nat)"
  shows "0 < length (takeWhile P (c # cs))" "length (takeWhile P (c # cs)) \<le> length (c # cs)"
    "utf8_ok (drop (length (takeWhile P (c # cs))) (c # cs))"
    "list_all P (take (length (takeWhile P (c # cs))) (c # cs))"
proof -
  show "0 < length (takeWhile P (c # cs))" using assms(2) by simp
  show "length (takeWhile P (c # cs)) \<le> length (c # cs)" by (rule length_takeWhile_le)
  show "utf8_ok (drop (length (takeWhile P (c # cs))) (c # cs))"
    using utf8_dropWhile[OF assms(1), of P] assms(3) by (simp only: dropWhile_drop)
  show "list_all P (take (length (takeWhile P (c # cs))) (c # cs))"
    by (simp only: takeWhile_eq_take[symmetric] list_all_iff) (auto dest: set_takeWhileD)
qed

lemma scan_string:
  assumes ok: "utf8_ok (quote_char # cs)" and e: "string_end cs = (n, closed)"
  shows "scanned (quote_char # cs) (if closed then StrTok else StrOpen) (n + 1)"
proof -
  have cs: "utf8_ok cs" using ok by (simp add: utf8_ascii)
  note spec = string_end_spec[OF e]
  have "utf8_ok (drop n cs)"
  proof (cases closed)
    case True
    then have n: "n = Suc (n - 1)" "n - 1 < length cs" "cs ! (n - 1) = quote_char" using spec by auto
    then have "boundary cs (n - 1)" by (simp add: boundary_def is_cont_def)
    then have "utf8_ok (drop (n - 1) cs)" using boundary_utf8[OF cs] by simp
    also have "drop (n - 1) cs = quote_char # drop n cs" using n by (metis Cons_nth_drop_Suc)
    finally show ?thesis by (simp add: utf8_ascii)
  next
    case False
    then have "boundary cs n" using spec by (auto simp: boundary_def is_cont_def)
    then show ?thesis using boundary_utf8[OF cs] by simp
  qed
  moreover have "take n cs = take (n - 1) cs @ [quote_char]" if closed
    using spec that take_Suc_conv_app_nth[of "n - 1" cs] by auto
  ultimately show ?thesis using e spec by (auto simp: scanned_def scan_def Let_def is_ws_def)
qed

lemma scan_word:
  assumes ok: "utf8_ok (c # cs)" and c: "is_word_start c"
  shows "\<exists>k n. scanned (c # cs) k n"
proof -
  let ?P = "\<lambda>c. is_word_start c \<or> is_digit c" and ?rest = "c # cs"
  let ?n = "length (takeWhile ?P ?rest)"
  have run: "0 < ?n" "?n \<le> length ?rest" "utf8_ok (drop ?n ?rest)"
    using scan_run[OF ok, of ?P] c ascii_chars by auto
  let ?w = "take ?n ?rest"
  have "slice ?rest 0 ?n = Some ?w" using run boundary_utf8[OF ok, of 0] boundary_utf8[OF ok, of ?n] ok by (simp add: slice_def)
  moreover have "\<not> is_ws c" "c \<notin> set ''{}[]:,''" "c \<noteq> quote_char" "c \<noteq> CHR ''-''" "\<not> is_digit c"
    using c by (auto simp: is_word_start_def is_ws_def in_range_def)
  ultimately have "scan ?rest = Some (if ?w = ''true'' \<or> ?w = ''false'' then BoolTok else if ?w = ''null'' then NullTok else Invalid, ?n)"
    using c by (simp add: scan_def Let_def del: takeWhile.simps take_Suc_Cons)
  moreover have "hd ?w = c" "?w \<noteq> []" using run(1) by (auto simp del: takeWhile.simps)
  ultimately show ?thesis using run \<open>\<not> is_ws c\<close> unfolding scanned_def by (auto simp del: takeWhile.simps)
qed

lemma scan_other:
  assumes "utf8_ok (c # cs)" "\<not> is_ws c" "c \<notin> set ''{}[]:,''" "c \<noteq> quote_char" "c \<noteq> CHR ''-''" "\<not> is_digit c" "\<not> is_word_start c"
  shows "scanned (c # cs) Invalid (char_len c)"
proof -
  have "char_len c = Suc (char_len c - 1)" by simp
  then obtain m where m: "char_len c = Suc m" by blast
  have "\<not> is_cont c" "m \<le> length cs" "utf8_ok (drop m cs)" using assms(1) m by (auto simp: utf8_ok.simps(2))
  moreover have "c \<noteq> CHR ''t''" "c \<noteq> CHR ''f''" "c \<noteq> CHR ''n''" using assms(7) by (auto simp: is_word_start_def in_range_def)
  ultimately show ?thesis using assms(2-) m by (auto simp: scanned_def scan_def Let_def)
qed

lemma scan_total:
  assumes "utf8_ok rest" "rest \<noteq> []"
  shows "\<exists>k n. scanned rest k n"
proof -
  obtain c cs where rest: "rest = c # cs" using assms(2) by (cases rest) auto
  note ok = assms(1)[unfolded rest]
  consider "is_ws c" | "c \<in> set ''{}[]:,''" | "c = quote_char" | "c = CHR ''-'' \<or> is_digit c" | "is_word_start c"
    | "\<not> is_ws c" "c \<notin> set ''{}[]:,''" "c \<noteq> quote_char" "c \<noteq> CHR ''-''" "\<not> is_digit c" "\<not> is_word_start c" by blast
  then have "\<exists>k n. scanned (c # cs) k n"
  proof cases
    case 1
    note run = scan_run[of c cs is_ws, OF ok 1 ascii_chars(1)]
    have "take (length (takeWhile is_ws (c # cs))) (c # cs) \<noteq> []" using run(1) by (simp del: takeWhile.simps)
    then have "scanned (c # cs) Space (length (takeWhile is_ws (c # cs)))"
      using run 1 unfolding scanned_def by (simp add: scan_def del: takeWhile.simps)
    then show ?thesis by blast
  next
    case 2
    then have "utf8_ok cs" using ok by (auto simp: utf8_ascii)
    with 2 show ?thesis by (auto simp: scanned_def scan_def Let_def is_ws_def)
  next
    case 3
    obtain n closed where "string_end cs = (n, closed)" by fastforce
    then show ?thesis using scan_string ok 3 by blast
  next
    case 4
    have c: "is_num_char c" using 4 by (auto simp: is_num_char_def)
    note run = scan_run[of c cs is_num_char, OF ok c ascii_chars(2)]
    have w: "\<not> is_ws c" "c \<notin> set ''{}[]:,''" "c \<noteq> quote_char" using 4 by (auto simp: is_ws_def in_range_def)
    have n: "length (takeWhile is_num_char (c # cs)) = 1 + length (takeWhile is_num_char cs)" using c by simp
    have "scanned (c # cs) NumTok (1 + length (takeWhile is_num_char cs))"
      using run w 4 unfolding n scanned_def by (auto simp: scan_def Let_def)
    then show ?thesis by blast
  next
    case 5
    then show ?thesis using scan_word[OF ok] by blast
  next
    case 6
    then show ?thesis using scan_other[OF ok] by blast
  qed
  then show ?thesis by (simp only: rest)
qed

section \<open>All tokens\<close>

definition lexeme :: "string \<Rightarrow> token \<Rightarrow> string" where
  "lexeme doc t = take (sp_end (tk_span t) - sp_start (tk_span t)) (drop (sp_start (tk_span t)) doc)"

definition token_ok :: "string \<Rightarrow> token \<Rightarrow> bool" where
  "token_ok doc t \<longleftrightarrow> sp_start (tk_span t) < sp_end (tk_span t) \<and> boundary doc (sp_start (tk_span t)) \<and> boundary doc (sp_end (tk_span t)) \<and>
     lexeme_ok (tk_kind t) (lexeme doc t)"

text \<open>Tokens that follow each other without a gap.\<close>

fun covers :: "nat \<Rightarrow> nat \<Rightarrow> token list \<Rightarrow> bool" where
  "covers i j [] \<longleftrightarrow> i = j"
| "covers i j (t # ts) \<longleftrightarrow> sp_start (tk_span t) = i \<and> i < sp_end (tk_span t) \<and> covers (sp_end (tk_span t)) j ts"

definition next_kind :: "token list \<Rightarrow> token_kind option" where
  "next_kind ts = map_option tk_kind (find (\<lambda>t. tk_kind t \<noteq> Space) ts)"

lemma covers_le: "covers i j ts \<Longrightarrow> i \<le> j"
  by (induction i j ts rule: covers.induct) auto

lemma covers_concat: "covers i j ts \<Longrightarrow> concat (map (lexeme doc) ts) = take (j - i) (drop i doc)"
proof (induction i j ts rule: covers.induct)
  case (2 i j t ts)
  let ?e = "sp_end (tk_span t)"
  have "i < ?e" "?e \<le> j" using "2.prems" covers_le by auto
  then have "j - i = (?e - i) + (j - ?e)" "drop ?e doc = drop (?e - i) (drop i doc)" by auto
  then show ?case using 2 by (simp only: take_add) (simp add: lexeme_def)
qed simp

lemma tokens_from_spec:
  assumes "utf8_ok doc"
  shows "boundary doc i \<Longrightarrow> \<exists>ts. tokens_from i (drop i doc) = Some ts \<and> covers i (length doc) ts \<and>
    (\<forall>t \<in> set ts. token_ok doc t \<and> tk_kind t \<noteq> KeyTok)"
proof (induction "length doc - i" arbitrary: i rule: less_induct)
  case less
  have i: "i \<le> length doc" "utf8_ok (drop i doc)" using less.prems boundary_utf8[OF assms] by auto
  show ?case
  proof (cases "i = length doc")
    case True
    then show ?thesis by (simp add: tokens_from.simps)
  next
    case False
    then obtain k n where sc: "scanned (drop i doc) k n" using scan_total[OF i(2)] i(1) by auto
    let ?t = "\<lparr>tk_kind = k, tk_span = mk_span i (i + n)\<rparr>"
    have n: "scan (drop i doc) = Some (k, n)" "0 < n" "i + n \<le> length doc" "utf8_ok (drop (i + n) doc)" "k \<noteq> KeyTok"
      "lexeme_ok k (take n (drop i doc))" using sc i(1) by (auto simp: scanned_def add.commute)
    have b: "boundary doc (i + n)" using n boundary_utf8[OF assms] by simp
    have "length doc - (i + n) < length doc - i" using n by simp
    from less.hyps[OF this b] obtain ts where ts: "tokens_from (i + n) (drop (i + n) doc) = Some ts" "covers (i + n) (length doc) ts"
      "\<forall>t \<in> set ts. token_ok doc t \<and> tk_kind t \<noteq> KeyTok" by blast
    have "tokens_from i (drop i doc) = Some (?t # ts)"
      using n(1) ts(1) False i(1) by (subst tokens_from.simps) (simp add: add.commute)
    moreover have "token_ok doc ?t" using n b less.prems by (simp add: token_ok_def lexeme_def mk_span_def)
    ultimately show ?thesis using ts n by (intro exI[of _ "?t # ts"]) (auto simp: mk_span_def)
  qed
qed

lemma mark_keys_next: "snd (mark_keys ts) = next_kind (fst (mark_keys ts))"
  by (induction ts) (auto simp: next_kind_def Let_def split: prod.splits)

lemma mark_keys_Cons:
  "fst (mark_keys (t # ts)) =
     (if tk_kind t = StrTok \<and> next_kind (fst (mark_keys ts)) = Some Colon then t\<lparr>tk_kind := KeyTok\<rparr> else t) # fst (mark_keys ts)"
  using mark_keys_next[of ts] by (auto simp: Let_def split: prod.splits)

lemma mark_keys_covers: "covers i j (fst (mark_keys ts)) \<longleftrightarrow> covers i j ts"
  by (induction ts arbitrary: i) (auto simp: mark_keys_Cons simp del: mark_keys.simps(2))

lemma token_ok_key: "token_ok doc t \<Longrightarrow> tk_kind t = StrTok \<Longrightarrow> token_ok doc (t\<lparr>tk_kind := KeyTok\<rparr>)"
  by (simp add: token_ok_def lexeme_def)

lemma mark_keys_ok: "\<forall>t \<in> set ts. token_ok doc t \<Longrightarrow> t \<in> set (fst (mark_keys ts)) \<Longrightarrow> token_ok doc t"
proof (induction ts)
  case (Cons u ts)
  then show ?case using token_ok_key[of doc u] by (auto simp: mark_keys_Cons simp del: mark_keys.simps(2) split: if_splits)
qed simp

lemma mark_keys_split:
  assumes "\<forall>t \<in> set ts. tk_kind t \<noteq> KeyTok" and "fst (mark_keys ts) = pre @ t # post" and "tk_kind t = KeyTok \<or> tk_kind t = StrTok"
  shows "tk_kind t = KeyTok \<longleftrightarrow> next_kind post = Some Colon"
  using assms
proof (induction ts arbitrary: pre)
  case (Cons u ts)
  show ?case
  proof (cases pre)
    case Nil
    then show ?thesis using Cons.prems by (auto simp: mark_keys_Cons simp del: mark_keys.simps(2) split: if_splits)
  next
    case (Cons v pre')
    then show ?thesis using Cons.IH[of pre'] Cons.prems by (auto simp: mark_keys_Cons simp del: mark_keys.simps(2))
  qed
qed simp

lemma tokenize_spec:
  assumes "utf8_ok doc"
  obtains ts where "tokenize doc = Some ts" "covers 0 (length doc) ts" "\<forall>t \<in> set ts. token_ok doc t"
    "\<And>pre t post. ts = pre @ t # post \<Longrightarrow> tk_kind t = KeyTok \<or> tk_kind t = StrTok \<Longrightarrow> tk_kind t = KeyTok \<longleftrightarrow> next_kind post = Some Colon"
proof -
  have "boundary doc 0" using boundary_utf8[OF assms] assms by simp
  from tokens_from_spec[OF assms this] obtain ts where ts: "tokens_from 0 doc = Some ts" "covers 0 (length doc) ts"
    "\<forall>t \<in> set ts. token_ok doc t \<and> tk_kind t \<noteq> KeyTok" by auto
  show thesis
  proof (rule that[of "fst (mark_keys ts)"])
    show "tokenize doc = Some (fst (mark_keys ts))" using ts(1) by (simp add: tokenize_def)
    show "covers 0 (length doc) (fst (mark_keys ts))" using ts(2) mark_keys_covers by blast
    show "\<forall>t \<in> set (fst (mark_keys ts)). token_ok doc t" using mark_keys_ok ts(3) by blast
    show "tk_kind t = KeyTok \<longleftrightarrow> next_kind post = Some Colon"
      if "fst (mark_keys ts) = pre @ t # post" "tk_kind t = KeyTok \<or> tk_kind t = StrTok" for pre t post
      using mark_keys_split[OF _ that] ts(3) by blast
  qed
qed


definition sample_doc :: string where
  "sample_doc = ''{'' @ [quote_char] @ ''a'' @ [quote_char] @ '': [1, '' @ [CHR 0xC3, CHR 0xA9] @ ''}''"


end
