(* ===== verification/Json_Trees.thy ===== *)
theory Json_Trees
  imports Json_Parser Json_Tokens
begin

text \<open>
  The parser of \<open>rivers-ui/src/json_text.rs\<close> on well-formed text: it never panics and never runs out of fuel, however
  broken the document is, and the spans of the tree it builds lie in each other in the order of the text.
\<close>

section \<open>Well-formed parser states and trees\<close>

definition span_ok :: "string \<Rightarrow> span \<Rightarrow> bool" where
  "span_ok doc sp \<longleftrightarrow> sp_start sp \<le> sp_end sp \<and> boundary doc (sp_start sp) \<and> boundary doc (sp_end sp)"

fun spans_in_order :: "nat \<Rightarrow> nat \<Rightarrow> span list \<Rightarrow> bool" where
  "spans_in_order lo hi [] \<longleftrightarrow> lo \<le> hi"
| "spans_in_order lo hi (s # ss) \<longleftrightarrow> lo \<le> sp_start s \<and> sp_start s \<le> sp_end s \<and> spans_in_order (sp_end s) hi ss"

definition entry_spans :: "'f entry \<Rightarrow> span list" where
  "entry_spans e = e_key_span e # (case e_colon e of Some c \<Rightarrow> [c] | None \<Rightarrow> []) @ [node_span (e_value e)]"

fun node_ok :: "string \<Rightarrow> 'f json_node \<Rightarrow> bool"
  and entry_ok :: "string \<Rightarrow> 'f entry \<Rightarrow> bool"
where
  "node_ok doc (NObject sp es closed) \<longleftrightarrow> span_ok doc sp \<and> (\<not> closed \<longrightarrow> sp_end sp = length doc) \<and>
     spans_in_order (sp_start sp) (sp_end sp) (concat (map entry_spans es)) \<and> list_all (entry_ok doc) es"
| "node_ok doc (NArray sp xs closed) \<longleftrightarrow> span_ok doc sp \<and> (\<not> closed \<longrightarrow> sp_end sp = length doc) \<and>
     spans_in_order (sp_start sp) (sp_end sp) (map node_span xs) \<and> list_all (node_ok doc) xs"
| "node_ok doc (NStr sp v) \<longleftrightarrow> span_ok doc sp"
| "node_ok doc (NNum sp v w) \<longleftrightarrow> span_ok doc sp"
| "node_ok doc (NBool sp b) \<longleftrightarrow> span_ok doc sp"
| "node_ok doc (NNull sp) \<longleftrightarrow> span_ok doc sp"
| "node_ok doc (NMissing sp) \<longleftrightarrow> span_ok doc sp"
| "entry_ok doc (Entry k ks colon v) \<longleftrightarrow> span_ok doc ks \<and> sp_start ks < sp_end ks \<and> doc ! sp_start ks = quote_char \<and> node_ok doc v"

fun toks_ok :: "string \<Rightarrow> nat \<Rightarrow> token list \<Rightarrow> bool" where
  "toks_ok doc lo [] \<longleftrightarrow> lo \<le> length doc"
| "toks_ok doc lo (t # ts) \<longleftrightarrow> lo \<le> sp_start (tk_span t) \<and> token_ok doc t \<and> tk_kind t \<noteq> Space \<and> toks_ok doc (sp_end (tk_span t)) ts"

definition parser_ok :: "parser \<Rightarrow> bool" where
  "parser_ok p \<longleftrightarrow> utf8_ok (p_text p) \<and> toks_ok (p_text p) 0 (p_rest p)"

abbreviation cursor :: "parser \<Rightarrow> nat" where
  "cursor p \<equiv> sp_start (here p)"

lemma mk_span_simps [simp]: "sp_start (mk_span a b) = a" "sp_end (mk_span a b) = b"
  by (simp_all add: mk_span_def)

lemma fail_simps [simp]: "p_text (fail s m p) = p_text p" "p_rest (fail s m p) = p_rest p" "here (fail s m p) = here p" "eof (fail s m p) = eof p"
  "parser_ok (fail s m p) = parser_ok p"
  by (auto simp: fail_def here_def eof_def parser_ok_def split: list.splits)

lemma p_bump_simps [simp]: "p_text (p_bump p) = p_text p" "p_rest (p_bump p) = tl (p_rest p)"
  by (auto simp: p_bump_def)

lemma spans_append: "spans_in_order lo mid ss \<Longrightarrow> spans_in_order mid hi us \<Longrightarrow> spans_in_order lo hi (ss @ us)"
proof (induction ss arbitrary: lo)
  case Nil
  then show ?case by (cases us) auto
qed auto

lemma spans_widen: "spans_in_order lo hi ss \<Longrightarrow> lo' \<le> lo \<Longrightarrow> hi \<le> hi' \<Longrightarrow> spans_in_order lo' hi' ss"
  by (induction ss arbitrary: lo lo') auto

lemma toks_lower: "toks_ok doc lo ts \<Longrightarrow> lo' \<le> lo \<Longrightarrow> toks_ok doc lo' ts"
  by (cases ts) auto

lemma token_ok_span: "token_ok doc t \<Longrightarrow> span_ok doc (tk_span t)"
  by (simp add: token_ok_def span_ok_def)

lemma parser_ok_next:
  assumes "parser_ok p" "p_rest p = t # ts"
  shows "parser_ok (p_bump p)" "sp_end (tk_span t) \<le> cursor (p_bump p)" "cursor p = sp_start (tk_span t)" "token_ok (p_text p) t" "tk_kind t \<noteq> Space"
    "cursor p < cursor (p_bump p)"
proof -
  have t: "token_ok (p_text p) t" "tk_kind t \<noteq> Space" "toks_ok (p_text p) (sp_end (tk_span t)) ts" using assms by (auto simp: parser_ok_def)
  show "parser_ok (p_bump p)" using assms t(3) toks_lower[of _ _ ts 0] by (simp add: parser_ok_def)
  show e: "sp_end (tk_span t) \<le> cursor (p_bump p)" using assms(2) t(3) by (cases ts) (auto simp: here_def eof_def)
  show s: "cursor p = sp_start (tk_span t)" using assms(2) by (simp add: here_def)
  show "token_ok (p_text p) t" "tk_kind t \<noteq> Space" using t by auto
  show "cursor p < cursor (p_bump p)" using s e t(1) by (simp add: token_ok_def)
qed

lemma boundary_le: "boundary doc i \<Longrightarrow> i \<le> length doc"
  by (auto simp: boundary_def)

lemma cursor_ok:
  assumes "parser_ok p"
  shows "boundary (p_text p) (cursor p)" "cursor p \<le> length (p_text p)"
proof -
  show "boundary (p_text p) (cursor p)"
    using assms by (cases "p_rest p") (auto simp: here_def eof_def boundary_def parser_ok_def token_ok_def)
  then show "cursor p \<le> length (p_text p)" by (rule boundary_le)
qed

section \<open>Tokens that are values\<close>

lemma raw_token: "token_ok (p_text p) t \<Longrightarrow> raw p (tk_span t) = Some (lexeme (p_text p) t)"
  by (simp add: raw_def slice_def token_ok_def lexeme_def)

lemma token_hd:
  assumes "token_ok doc t"
  shows "lexeme doc t \<noteq> []" "hd (lexeme doc t) = doc ! sp_start (tk_span t)" "length (lexeme doc t) = sp_end (tk_span t) - sp_start (tk_span t)"
  using assms boundary_le[of doc "sp_end (tk_span t)"] by (auto simp: token_ok_def lexeme_def hd_drop_conv_nth)

text \<open>What lies between the quotes.\<close>

definition string_inner :: "token \<Rightarrow> string \<Rightarrow> string" where
  "string_inner t s = (if tk_kind t = StrOpen then tl s else butlast (tl s))"

lemma string_body_ok:
  assumes "utf8_ok (p_text p)" "token_ok (p_text p) t" "is_string (tk_kind t)"
  shows "string_body p t = Some (string_inner t (lexeme (p_text p) t))"
proof -
  let ?s = "lexeme (p_text p) t" and ?a = "sp_start (tk_span t)"
  have q: "?s \<noteq> []" "hd ?s = quote_char" "tk_kind t \<noteq> StrOpen \<longrightarrow> (\<exists>b. ?s = quote_char # b @ [quote_char])"
    using assms(2,3) by (auto simp: token_ok_def)
  have "boundary (p_text p) ?a" using assms(2) by (simp add: token_ok_def)
  then have d: "utf8_ok (drop ?a (p_text p))" using boundary_utf8[OF assms(1)] by simp
  obtain b where b: "?s = quote_char # b" using q(1,2) by (cases ?s) auto
  then obtain m where m: "drop ?a (p_text p) = quote_char # m" "b = take (sp_end (tk_span t) - ?a - 1) m"
    by (cases "drop ?a (p_text p)"; cases "sp_end (tk_span t) - ?a") (auto simp: lexeme_def)
  then have "utf8_ok m" using d by (simp add: utf8_ascii)
  then have "b \<noteq> [] \<longrightarrow> \<not> is_cont (hd b)" using utf8_hd[of m] m(2) by (cases m; cases "sp_end (tk_span t) - ?a - 1") auto
  then have one: "boundary ?s 1" using b by (cases b) (auto simp: boundary_def)
  have last: "boundary ?s (length ?s - 1)" if "tk_kind t \<noteq> StrOpen"
    using q(3) that by (auto simp: boundary_def nth_append is_cont_def)
  show ?thesis
  proof (cases "tk_kind t = StrOpen")
    case True
    then show ?thesis using one b raw_token[OF assms(2)] by (simp add: string_body_def string_inner_def slice_def boundary_def)
  next
    case False
    then obtain c where c: "?s = quote_char # c @ [quote_char]" using q(3) by blast
    then show ?thesis using False one last raw_token[OF assms(2)] by (simp add: string_body_def string_inner_def slice_def butlast_append)
  qed
qed

lemma parse_string_ok:
  assumes "utf8_ok (p_text p)" "token_ok (p_text p) t" "is_string (tk_kind t)"
  obtains v q where "parse_string t p = Some (v, q)" "p_text q = p_text p" "p_rest q = p_rest p" "here q = here p" "parser_ok q = parser_ok p"
proof -
  obtain v q where e: "parse_string t p = Some (v, q)" unfolding parse_string_def string_body_ok[OF assms] by fastforce
  have "p_text q = p_text p \<and> p_rest q = p_rest p \<and> here q = here p \<and> parser_ok q = parser_ok p"
    using e unfolding parse_string_def string_body_ok[OF assms] by (auto simp: Let_def split: option.splits if_splits)
  then show thesis using that e by blast
qed

lemma parse_scalar_ok:
  assumes "utf8_ok (p_text p)" "token_ok (p_text p) t"
  obtains node q where "parse_scalar num t p = Some (node, q)" "p_text q = p_text p" "p_rest q = p_rest p" "here q = here p"
    "parser_ok q = parser_ok p" "node_span node = tk_span t" "node_ok (p_text p) node"
proof (cases "is_string (tk_kind t)")
  case True
  from parse_string_ok[OF assms True] obtain v q where "parse_string t p = Some (v, q)" "p_text q = p_text p" "p_rest q = p_rest p"
    "here q = here p" "parser_ok q = parser_ok p" by blast
  then show thesis using True that[of "NStr (tk_span t) v" q] token_ok_span[OF assms(2)] by (auto simp: parse_scalar_def)
next
  case False
  have "\<exists>node q. parse_scalar num t p = Some (node, q) \<and> p_text q = p_text p \<and> p_rest q = p_rest p \<and> here q = here p \<and>
    parser_ok q = parser_ok p \<and> node_span node = tk_span t \<and> node_ok (p_text p) node"
    using False raw_token[OF assms(2)] token_ok_span[OF assms(2)]
    by (auto simp: parse_scalar_def Let_def split: option.splits prod.splits)
  then show thesis using that by blast
qed

section \<open>Keys and commas\<close>

lemma parse_key_ok:
  assumes "parser_ok p" "p_rest p = t # ts" "is_string (tk_kind t)"
  obtains key colon q where "parse_key t seen first comma p = Some (key, colon, q)" "parser_ok q" "p_text q = p_text p"
    "length (p_rest q) \<le> length ts"
    "spans_in_order (cursor p) (cursor q) (tk_span t # (case colon of Some c \<Rightarrow> [c] | None \<Rightarrow> []))"
    "case colon of Some c \<Rightarrow> span_ok (p_text p) c | None \<Rightarrow> True"
proof -
  let ?p = "if \<not> first \<and> comma = None then fail (tk_span t) (''Expected '' @ in_quotes '','' @ '' or '' @ in_quotes ''}'') p else p"
  have p: "parser_ok ?p" "p_rest ?p = t # ts" "p_text ?p = p_text p" "here ?p = here p" using assms by auto
  note nx = parser_ok_next[OF p(1,2)]
  have u: "utf8_ok (p_text (p_bump ?p))" "token_ok (p_text (p_bump ?p)) t" using nx by (auto simp: parser_ok_def)
  from parse_string_ok[OF u assms(3)] obtain key r where r: "parse_string t (p_bump ?p) = Some (key, r)" "p_text r = p_text p"
    "p_rest r = ts" "here r = here (p_bump ?p)" "parser_ok r" using nx(1) p by auto
  let ?r = "if key \<in> seen then fail (tk_span t) (''Duplicate key '' @ in_quotes key) r else r"
  have r': "parser_ok ?r" "p_rest ?r = ts" "p_text ?r = p_text p" "sp_end (tk_span t) \<le> cursor ?r" using r nx(2) by auto
  have sp: "cursor p = sp_start (tk_span t)" "sp_start (tk_span t) \<le> sp_end (tk_span t)" using nx p token_ok_span[OF nx(4)] by (auto simp: span_ok_def)
  show thesis
  proof (cases "\<exists>c cs. ts = c # cs \<and> tk_kind c = Colon")
    case True
    then obtain c cs where c: "ts = c # cs" "tk_kind c = Colon" by blast
    note nc = parser_ok_next[OF r'(1) r'(2)[unfolded c(1)]]
    have "parse_key t seen first comma p = Some (key, Some (tk_span c), p_bump ?r)"
      using r(1) r'(2) c unfolding parse_key_def Let_def by (simp split del: if_split)
    then show thesis using that nc r' sp token_ok_span[OF nc(4)] c(1) by (auto simp: span_ok_def)
  next
    case False
    then have "parse_key t seen first comma p = Some (key, None, fail (here ?r) (''Expected '' @ in_quotes '':'') ?r)"
      using r(1) r'(2) unfolding parse_key_def Let_def by (auto split: list.splits split del: if_split)
    then show thesis using that r' sp by simp
  qed
qed

lemma take_comma_ok:
  assumes "parser_ok p" "take_comma p = (comma, q)"
  shows "parser_ok q" "p_text q = p_text p" "length (p_rest q) \<le> length (p_rest p)" "cursor p \<le> cursor q"
  using assms parser_ok_next[OF assms(1)] by (auto simp: take_comma_def split: list.splits if_splits)

section \<open>The recursion\<close>

text \<open>A result that goes on from a state: a well-formed tree from the given offset on, and a state after it.\<close>

definition goes :: "parser \<Rightarrow> nat \<Rightarrow> ('f json_node \<times> parser) option \<Rightarrow> bool" where
  "goes p a r \<longleftrightarrow> (\<exists>node q. r = Some (node, q) \<and> node_ok (p_text p) node \<and> parser_ok q \<and> p_text q = p_text p \<and>
     length (p_rest q) \<le> length (p_rest p) \<and> a \<le> sp_start (node_span node) \<and> sp_end (node_span node) \<le> cursor q)"

lemma goes_later:
  "goes q a r \<Longrightarrow> p_text q = p_text p \<Longrightarrow> length (p_rest q) \<le> length (p_rest p) \<Longrightarrow> goes p a r"
  unfolding goes_def by (elim exE conjE, intro exI conjI) auto

definition opened :: "parser \<Rightarrow> token \<Rightarrow> span list \<Rightarrow> bool" where
  "opened p op_tok ss \<longleftrightarrow> token_ok (p_text p) op_tok \<and> spans_in_order (sp_end (tk_span op_tok)) (cursor p) ss"

lemma opened_span:
  assumes "opened p op_tok ss" "cursor p \<le> e" "boundary (p_text p) e"
  shows "span_ok (p_text p) (mk_span (sp_start (tk_span op_tok)) e)" "spans_in_order (sp_start (tk_span op_tok)) e ss"
proof -
  have t: "sp_start (tk_span op_tok) < sp_end (tk_span op_tok)" "boundary (p_text p) (sp_start (tk_span op_tok))"
    using assms(1) by (auto simp: opened_def token_ok_def)
  show s: "spans_in_order (sp_start (tk_span op_tok)) e ss"
    using assms t(1) by (auto simp: opened_def elim!: spans_widen)
  have "spans_in_order lo hi us \<Longrightarrow> lo \<le> hi" for lo hi us by (induction us arbitrary: lo) (auto intro: order_trans)
  from this[OF s] show "span_ok (p_text p) (mk_span (sp_start (tk_span op_tok)) e)" using t(2) assms(3) by (simp add: span_ok_def)
qed

lemma opened_later:
  "opened p op_tok ss \<Longrightarrow> p_text q = p_text p \<Longrightarrow> spans_in_order (cursor p) (cursor q) us \<Longrightarrow> opened q op_tok (ss @ us)"
  by (auto simp: opened_def intro: spans_append)

abbreviation object_goes :: "(string \<Rightarrow> ('f \<times> bool) option) \<Rightarrow> nat \<Rightarrow> bool" where
  "object_goes num n \<equiv> \<forall>p op_tok es seen first comma. parser_ok p \<longrightarrow> opened p op_tok (concat (map entry_spans es)) \<longrightarrow>
     list_all (entry_ok (p_text p)) es \<longrightarrow> 2 * length (p_rest p) + 1 \<le> n \<longrightarrow>
     goes p (sp_start (tk_span op_tok)) (parse_object num n op_tok es seen first comma p)"

abbreviation array_goes :: "(string \<Rightarrow> ('f \<times> bool) option) \<Rightarrow> nat \<Rightarrow> bool" where
  "array_goes num n \<equiv> \<forall>p op_tok xs first comma. parser_ok p \<longrightarrow> opened p op_tok (map node_span xs) \<longrightarrow>
     list_all (node_ok (p_text p)) xs \<longrightarrow> 2 * length (p_rest p) + 2 \<le> n \<longrightarrow>
     goes p (sp_start (tk_span op_tok)) (parse_array num n op_tok xs first comma p)"

abbreviation value_goes :: "(string \<Rightarrow> ('f \<times> bool) option) \<Rightarrow> nat \<Rightarrow> bool" where
  "value_goes num n \<equiv> \<forall>p. parser_ok p \<longrightarrow> 2 * length (p_rest p) + 1 \<le> n \<longrightarrow> goes p (cursor p) (parse_value num n p) \<and>
     (\<forall>t ts. p_rest p = t # ts \<longrightarrow> tk_kind t \<notin> {RBrace, RBracket, Colon, Comma, Space} \<longrightarrow>
        (\<forall>node q. parse_value num n p = Some (node, q) \<longrightarrow> length (p_rest q) \<le> length ts))"

lemma value_step:
  assumes O: "object_goes num n" and A: "array_goes num n"
  shows "value_goes num (Suc n)"
proof (intro allI impI)
  fix p assume ok: "parser_ok p" and fuel: "2 * length (p_rest p) + 1 \<le> Suc n"
  let ?r = "parse_value num (Suc n) p"
  show "goes p (cursor p) ?r \<and> (\<forall>t ts. p_rest p = t # ts \<longrightarrow> tk_kind t \<notin> {RBrace, RBracket, Colon, Comma, Space} \<longrightarrow>
        (\<forall>node q. ?r = Some (node, q) \<longrightarrow> length (p_rest q) \<le> length ts))"
  proof (cases "p_rest p")
    case Nil
    then show ?thesis using ok cursor_ok[OF ok] by (auto simp: goes_def here_def eof_def span_ok_def)
  next
    case (Cons t ts)
    note nx = parser_ok_next[OF ok Cons]
    have op: "opened (p_bump p) t []" using nx by (simp add: opened_def)
    have f: "2 * length (p_rest (p_bump p)) + 2 \<le> n" using fuel Cons by simp
    consider "tk_kind t = LBrace" | "tk_kind t = LBracket" | "tk_kind t \<in> {RBrace, RBracket, Colon, Comma, Space}"
      | "tk_kind t \<notin> {LBrace, LBracket, RBrace, RBracket, Colon, Comma, Space}" by blast
    then show ?thesis
    proof cases
      case 1
      have "goes (p_bump p) (sp_start (tk_span t)) (parse_object num n t [] {} True None (p_bump p))"
        using O[rule_format, of "p_bump p" t "[]"] nx(1) op f by simp
      then show ?thesis using 1 Cons nx(3) goes_later[of "p_bump p" _ _ p] by (auto simp: goes_def)
    next
      case 2
      have "goes (p_bump p) (sp_start (tk_span t)) (parse_array num n t [] True None (p_bump p))"
        using A[rule_format, of "p_bump p" t "[]"] nx(1) op f by simp
      then show ?thesis using 2 Cons nx(3) goes_later[of "p_bump p" _ _ p] by (auto simp: goes_def)
    next
      case 3
      then show ?thesis using Cons ok nx(3) cursor_ok[OF ok] by (auto simp: goes_def span_ok_def)
    next
      case 4
      have u: "utf8_ok (p_text (p_bump p))" "token_ok (p_text (p_bump p)) t" using ok nx by (auto simp: parser_ok_def)
      from parse_scalar_ok[OF u, of num] obtain node q where "parse_scalar num t (p_bump p) = Some (node, q)" "p_text q = p_text p" "p_rest q = ts"
        "here q = here (p_bump p)" "parser_ok q" "node_span node = tk_span t" "node_ok (p_text p) node" using nx(1) Cons by auto
      then show ?thesis using 4 Cons nx by (auto simp: goes_def)
    qed
  qed
qed

lemma value_result:
  assumes V: "value_goes num n" and ok: "parser_ok q" and f: "2 * length (p_rest q) + 1 \<le> n"
  obtains v r where "parse_value num n q = Some (v, r)"
    "node_ok (p_text q) v" "parser_ok r" "p_text r = p_text q" "length (p_rest r) \<le> length (p_rest q)"
    "spans_in_order (cursor q) (cursor r) [node_span v]"
proof -
  have "goes q (cursor q) (parse_value num n q)" using V ok f by blast
  then obtain v r where v: "parse_value num n q = Some (v, r)" "node_ok (p_text q) v" "parser_ok r" "p_text r = p_text q"
    "length (p_rest r) \<le> length (p_rest q)" "cursor q \<le> sp_start (node_span v)" "sp_end (node_span v) \<le> cursor r" unfolding goes_def by blast
  have "sp_start (node_span v) \<le> sp_end (node_span v)" using v(2) by (cases v) (auto simp: span_ok_def)
  then show thesis using that[of v r] v by simp
qed

text \<open>The value of an entry, which is missing when there is no colon and no value begins.\<close>

lemma entry_value_ok:
  assumes V: "value_goes num n" and ok: "parser_ok q" and f: "2 * length (p_rest q) + 1 \<le> n"
  obtains v r where "(if go then parse_value num n q else Some (NMissing (span_here (sp_start (here q))), q)) = Some (v, r)"
    "node_ok (p_text q) v" "parser_ok r" "p_text r = p_text q" "length (p_rest r) \<le> length (p_rest q)"
    "spans_in_order (cursor q) (cursor r) [node_span v]"
proof (cases go)
  case True
  from value_result[OF assms] show thesis using that True by metis
next
  case False
  have "span_ok (p_text q) (span_here (cursor q))" using cursor_ok[OF ok] by (simp add: span_ok_def)
  then show thesis using that[of "NMissing (span_here (cursor q))" q] False ok by simp
qed

lemma object_step:
  assumes V: "value_goes num n" and O: "object_goes num n"
  shows "object_goes num (Suc n)"
proof (intro allI impI)
  fix p op_tok and es :: "'a entry list" and seen first comma
  assume ok: "parser_ok p" and op: "opened p op_tok (concat (map entry_spans es))" and es: "list_all (entry_ok (p_text p)) es"
    and fuel: "2 * length (p_rest p) + 1 \<le> Suc n"
  let ?r = "parse_object num (Suc n) op_tok es seen first comma p"
  show "goes p (sp_start (tk_span op_tok)) ?r"
  proof (cases "p_rest p")
    case Nil
    have "boundary (p_text p) (length (p_text p))" by (simp add: boundary_def)
    note sp = opened_span[OF op cursor_ok(2)[OF ok] this]
    show ?thesis using Nil sp es ok by (simp add: goes_def) (simp add: here_def eof_def)
  next
    case (Cons t ts)
    note nx = parser_ok_next[OF ok Cons]
    have f: "2 * length ts + 2 \<le> n" using fuel Cons by simp
    consider "tk_kind t = RBrace" | "is_string (tk_kind t)" | "tk_kind t \<noteq> RBrace" "\<not> is_string (tk_kind t)" by blast
    then show ?thesis
    proof cases
      case 1
      have e: "cursor p \<le> sp_end (tk_span t)" "boundary (p_text p) (sp_end (tk_span t))" using nx(3,4) by (auto simp: token_ok_def)
      have q: "parser_ok (p_bump (no_trailing comma p))" "here (p_bump (no_trailing comma p)) = here (p_bump p)"
        using nx(1) by (auto simp: no_trailing_def parser_ok_def here_def eof_def p_bump_def fail_def split: option.splits list.splits)
      have "p_text (no_trailing comma p) = p_text p" "p_rest (no_trailing comma p) = p_rest p" by (auto simp: no_trailing_def split: option.splits)
      then show ?thesis using 1 Cons opened_span[OF op e] q nx(2) es by (simp add: goes_def)
    next
      case 2
      from parse_key_ok[OF ok Cons 2, of seen first comma] obtain key colon q where k: "parse_key t seen first comma p = Some (key, colon, q)"
        "parser_ok q" "p_text q = p_text p" "length (p_rest q) \<le> length ts"
        "spans_in_order (cursor p) (cursor q) (tk_span t # (case colon of Some c \<Rightarrow> [c] | None \<Rightarrow> []))" by metis
      let ?go = "colon \<noteq> None \<or> (case p_rest q of t # _ \<Rightarrow> starts_value (tk_kind t) | [] \<Rightarrow> False)"
      have fq: "2 * length (p_rest q) + 1 \<le> n" using k(4) f by simp
      from entry_value_ok[OF V k(2) fq, of ?go] obtain v r where
        v: "(if ?go then parse_value num n q else Some (NMissing (span_here (sp_start (here q))), q)) = Some (v, r)"
        "node_ok (p_text q) v" "parser_ok r" "p_text r = p_text q" "length (p_rest r) \<le> length (p_rest q)"
        "spans_in_order (cursor q) (cursor r) [node_span v]" by blast
      obtain comma' u where c: "take_comma r = (comma', u)" by fastforce
      note tc = take_comma_ok[OF v(3) c]
      let ?e = "Entry key (tk_span t) colon v"
      have "spans_in_order (cursor p) (cursor r) (entry_spans ?e)"
        using spans_append[OF k(5) v(6)] by (simp add: entry_spans_def)
      then have "opened u op_tok (concat (map entry_spans (es @ [?e])))"
        using opened_later[OF op, of u "entry_spans ?e"] spans_widen[OF _ order_refl tc(4)] tc(2) v(4) k(3) by simp
      moreover have "doc ! sp_start (tk_span t) = quote_char" if "doc = p_text p" for doc
        using token_hd[OF nx(4)] nx(4) 2 that by (auto simp: token_ok_def)
      then have "list_all (entry_ok (p_text u)) (es @ [?e])"
        using es v(2,4) k(3) tc(2) nx(4) token_ok_span[OF nx(4)] by (simp add: token_ok_def)
      ultimately have "goes u (sp_start (tk_span op_tok)) (parse_object num n op_tok (es @ [?e]) (insert key seen) False comma' u)"
        using O[rule_format, of u op_tok "es @ [?e]"] tc(1,3) v(5) k(4) f by simp
      moreover have "?r = parse_object num n op_tok (es @ [?e]) (insert key seen) False comma' u"
        using 2 Cons k(1) v(1) c by (auto split del: if_split)
      ultimately show ?thesis using goes_later[of u _ _ p] tc(2,3) v(4,5) k(3,4) Cons by simp
    next
      case 3
      let ?p = "p_bump (fail (tk_span t) (missing_or first comma ''Expected a key'' ''}'') p)"
      have h: "here ?p = here (p_bump p)" "parser_ok ?p" using nx(1) by (auto simp: here_def eof_def p_bump_def fail_def parser_ok_def split: list.splits)
      then have "opened ?p op_tok (concat (map entry_spans es))" using opened_later[OF op, of ?p "[]"] nx(6) by simp
      then have "goes ?p (sp_start (tk_span op_tok)) (parse_object num n op_tok es seen first comma ?p)"
        using O[rule_format, of ?p op_tok es] h(2) es f Cons by simp
      then show ?thesis using 3 Cons goes_later[of ?p _ _ p] by simp
    qed
  qed
qed

lemma array_step:
  assumes V: "value_goes num n" and A: "array_goes num n"
  shows "array_goes num (Suc n)"
proof (intro allI impI)
  fix p op_tok and xs :: "'a json_node list" and first comma
  assume ok: "parser_ok p" and op: "opened p op_tok (map node_span xs)" and xs: "list_all (node_ok (p_text p)) xs"
    and fuel: "2 * length (p_rest p) + 2 \<le> Suc n"
  let ?r = "parse_array num (Suc n) op_tok xs first comma p"
  show "goes p (sp_start (tk_span op_tok)) ?r"
  proof (cases "p_rest p")
    case Nil
    have "boundary (p_text p) (length (p_text p))" by (simp add: boundary_def)
    note sp = opened_span[OF op cursor_ok(2)[OF ok] this]
    show ?thesis using Nil sp xs ok by (simp add: goes_def) (simp add: here_def eof_def)
  next
    case (Cons t ts)
    note nx = parser_ok_next[OF ok Cons]
    have f: "2 * length ts + 3 \<le> n" using fuel Cons by simp
    consider "tk_kind t = RBracket" | "tk_kind t \<in> {Colon, Comma, RBrace}" | "tk_kind t \<notin> {RBracket, Colon, Comma, RBrace}" by blast
    then show ?thesis
    proof cases
      case 1
      have e: "cursor p \<le> sp_end (tk_span t)" "boundary (p_text p) (sp_end (tk_span t))" using nx(3,4) by (auto simp: token_ok_def)
      have q: "parser_ok (p_bump (no_trailing comma p))" "here (p_bump (no_trailing comma p)) = here (p_bump p)"
        using nx(1) by (auto simp: no_trailing_def parser_ok_def here_def eof_def p_bump_def fail_def split: option.splits list.splits)
      have "p_text (no_trailing comma p) = p_text p" "p_rest (no_trailing comma p) = p_rest p" by (auto simp: no_trailing_def split: option.splits)
      then show ?thesis using 1 Cons opened_span[OF op e] q nx(2) xs by (simp add: goes_def)
    next
      case 2
      let ?p = "p_bump (fail (tk_span t) ''Expected a value'' p)"
      have h: "here ?p = here (p_bump p)" "parser_ok ?p" using nx(1) by (auto simp: here_def eof_def p_bump_def fail_def parser_ok_def split: list.splits)
      then have "opened ?p op_tok (map node_span xs)" using opened_later[OF op, of ?p "[]"] nx(6) by simp
      then have "goes ?p (sp_start (tk_span op_tok)) (parse_array num n op_tok xs first comma ?p)"
        using A[rule_format, of ?p op_tok xs] h(2) xs f Cons by simp
      moreover have "?r = parse_array num n op_tok xs first comma ?p" using 2 Cons by auto
      ultimately show ?thesis using Cons goes_later[of ?p _ _ p] by simp
    next
      case 3
      define p' where "p' = (if \<not> first \<and> comma = None then fail (tk_span t) (''Expected '' @ in_quotes '','' @ '' or '' @ in_quotes '']'') p else p)"
      have p: "parser_ok p'" "p_rest p' = t # ts" "p_text p' = p_text p" "here p' = here p" using ok Cons by (auto simp: p'_def)
      have fp: "2 * length (p_rest p') + 1 \<le> n" using f p(2) by simp
      from value_result[OF V p(1) fp] obtain v r where
        v: "parse_value num n p' = Some (v, r)" "node_ok (p_text p') v" "parser_ok r" "p_text r = p_text p'"
        "spans_in_order (cursor p') (cursor r) [node_span v]" by blast
      have "tk_kind t \<notin> {RBrace, RBracket, Colon, Comma, Space}" using 3 nx(5) by auto
      then have len: "length (p_rest r) \<le> length ts" using V[rule_format, OF p(1) fp] p(2) v(1) by blast
      obtain comma' u where c: "take_comma r = (comma', u)" by fastforce
      note tc = take_comma_ok[OF v(3) c]
      have "spans_in_order (cursor p) (cursor u) [node_span v]" using spans_widen[OF v(5) order_refl tc(4)] p(4) by simp
      then have "opened u op_tok (map node_span (xs @ [v]))"
        using opened_later[OF op, of u "[node_span v]"] tc(2) v(4) p(3) by simp
      then have "goes u (sp_start (tk_span op_tok)) (parse_array num n op_tok (xs @ [v]) False comma' u)"
        using A[rule_format, of u op_tok "xs @ [v]"] tc(1-3) v(2,4) p(3) xs len f by simp
      moreover have "?r = parse_array num n op_tok (xs @ [v]) False comma' u"
        using 3 Cons v(1) c by (simp add: Let_def p'_def[symmetric] split del: if_split)
      ultimately show ?thesis using goes_later[of u _ _ p] tc(2,3) v(4) p(3) len Cons by simp
    qed
  qed
qed

lemma parser_goes: "value_goes num n \<and> object_goes num n \<and> array_goes num n"
proof (induction n)
  case (Suc n)
  then show ?case using value_step[where num = num and n = n] object_step[where num = num and n = n] array_step[where num = num and n = n] by blast
qed simp

declare parse_value.simps [simp del] parse_object.simps [simp del] parse_array.simps [simp del]

section \<open>Documents\<close>

lemma toks_of_covers: "covers i (length doc) ts \<Longrightarrow> \<forall>t \<in> set ts. token_ok doc t \<Longrightarrow> toks_ok doc i (filter (\<lambda>t. tk_kind t \<noteq> Space) ts)"
proof (induction i "length doc" ts rule: covers.induct)
  case (2 i t ts)
  then show ?case using toks_lower[of doc "sp_end (tk_span t)" _ i] by auto
qed simp

lemma space_iff_ws: "token_ok doc t \<Longrightarrow> tk_kind t = Space \<longleftrightarrow> list_all is_ws (lexeme doc t)"
  by (cases "tk_kind t") (auto simp: token_ok_def is_ws_def in_range_def neq_Nil_conv)

lemma blank_iff:
  assumes "covers 0 (length doc) ts" "\<forall>t \<in> set ts. token_ok doc t"
  shows "filter (\<lambda>t. tk_kind t \<noteq> Space) ts = [] \<longleftrightarrow> list_all is_ws doc"
proof -
  have "list_all is_ws doc \<longleftrightarrow> list_all is_ws (concat (map (lexeme doc) ts))" using covers_concat[OF assms(1), of doc] by simp
  also have "\<dots> \<longleftrightarrow> (\<forall>t \<in> set ts. list_all is_ws (lexeme doc t))" by (auto simp: list_all_iff)
  also have "\<dots> \<longleftrightarrow> (\<forall>t \<in> set ts. tk_kind t = Space)" using space_iff_ws assms(2) by blast
  finally show ?thesis by (simp add: filter_empty_conv)
qed

definition parse_finish :: "'f json_node \<times> parser \<Rightarrow> 'f parsed" where
  "parse_finish r = (case r of (root, p) \<Rightarrow> (let p = (case p_rest p of t # _ \<Rightarrow> fail (tk_span t) ''Unexpected text after the document'' p | [] \<Rightarrow> p)
     in \<lparr>pd_root = Some root, pd_error = p_error p\<rparr>))"

lemma parse_unfold:
  assumes "tokenize doc = Some ts" "toks = filter (\<lambda>t. tk_kind t \<noteq> Space) ts"
  shows "parse num doc = (if toks = [] then Some \<lparr>pd_root = None, pd_error = None\<rparr> else
    map_option parse_finish (parse_value num (2 * length toks + 2) \<lparr>p_text = doc, p_rest = toks, p_error = None\<rparr>))"
  unfolding parse_def assms(1) option.case Let_def assms(2)[symmetric] parse_finish_def ..

lemma parse_result:
  assumes "utf8_ok doc"
  shows "\<exists>r. parse num doc = Some r \<and> (pd_root r = None \<longleftrightarrow> list_all is_ws doc) \<and> (\<forall>root. pd_root r = Some root \<longrightarrow> node_ok doc root)"
proof -
  obtain ts where ts: "tokenize doc = Some ts" "covers 0 (length doc) ts" "\<forall>t \<in> set ts. token_ok doc t"
    using assms by (rule tokenize_spec)
  define toks where "toks = filter (\<lambda>t. tk_kind t \<noteq> Space) ts"
  define p where "p = \<lparr>p_text = doc, p_rest = toks, p_error = None\<rparr>"
  have ok: "parser_ok p" "2 * length (p_rest p) + 1 \<le> 2 * length toks + 2"
    using assms toks_of_covers[OF ts(2,3)] by (auto simp: parser_ok_def p_def toks_def)
  from parser_goes[where num = num and n = "2 * length toks + 2"] have "value_goes num (2 * length toks + 2)" by (rule conjunct1)
  from value_result[OF this ok] obtain root q where v: "parse_value num (2 * length toks + 2) p = Some (root, q)" "node_ok (p_text p) root" by blast
  show ?thesis using v blank_iff[OF ts(2,3)] unfolding toks_def[symmetric] parse_unfold[OF ts(1) toks_def] p_def[symmetric]
    by (cases "toks = []") (simp_all add: parse_finish_def Let_def p_def)
qed

lemma parsed_exists: "utf8_ok doc \<Longrightarrow> \<exists>r. parse num doc = Some r"
  using parse_result by blast

lemma parsed_node_ok: "utf8_ok doc \<Longrightarrow> parse num doc = Some r \<Longrightarrow> pd_root r = Some root \<Longrightarrow> node_ok doc root"
  using parse_result[of doc num] by auto

text \<open>
  C14: parsing always returns. However broken a well-formed text is as a document, the parser never slices inside a character and
  its fuel of two units per token and two more is enough; the root is absent exactly for blank text. The tree it keeps is
  in order: every span begins and ends between characters, the keys, colons and values of an object and the items of
  an array follow each other inside their container, and only a container that reaches the end of the text is unclosed.
\<close>

theorem parse_total:
  assumes "utf8_ok doc"
  shows "\<exists>r. parse num doc = Some r \<and> (pd_root r = None \<longleftrightarrow> list_all is_ws doc) \<and> (\<forall>root. pd_root r = Some root \<longrightarrow> node_ok doc root)"
  using assms by (rule parse_result)

definition unit_num :: "string \<Rightarrow> (unit \<times> bool) option" where
  "unit_num r = Some ((), True)"

theorem parse_total_witness:
  "utf8_ok sample_doc \<and> \<not> list_all is_ws sample_doc \<and>
   (\<exists>r root. parse unit_num sample_doc = Some r \<and> pd_root r = Some root \<and> node_ok sample_doc root)"
proof -
  have ok: "utf8_ok sample_doc" "\<not> list_all is_ws sample_doc" by code_simp+
  then show ?thesis using parse_total[OF ok(1), of unit_num] by auto
qed

end
