(* ===== verification/Json_Grammar.thy ===== *)
theory Json_Grammar
  imports Json_Trees
begin

text \<open>
  The grammar of JSON documents over tokens, and that the parser of \<open>rivers-ui/src/json_text.rs\<close> reports no error exactly
  for the documents of the grammar, whose tree it then returns. An object must not repeat a key.
\<close>

section \<open>The grammar\<close>

definition string_lit :: "string \<Rightarrow> token \<Rightarrow> string \<Rightarrow> bool" where
  "string_lit doc t v \<longleftrightarrow> (tk_kind t = KeyTok \<or> tk_kind t = StrTok) \<and> unescape (string_inner t (lexeme doc t)) = Some v"

inductive jvalue :: "(string \<Rightarrow> ('f \<times> bool) option) \<Rightarrow> string \<Rightarrow> token list \<Rightarrow> 'f json_node \<Rightarrow> bool"
  and jmembers :: "(string \<Rightarrow> ('f \<times> bool) option) \<Rightarrow> string \<Rightarrow> token list \<Rightarrow> 'f entry list \<Rightarrow> bool"
  and jitems :: "(string \<Rightarrow> ('f \<times> bool) option) \<Rightarrow> string \<Rightarrow> token list \<Rightarrow> 'f json_node list \<Rightarrow> bool"
  for num doc
where
  jstr: "string_lit doc t v \<Longrightarrow> jvalue num doc [t] (NStr (tk_span t) v)"
| jnum: "tk_kind t = NumTok \<Longrightarrow> number num (lexeme doc t) = Some (v, w) \<Longrightarrow> jvalue num doc [t] (NNum (tk_span t) v w)"
| jbool: "tk_kind t = BoolTok \<Longrightarrow> jvalue num doc [t] (NBool (tk_span t) (lexeme doc t = ''true''))"
| jnull: "tk_kind t = NullTok \<Longrightarrow> jvalue num doc [t] (NNull (tk_span t))"
| jobject0: "tk_kind l = LBrace \<Longrightarrow> tk_kind r = RBrace \<Longrightarrow>
    jvalue num doc [l, r] (NObject (mk_span (sp_start (tk_span l)) (sp_end (tk_span r))) [] True)"
| jobject: "tk_kind l = LBrace \<Longrightarrow> jmembers num doc ms es \<Longrightarrow> distinct (map e_key es) \<Longrightarrow> tk_kind r = RBrace \<Longrightarrow>
    jvalue num doc (l # ms @ [r]) (NObject (mk_span (sp_start (tk_span l)) (sp_end (tk_span r))) es True)"
| jarray0: "tk_kind l = LBracket \<Longrightarrow> tk_kind r = RBracket \<Longrightarrow>
    jvalue num doc [l, r] (NArray (mk_span (sp_start (tk_span l)) (sp_end (tk_span r))) [] True)"
| jarray: "tk_kind l = LBracket \<Longrightarrow> jitems num doc its xs \<Longrightarrow> tk_kind r = RBracket \<Longrightarrow>
    jvalue num doc (l # its @ [r]) (NArray (mk_span (sp_start (tk_span l)) (sp_end (tk_span r))) xs True)"
| jmember: "string_lit doc k key \<Longrightarrow> tk_kind c = Colon \<Longrightarrow> jvalue num doc vs v \<Longrightarrow>
    jmembers num doc (k # c # vs) [Entry key (tk_span k) (Some (tk_span c)) v]"
| jmembers: "string_lit doc k key \<Longrightarrow> tk_kind c = Colon \<Longrightarrow> jvalue num doc vs v \<Longrightarrow> tk_kind m = Comma \<Longrightarrow> jmembers num doc ms es \<Longrightarrow>
    jmembers num doc (k # c # vs @ m # ms) (Entry key (tk_span k) (Some (tk_span c)) v # es)"
| jitem: "jvalue num doc vs v \<Longrightarrow> jitems num doc vs [v]"
| jitems: "jvalue num doc vs v \<Longrightarrow> tk_kind m = Comma \<Longrightarrow> jitems num doc its xs \<Longrightarrow> jitems num doc (vs @ m # its) (v # xs)"

lemma jvalue_hd: "jvalue num doc ts node \<Longrightarrow> \<exists>t us. ts = t # us \<and> tk_kind t \<in> {LBrace, LBracket, KeyTok, StrTok, NumTok, BoolTok, NullTok}"
  by (erule jvalue.cases) (auto simp: string_lit_def)

section \<open>Steps without error\<close>

lemma fail_error [simp]: "p_error (fail s m p) = None \<longleftrightarrow> False" "\<exists>e. p_error (fail s m p) = Some e"
  by (auto simp: fail_def)

lemma bump_error [simp]: "p_error (p_bump p) = p_error p"
  by (simp add: p_bump_def)

lemma toks_suffix: "toks_ok doc lo (ts @ us) \<Longrightarrow> toks_ok doc lo us"
proof (induction ts arbitrary: lo)
  case (Cons t ts)
  then have "toks_ok doc (sp_end (tk_span t)) us" "lo \<le> sp_end (tk_span t)" by (auto simp: token_ok_def)
  then show ?case by (rule toks_lower)
qed simp

lemma parser_ok_suffix: "parser_ok p \<Longrightarrow> p_rest p = ts @ p_rest q \<Longrightarrow> p_text q = p_text p \<Longrightarrow> parser_ok q"
  by (auto simp: parser_ok_def dest: toks_suffix)

lemma parser_ok_drop: "parser_ok p \<Longrightarrow> p_rest p = ts @ us \<Longrightarrow> parser_ok (p\<lparr>p_rest := us\<rparr>)"
  by (rule parser_ok_suffix) auto

lemma parser_ok_token: "parser_ok p \<Longrightarrow> p_rest p = ts @ t # us \<Longrightarrow> token_ok (p_text p) t"
  using toks_suffix[of "p_text p" 0 ts "t # us"] by (simp add: parser_ok_def)

lemma parse_string_clean:
  assumes "utf8_ok (p_text p)" "token_ok (p_text p) t" "is_string (tk_kind t)"
  shows "parse_string t p = Some (v, q) \<and> p_error q = None \<longleftrightarrow> q = p \<and> p_error p = None \<and> string_lit (p_text p) t v"
  unfolding parse_string_def string_body_ok[OF assms] string_lit_def using assms(3)
  by (auto simp: Let_def split: option.splits if_splits)

lemma parse_scalar_clean:
  assumes "utf8_ok (p_text p)" "token_ok (p_text p) t" "tk_kind t \<notin> {LBrace, LBracket, RBrace, RBracket, Colon, Comma, Space}"
  shows "parse_scalar num t p = Some (node, q) \<and> p_error q = None \<longleftrightarrow> q = p \<and> p_error p = None \<and> jvalue num (p_text p) [t] node"
proof (cases "is_string (tk_kind t)")
  case True
  have "jvalue num (p_text p) [t] node \<longleftrightarrow> (\<exists>v. string_lit (p_text p) t v \<and> node = NStr (tk_span t) v)"
    using True by (auto elim: jvalue.cases intro: jvalue_jmembers_jitems.intros)
  then show ?thesis using True parse_string_clean[OF assms(1,2) True] by (auto simp: parse_scalar_def)
next
  case False
  have "jvalue num (p_text p) [t] node \<longleftrightarrow>
      (tk_kind t = NumTok \<and> (\<exists>v w. number num (lexeme (p_text p) t) = Some (v, w) \<and> node = NNum (tk_span t) v w)) \<or>
      (tk_kind t = BoolTok \<and> node = NBool (tk_span t) (lexeme (p_text p) t = ''true'')) \<or> (tk_kind t = NullTok \<and> node = NNull (tk_span t))"
    using False by (auto elim: jvalue.cases intro: jvalue_jmembers_jitems.intros simp: string_lit_def)
  then show ?thesis using False raw_token[OF assms(2)]
    by (auto simp: parse_scalar_def Let_def split: option.splits prod.splits)
qed

lemma parse_key_clean:
  assumes "parser_ok p" "p_rest p = t # ts" "is_string (tk_kind t)"
  shows "parse_key t seen first comma p = Some (key, colon, q) \<and> p_error q = None \<longleftrightarrow>
    p_error p = None \<and> (first \<or> comma \<noteq> None) \<and> string_lit (p_text p) t key \<and> key \<notin> seen \<and>
    (\<exists>c us. ts = c # us \<and> tk_kind c = Colon \<and> colon = Some (tk_span c) \<and> q = p\<lparr>p_rest := us\<rparr>)" (is "?l = ?r")
proof -
  define p' where "p' = (if \<not> first \<and> comma = None then fail (tk_span t) (''Expected '' @ in_quotes '','' @ '' or '' @ in_quotes ''}'') p else p)"
  have p': "p_error p' = None \<longleftrightarrow> p_error p = None \<and> (first \<or> comma \<noteq> None)" "p_text p' = p_text p" "p_rest p' = t # ts"
    "p_error p' = None \<Longrightarrow> p' = p" using assms(2) by (auto simp: p'_def split: if_splits)
  have u: "utf8_ok (p_text (p_bump p'))" "token_ok (p_text (p_bump p')) t" using assms p' by (auto simp: parser_ok_def)
  from parse_string_ok[OF u assms(3)] obtain key' s where s0: "parse_string t (p_bump p') = Some (key', s)" "p_rest s = p_rest (p_bump p')" by blast
  have s: "parse_string t (p_bump p') = Some (key', s)" "p_rest s = ts" using s0 p'(3) by auto
  have clean: "key' = k \<and> p_error s = None \<longleftrightarrow> s = p_bump p' \<and> key' = k \<and> p_error p' = None \<and> string_lit (p_text p) t k" for k
    using parse_string_clean[OF u assms(3), of k s] s(1) p'(2) by auto
  have again: "key' = k \<and> s = p_bump p'" if "p_error p' = None" "string_lit (p_text p) t k" for k
    using parse_string_clean[OF u assms(3), of k "p_bump p'"] s(1) p'(2) that by auto
  define s' where "s' = (if key' \<in> seen then fail (tk_span t) (''Duplicate key '' @ in_quotes key') s else s)"
  have s': "p_rest s' = ts" "p_error s' = None \<longleftrightarrow> p_error s = None \<and> key' \<notin> seen" "key' \<notin> seen \<Longrightarrow> s' = s"
    using s(2) by (auto simp: s'_def)
  have b: "p_bump (p_bump p) = p\<lparr>p_rest := tl ts\<rparr>" using assms(2) by (simp add: p_bump_def)
  have pk: "parse_key t seen first comma p = Some (case ts of
      c # _ \<Rightarrow> (if tk_kind c = Colon then (key', Some (tk_span c), p_bump s') else (key', None, fail (here s') (''Expected '' @ in_quotes '':'') s'))
    | [] \<Rightarrow> (key', None, fail (here s') (''Expected '' @ in_quotes '':'') s'))"
    unfolding parse_key_def Let_def p'_def[symmetric] s(1) option.map prod.case s'_def[symmetric] s'(1) by (cases ts) auto
  show ?thesis
  proof
    assume ?l
    then obtain c us where c: "ts = c # us" "tk_kind c = Colon" "colon = Some (tk_span c)" "q = p_bump s'" "key' = key" "p_error s' = None"
      unfolding pk by (auto split: list.splits if_splits)
    then have k: "key \<notin> seen" "s = p_bump p'" "p_error p' = None" "string_lit (p_text p) t key" using s'(2) clean[of key] by auto
    have "s' = p_bump p'" using s'(3) k(1,2) c(5) by blast
    then have "q = p\<lparr>p_rest := us\<rparr>" using c(1,4) b p'(4)[OF k(3)] by simp
    then show ?r using k(1,4) p'(1) k(3) c(1-3) by blast
  next
    assume r: ?r
    then have "p_error p' = None" using p'(1) by blast
    with r have k: "key' = key" "s = p_bump p" "s' = s" using again[of key] p'(4) s'(3) by auto
    show ?l unfolding pk using r k b by auto
  qed
qed

lemma take_comma_clean:
  "take_comma p = (comma, q) \<Longrightarrow> p_error q = p_error p \<and> p_text q = p_text p \<and>
     (comma = None \<and> q = p \<or> (\<exists>m us. p_rest p = m # us \<and> tk_kind m = Comma \<and> comma = Some (tk_span m) \<and> q = p\<lparr>p_rest := us\<rparr>))"
  by (auto simp: take_comma_def p_bump_def split: list.splits if_splits)

lemma no_trailing_error: "p_error (no_trailing comma p) = None \<longleftrightarrow> p_error p = None \<and> comma = None"
  by (auto simp: no_trailing_def split: option.splits)

section \<open>Progress\<close>

text \<open>Every step leaves a rest of the tokens and never takes back an error.\<close>

definition moves_on :: "parser \<Rightarrow> parser \<Rightarrow> bool" where
  "moves_on p q \<longleftrightarrow> p_text q = p_text p \<and> (\<exists>ts. p_rest p = ts @ p_rest q) \<and> (p_error q = None \<longrightarrow> p_error p = None)"

lemma moves_on_refl [simp]: "moves_on p p"
  by (simp add: moves_on_def)

lemma moves_on_trans [trans]: "moves_on p q \<Longrightarrow> moves_on q r \<Longrightarrow> moves_on p r"
  by (auto simp: moves_on_def)

lemma moves_on_ok: "moves_on p q \<Longrightarrow> parser_ok p \<Longrightarrow> parser_ok q"
  using parser_ok_suffix by (auto simp: moves_on_def)

lemma moves_on_fail [simp]: "moves_on p (fail s m p)"
  by (simp add: moves_on_def)

lemma moves_on_bump [simp]: "moves_on p (p_bump p)"
  by (cases "p_rest p") (auto simp: moves_on_def)

lemma moves_on_string: "parse_string t p = Some (v, q) \<Longrightarrow> moves_on p q"
  by (auto simp: parse_string_def moves_on_def Let_def split: option.splits if_splits)

lemma moves_on_scalar: "parse_scalar num t p = Some (node, q) \<Longrightarrow> moves_on p q"
  by (auto simp: parse_scalar_def Let_def split: option.splits if_splits prod.splits dest: moves_on_string)

lemma moves_on_key:
  assumes "parse_key t seen first comma p = Some (key, colon, q)"
  shows "moves_on p q"
proof -
  define p' where "p' = (if \<not> first \<and> comma = None then fail (tk_span t) (''Expected '' @ in_quotes '','' @ '' or '' @ in_quotes ''}'') p else p)"
  obtain key' s where s: "parse_string t (p_bump p') = Some (key', s)"
    using assms unfolding parse_key_def Let_def p'_def[symmetric] by (auto split: prod.splits)
  define s' where "s' = (if key' \<in> seen then fail (tk_span t) (''Duplicate key '' @ in_quotes key') s else s)"
  have "q = p_bump s' \<or> q = fail (here s') (''Expected '' @ in_quotes '':'') s'"
    using assms unfolding parse_key_def Let_def p'_def[symmetric] s option.map prod.case s'_def[symmetric] by (auto split: list.splits if_splits)
  then have "moves_on s' q" by auto
  moreover have "moves_on p p'" "moves_on s s'" by (simp_all add: p'_def s'_def)
  ultimately show ?thesis using moves_on_string[OF s] moves_on_trans moves_on_bump by blast
qed

lemma moves_on_comma: "take_comma p = (comma, q) \<Longrightarrow> moves_on p q"
  by (auto simp: take_comma_def split: list.splits if_splits)

lemma moves_on_trailing [simp]: "moves_on p (no_trailing comma p)"
  by (auto simp: no_trailing_def split: option.splits)

lemma moves_on_skip: "moves_on p (p_bump (fail s m p))" "moves_on p (p_bump (no_trailing comma p))"
  using moves_on_trans[OF _ moves_on_bump] moves_on_fail moves_on_trailing by blast+

text \<open>One iteration of the loops over members and items.\<close>

lemma object_iter:
  assumes "parse_object num (Suc n) op_tok es seen first comma p = Some (node, q)" "p_rest p = t # ts" "is_string (tk_kind t)"
  obtains key colon k v s comma' u where "parse_key t seen first comma p = Some (key, colon, k)"
    "colon \<noteq> None \<longrightarrow> parse_value num n k = Some (v, s)" "parse_value num n k = Some (v, s) \<or> s = k" "take_comma s = (comma', u)"
    "parse_object num n op_tok (es @ [Entry key (tk_span t) colon v]) (insert key seen) False comma' u = Some (node, q)"
proof -
  obtain key colon k v s where
    k: "parse_key t seen first comma p = Some (key, colon, k)" and
    v: "(if colon \<noteq> None \<or> (case p_rest k of t # _ \<Rightarrow> starts_value (tk_kind t) | [] \<Rightarrow> False)
         then parse_value num n k else Some (NMissing (span_here (sp_start (here k))), k)) = Some (v, s)" and
    o: "(case take_comma s of (comma, p) \<Rightarrow> parse_object num n op_tok (es @ [Entry key (tk_span t) colon v]) (insert key seen) False comma p) = Some (node, q)"
    using assms by (auto simp: parse_object.simps split: option.splits)
  obtain comma' u where c: "take_comma s = (comma', u)" by fastforce
  show thesis using that[OF k _ _ c] v o c by (auto split: if_splits)
qed

lemma array_iter:
  assumes "parse_array num (Suc n) op_tok xs first comma p = Some (node, q)" "p_rest p = t # ts" "tk_kind t \<notin> {RBracket, Colon, Comma, RBrace}"
  obtains p' v s comma' u where "moves_on p p'" "p_rest p' = p_rest p" "p_error p' = None \<longrightarrow> (first \<or> comma \<noteq> None) \<and> p' = p"
    "parse_value num n p' = Some (v, s)" "take_comma s = (comma', u)"
    "parse_array num n op_tok (xs @ [v]) False comma' u = Some (node, q)"
proof -
  define p' where "p' = (if \<not> first \<and> comma = None then fail (tk_span t) (''Expected '' @ in_quotes '','' @ '' or '' @ in_quotes '']'') p else p)"
  have p: "moves_on p p'" "p_rest p' = p_rest p" "p_error p' = None \<longrightarrow> (first \<or> comma \<noteq> None) \<and> p' = p" by (auto simp: p'_def)
  have "(case parse_value num n p' of None \<Rightarrow> None
      | Some (v, p) \<Rightarrow> (case take_comma p of (comma, p) \<Rightarrow> parse_array num n op_tok (xs @ [v]) False comma p)) = Some (node, q)"
    using assms by (simp add: parse_array.simps Let_def p'_def[symmetric] split del: if_split)
  then obtain v s where v: "parse_value num n p' = Some (v, s)"
    "(case take_comma s of (comma, p) \<Rightarrow> parse_array num n op_tok (xs @ [v]) False comma p) = Some (node, q)" by (auto split: option.splits)
  obtain comma' u where c: "take_comma s = (comma', u)" by fastforce
  show thesis using that[OF p v(1) c] v(2) c by simp
qed

lemma parse_moves_on:
  fixes node :: "'f json_node" and es :: "'f entry list"
  shows "parse_value num n p = Some (node, q) \<Longrightarrow> moves_on p q"
    and "parse_object num n op_tok es seen first comma p = Some (node, q) \<Longrightarrow> moves_on p q"
    and "parse_array num n op_tok xs first comma p = Some (node, q) \<Longrightarrow> moves_on p q"
proof (induction n arbitrary: p node q op_tok es seen first comma xs)
  case (Suc n)
  { case 1
    then show ?case
      by (cases "p_rest p") (auto simp: parse_value.simps split: if_splits dest!: Suc.IH(2,3) moves_on_scalar intro: moves_on_trans[OF moves_on_bump])
  next
    case 2
    show ?case
    proof (cases "p_rest p")
      case Nil
      then show ?thesis using 2 by (auto simp: parse_object.simps)
    next
      case (Cons t ts)
      show ?thesis
      proof (cases "is_string (tk_kind t)")
        case True
        obtain key colon k v s comma' u where i: "parse_key t seen first comma p = Some (key, colon, k)"
        "colon \<noteq> None \<longrightarrow> parse_value num n k = Some (v, s)" "parse_value num n k = Some (v, s) \<or> s = k" "take_comma s = (comma', u)"
        "parse_object num n op_tok (es @ [Entry key (tk_span t) colon v]) (insert key seen) False comma' u = Some (node, q)"
          by (rule object_iter[OF 2 Cons True])
        have "moves_on k s" using i(3) Suc.IH(1) by auto
        then show ?thesis using moves_on_key[OF i(1)] moves_on_comma[OF i(4)] Suc.IH(2)[OF i(5)] moves_on_trans by blast
      next
        case False
        then have "q = p_bump (no_trailing comma p) \<or>
            parse_object num n op_tok es seen first comma (p_bump (fail (tk_span t) (missing_or first comma ''Expected a key'' ''}'') p)) = Some (node, q)"
          using 2 Cons by (auto simp: parse_object.simps split: if_splits)
        then show ?thesis using moves_on_skip(2) by (auto dest!: Suc.IH(2) intro: moves_on_trans[OF moves_on_skip(1)])
      qed
    qed
  next
    case 3
    show ?case
    proof (cases "p_rest p")
      case Nil
      then show ?thesis using 3 by (auto simp: parse_array.simps)
    next
      case (Cons t ts)
      show ?thesis
      proof (cases "tk_kind t \<in> {RBracket, Colon, Comma, RBrace}")
        case True
        then have "q = p_bump (no_trailing comma p) \<or>
            parse_array num n op_tok xs first comma (p_bump (fail (tk_span t) ''Expected a value'' p)) = Some (node, q)"
          using 3 Cons by (auto simp: parse_array.simps split: if_splits)
        then show ?thesis using moves_on_skip(2) by (auto dest!: Suc.IH(3) intro: moves_on_trans[OF moves_on_skip(1)])
      next
        case False
        obtain p' v s comma' u where i: "moves_on p p'" "p_rest p' = p_rest p"
        "p_error p' = None \<longrightarrow> (first \<or> comma \<noteq> None) \<and> p' = p" "parse_value num n p' = Some (v, s)" "take_comma s = (comma', u)"
        "parse_array num n op_tok (xs @ [v]) False comma' u = Some (node, q)"
          by (rule array_iter[OF 3 Cons False])
        then show ?thesis using Suc.IH(1)[OF i(4)] moves_on_comma[OF i(5)] Suc.IH(3)[OF i(6)] moves_on_trans by blast
      qed
    qed
  }
qed (simp_all add: parse_value.simps parse_object.simps parse_array.simps)

section \<open>No error only for the grammar\<close>

text \<open>What the loops over members and items still read: at once the closing token, or a list of the grammar before it.\<close>

definition object_tail ::
  "(string \<Rightarrow> ('f \<times> bool) option) \<Rightarrow> string \<Rightarrow> token \<Rightarrow> 'f entry list \<Rightarrow> string set \<Rightarrow> bool \<Rightarrow> token list \<Rightarrow> token list \<Rightarrow> 'f json_node \<Rightarrow> bool" where
  "object_tail num doc op_tok es seen expects ts us node \<longleftrightarrow>
     (\<exists>ms r es'. ts = ms @ r # us \<and> tk_kind r = RBrace \<and>
        node = NObject (mk_span (sp_start (tk_span op_tok)) (sp_end (tk_span r))) (es @ es') True \<and>
        distinct (map e_key es') \<and> e_key ` set es' \<inter> seen = {} \<and>
        (if expects then jmembers num doc ms es' else ms = [] \<and> es' = []))"

definition array_tail ::
  "(string \<Rightarrow> ('f \<times> bool) option) \<Rightarrow> string \<Rightarrow> token \<Rightarrow> 'f json_node list \<Rightarrow> bool \<Rightarrow> token list \<Rightarrow> token list \<Rightarrow> 'f json_node \<Rightarrow> bool" where
  "array_tail num doc op_tok xs expects ts us node \<longleftrightarrow>
     (\<exists>its r xs'. ts = its @ r # us \<and> tk_kind r = RBracket \<and>
        node = NArray (mk_span (sp_start (tk_span op_tok)) (sp_end (tk_span r))) (xs @ xs') True \<and>
        (if expects then jitems num doc its xs' else its = [] \<and> xs' = []))"

lemma object_tail_member:
  assumes "object_tail num doc op_tok (es @ [Entry key (tk_span k) (Some (tk_span c)) v]) (insert key seen) expects rest us node"
    and "string_lit doc k key" "tk_kind c = Colon" "jvalue num doc vs v" "key \<notin> seen"
    and "ts = k # c # vs @ (if expects then m # rest else rest)" "expects \<longrightarrow> tk_kind m = Comma"
  shows "object_tail num doc op_tok es seen True ts us node"
proof -
  let ?e = "Entry key (tk_span k) (Some (tk_span c)) v"
  obtain ms r es' where t: "rest = ms @ r # us" "tk_kind r = RBrace" "distinct (map e_key es')" "e_key ` set es' \<inter> insert key seen = {}"
    "node = NObject (mk_span (sp_start (tk_span op_tok)) (sp_end (tk_span r))) ((es @ [?e]) @ es') True"
    "if expects then jmembers num doc ms es' else ms = [] \<and> es' = []" using assms(1) unfolding object_tail_def by auto
  have "jmembers num doc (k # c # vs @ (if expects then m # ms else [])) (?e # es')"
    using t(6) assms(2-4,7) by (auto split: if_splits intro: jvalue_jmembers_jitems.intros)
  moreover have "ts = (k # c # vs @ (if expects then m # ms else [])) @ r # us" using assms(6) t(1,6) by (auto split: if_splits)
  ultimately show ?thesis unfolding object_tail_def using t(2-5) assms(5)
    by (intro exI[of _ "k # c # vs @ (if expects then m # ms else [])"] exI[of _ r] exI[of _ "?e # es'"]) auto
qed

lemma array_tail_item:
  assumes "array_tail num doc op_tok (xs @ [v]) expects rest us node"
    and "jvalue num doc vs v" "ts = vs @ (if expects then m # rest else rest)" "expects \<longrightarrow> tk_kind m = Comma"
  shows "array_tail num doc op_tok xs True ts us node"
proof -
  obtain its r xs' where t: "rest = its @ r # us" "tk_kind r = RBracket"
    "node = NArray (mk_span (sp_start (tk_span op_tok)) (sp_end (tk_span r))) ((xs @ [v]) @ xs') True"
    "if expects then jitems num doc its xs' else its = [] \<and> xs' = []" using assms(1) unfolding array_tail_def by auto
  have "jitems num doc (vs @ (if expects then m # its else [])) (v # xs')"
    using t(4) assms(2,4) by (auto split: if_splits intro: jvalue_jmembers_jitems.intros)
  moreover have "ts = (vs @ (if expects then m # its else [])) @ r # us" using assms(3) t(1,4) by (auto split: if_splits)
  ultimately show ?thesis unfolding array_tail_def using t(2,3)
    by (intro exI[of _ "vs @ (if expects then m # its else [])"] exI[of _ r] exI[of _ "v # xs'"]) auto
qed

lemma object_tail_value:
  assumes "object_tail num doc t [] {} expects ts us node" "tk_kind t = LBrace"
  shows "\<exists>vs. ts = vs @ us \<and> jvalue num doc (t # vs) node"
proof -
  obtain ms r es where t: "ts = ms @ r # us" "tk_kind r = RBrace" "distinct (map e_key es)"
    "node = NObject (mk_span (sp_start (tk_span t)) (sp_end (tk_span r))) es True" "if expects then jmembers num doc ms es else ms = [] \<and> es = []"
    using assms(1) unfolding object_tail_def by auto
  have "jvalue num doc (t # ms @ [r]) node"
    using t(5) jobject[OF assms(2) _ t(3,2)] jobject0[OF assms(2) t(2)] unfolding t(4) by (cases expects) auto
  then show ?thesis using t(1) by (intro exI[of _ "ms @ [r]"]) simp
qed

lemma array_tail_value:
  assumes "array_tail num doc t [] expects ts us node" "tk_kind t = LBracket"
  shows "\<exists>vs. ts = vs @ us \<and> jvalue num doc (t # vs) node"
proof -
  obtain its r xs where t: "ts = its @ r # us" "tk_kind r = RBracket"
    "node = NArray (mk_span (sp_start (tk_span t)) (sp_end (tk_span r))) xs True" "if expects then jitems num doc its xs else its = [] \<and> xs = []"
    using assms(1) unfolding array_tail_def by auto
  have "jvalue num doc (t # its @ [r]) node"
    using t(4) jarray[OF assms(2) _ t(2)] jarray0[OF assms(2) t(2)] unfolding t(3) by (cases expects) auto
  then show ?thesis using t(1) by (intro exI[of _ "its @ [r]"]) simp
qed

abbreviation value_sound :: "(string \<Rightarrow> ('f \<times> bool) option) \<Rightarrow> nat \<Rightarrow> bool" where
  "value_sound num n \<equiv> \<forall>p node q. parser_ok p \<longrightarrow> parse_value num n p = Some (node, q) \<longrightarrow> p_error q = None \<longrightarrow>
     p_error p = None \<and> p_text q = p_text p \<and> (\<exists>ts. p_rest p = ts @ p_rest q \<and> jvalue num (p_text p) ts node)"

text \<open>At the first member, the object may also end at once.\<close>

abbreviation object_sound :: "(string \<Rightarrow> ('f \<times> bool) option) \<Rightarrow> nat \<Rightarrow> bool" where
  "object_sound num n \<equiv> \<forall>p op_tok es seen first comma node q. parser_ok p \<longrightarrow> \<not> (first \<and> comma \<noteq> None) \<longrightarrow>
     parse_object num n op_tok es seen first comma p = Some (node, q) \<longrightarrow> p_error q = None \<longrightarrow> p_error p = None \<and> p_text q = p_text p \<and>
     (object_tail num (p_text p) op_tok es seen (first \<or> comma \<noteq> None) (p_rest p) (p_rest q) node \<or>
      first \<and> object_tail num (p_text p) op_tok es seen False (p_rest p) (p_rest q) node)"

abbreviation array_sound :: "(string \<Rightarrow> ('f \<times> bool) option) \<Rightarrow> nat \<Rightarrow> bool" where
  "array_sound num n \<equiv> \<forall>p op_tok xs first comma node q. parser_ok p \<longrightarrow> \<not> (first \<and> comma \<noteq> None) \<longrightarrow>
     parse_array num n op_tok xs first comma p = Some (node, q) \<longrightarrow> p_error q = None \<longrightarrow> p_error p = None \<and> p_text q = p_text p \<and>
     (array_tail num (p_text p) op_tok xs (first \<or> comma \<noteq> None) (p_rest p) (p_rest q) node \<or>
      first \<and> array_tail num (p_text p) op_tok xs False (p_rest p) (p_rest q) node)"

lemma value_sound_step:
  assumes O: "object_sound num n" and A: "array_sound num n"
  shows "value_sound num (Suc n)"
proof (intro allI impI)
  fix p node q assume ok: "parser_ok p" and r: "parse_value num (Suc n) p = Some (node, q)" and e: "p_error q = None"
  show "p_error p = None \<and> p_text q = p_text p \<and> (\<exists>ts. p_rest p = ts @ p_rest q \<and> jvalue num (p_text p) ts node)"
  proof (cases "p_rest p")
    case Nil
    then show ?thesis using r e by (auto simp: parse_value.simps)
  next
    case (Cons t ts)
    note nx = parser_ok_next[OF ok Cons]
    consider "tk_kind t = LBrace" | "tk_kind t = LBracket" | "tk_kind t \<in> {RBrace, RBracket, Colon, Comma, Space}"
      | "tk_kind t \<notin> {LBrace, LBracket, RBrace, RBracket, Colon, Comma, Space}" by blast
    then show ?thesis
    proof cases
      case 1
      then have "parse_object num n t [] {} True None (p_bump p) = Some (node, q)" using r Cons by (simp add: parse_value.simps)
      from O[rule_format, OF nx(1) _ this e] have o: "p_error p = None" "p_text q = p_text p"
        "object_tail num (p_text p) t [] {} True ts (p_rest q) node \<or> object_tail num (p_text p) t [] {} False ts (p_rest q) node"
        using Cons by auto
      from o(3) obtain us where "ts = us @ p_rest q" "jvalue num (p_text p) (t # us) node"
        using object_tail_value[OF _ 1] by blast
      then show ?thesis using o(1,2) Cons by (intro conjI exI[of _ "t # us"]) auto
    next
      case 2
      then have "parse_array num n t [] True None (p_bump p) = Some (node, q)" using r Cons by (simp add: parse_value.simps)
      from A[rule_format, OF nx(1) _ this e] have o: "p_error p = None" "p_text q = p_text p"
        "array_tail num (p_text p) t [] True ts (p_rest q) node \<or> array_tail num (p_text p) t [] False ts (p_rest q) node"
        using Cons by auto
      from o(3) obtain us where "ts = us @ p_rest q" "jvalue num (p_text p) (t # us) node"
        using array_tail_value[OF _ 2] by blast
      then show ?thesis using o(1,2) Cons by (intro conjI exI[of _ "t # us"]) auto
    next
      case 3
      then show ?thesis using r e Cons by (auto simp: parse_value.simps)
    next
      case 4
      have "utf8_ok (p_text (p_bump p))" "token_ok (p_text (p_bump p)) t" using ok nx(4) by (auto simp: parser_ok_def)
      from parse_scalar_clean[OF this 4, of num node q] have "q = p_bump p" "p_error p = None" "jvalue num (p_text p) [t] node"
        using r e Cons 4 by (auto simp: parse_value.simps)
      then show ?thesis using Cons by (intro conjI exI[of _ "[t]"]) auto
    qed
  qed
qed

text \<open>The comma after a member or item, if any.\<close>

lemma comma_split:
  assumes "take_comma r = (comma, u)"
  obtains m where "p_rest r = (if comma \<noteq> None then m # p_rest u else p_rest u)" "comma \<noteq> None \<longrightarrow> tk_kind m = Comma" "p_text u = p_text r"
    "p_error u = p_error r"
  using take_comma_clean[OF assms] that by fastforce

lemma object_sound_step:
  assumes V: "value_sound num n" and O: "object_sound num n"
  shows "object_sound num (Suc n)"
proof (intro allI impI)
  fix p op_tok es seen first comma node q
  assume ok: "parser_ok p" and fc: "\<not> (first \<and> comma \<noteq> None)"
    and r: "parse_object num (Suc n) op_tok es seen first comma p = Some (node, q)" and e: "p_error q = None"
  let ?goal = "p_error p = None \<and> p_text q = p_text p \<and>
     (object_tail num (p_text p) op_tok es seen (first \<or> comma \<noteq> None) (p_rest p) (p_rest q) node \<or>
      first \<and> object_tail num (p_text p) op_tok es seen False (p_rest p) (p_rest q) node)"
  show ?goal
  proof (cases "p_rest p")
    case Nil
    then show ?thesis using r e by (auto simp: parse_object.simps)
  next
    case (Cons t ts)
    note nx = parser_ok_next[OF ok Cons]
    consider "tk_kind t = RBrace" | "is_string (tk_kind t)" | "tk_kind t \<noteq> RBrace" "\<not> is_string (tk_kind t)" by blast
    then show ?thesis
    proof cases
      case 1
      then have q: "node = NObject (mk_span (sp_start (tk_span op_tok)) (sp_end (tk_span t))) es True" "q = p_bump (no_trailing comma p)"
        using r Cons by (auto simp: parse_object.simps)
      then have "p_error p = None" "comma = None" using e no_trailing_error by auto
      then show ?thesis using q Cons 1 by (auto simp: no_trailing_def object_tail_def)
    next
      case 2
      obtain key colon k v s comma' u where i: "parse_key t seen first comma p = Some (key, colon, k)"
        "colon \<noteq> None \<longrightarrow> parse_value num n k = Some (v, s)" "parse_value num n k = Some (v, s) \<or> s = k" "take_comma s = (comma', u)"
        "parse_object num n op_tok (es @ [Entry key (tk_span t) colon v]) (insert key seen) False comma' u = Some (node, q)"
        by (rule object_iter[OF r Cons 2])
      have adv: "moves_on p k" "moves_on k s" "moves_on s u"
        using moves_on_key[OF i(1)] i(3) parse_moves_on(1) moves_on_comma[OF i(4)] by auto
      have oks: "parser_ok k" "parser_ok s" "parser_ok u" using moves_on_ok adv ok by blast+
      from O[rule_format, OF oks(3) _ i(5) e] have o: "p_error u = None" "p_text q = p_text u"
        "object_tail num (p_text u) op_tok (es @ [Entry key (tk_span t) colon v]) (insert key seen) (comma' \<noteq> None) (p_rest u) (p_rest q) node" by auto
      have "p_error s = None" "p_error k = None" using o(1) adv by (auto simp: moves_on_def)
      with i(1) parse_key_clean[OF ok Cons 2] obtain c us where k: "p_error p = None" "first \<or> comma \<noteq> None" "string_lit (p_text p) t key"
        "key \<notin> seen" "ts = c # us" "tk_kind c = Colon" "colon = Some (tk_span c)" "k = p\<lparr>p_rest := us\<rparr>" by metis
      have "parse_value num n k = Some (v, s)" using i(2) k(7) by simp
      from V[rule_format, OF oks(1) this \<open>p_error s = None\<close>] obtain vs where vs: "p_text s = p_text k" "p_rest k = vs @ p_rest s" "jvalue num (p_text k) vs v"
        by blast
      obtain m where m: "p_rest s = (if comma' \<noteq> None then m # p_rest u else p_rest u)" "comma' \<noteq> None \<longrightarrow> tk_kind m = Comma"
        "p_text u = p_text s" using comma_split[OF i(4)] by blast
      have same: "p_text k = p_text p" "p_text u = p_text p" using k(8) m(3) vs(1) by auto
      have "p_rest p = t # c # vs @ (if comma' \<noteq> None then m # p_rest u else p_rest u)" using Cons k(5,8) vs(2) m(1) by simp
      from object_tail_member[OF o(3)[unfolded k(7) same(2)] k(3,6) vs(3)[unfolded same(1)] k(4) this m(2)]
      show ?thesis using k(1,2) o(2) same(2) by simp
    next
      case 3
      then have "parse_object num n op_tok es seen first comma (p_bump (fail (tk_span t) (missing_or first comma ''Expected a key'' ''}'') p)) = Some (node, q)"
        using r Cons by (simp add: parse_object.simps)
      moreover have "parser_ok (p_bump (fail (tk_span t) (missing_or first comma ''Expected a key'' ''}'') p))"
        using nx(1) by (auto simp: parser_ok_def)
      ultimately show ?thesis using O fc e by (metis bump_error fail_error(1))
    qed
  qed
qed

lemma array_sound_step:
  assumes V: "value_sound num n" and A: "array_sound num n"
  shows "array_sound num (Suc n)"
proof (intro allI impI)
  fix p op_tok xs first comma node q
  assume ok: "parser_ok p" and fc: "\<not> (first \<and> comma \<noteq> None)"
    and r: "parse_array num (Suc n) op_tok xs first comma p = Some (node, q)" and e: "p_error q = None"
  let ?goal = "p_error p = None \<and> p_text q = p_text p \<and>
     (array_tail num (p_text p) op_tok xs (first \<or> comma \<noteq> None) (p_rest p) (p_rest q) node \<or>
      first \<and> array_tail num (p_text p) op_tok xs False (p_rest p) (p_rest q) node)"
  show ?goal
  proof (cases "p_rest p")
    case Nil
    then show ?thesis using r e by (auto simp: parse_array.simps)
  next
    case (Cons t ts)
    note nx = parser_ok_next[OF ok Cons]
    consider "tk_kind t = RBracket" | "tk_kind t \<in> {Colon, Comma, RBrace}" | "tk_kind t \<notin> {RBracket, Colon, Comma, RBrace}" by blast
    then show ?thesis
    proof cases
      case 1
      then have q: "node = NArray (mk_span (sp_start (tk_span op_tok)) (sp_end (tk_span t))) xs True" "q = p_bump (no_trailing comma p)"
        using r Cons by (auto simp: parse_array.simps)
      then have "p_error p = None" "comma = None" using e no_trailing_error by auto
      then show ?thesis using q Cons 1 by (auto simp: no_trailing_def array_tail_def)
    next
      case 2
      then have "parse_array num n op_tok xs first comma (p_bump (fail (tk_span t) ''Expected a value'' p)) = Some (node, q)"
        using r Cons by (auto simp: parse_array.simps)
      moreover have "parser_ok (p_bump (fail (tk_span t) ''Expected a value'' p))" using nx(1) by (auto simp: parser_ok_def)
      ultimately show ?thesis using A fc e by (metis bump_error fail_error(1))
    next
      case 3
      obtain p' v s comma' u where i: "moves_on p p'" "p_rest p' = p_rest p"
        "p_error p' = None \<longrightarrow> (first \<or> comma \<noteq> None) \<and> p' = p" "parse_value num n p' = Some (v, s)" "take_comma s = (comma', u)"
        "parse_array num n op_tok (xs @ [v]) False comma' u = Some (node, q)"
        by (rule array_iter[OF r Cons 3])
      have adv: "moves_on p' s" "moves_on s u" using parse_moves_on(1)[OF i(4)] moves_on_comma[OF i(5)] by auto
      have oks: "parser_ok p'" "parser_ok s" "parser_ok u" using moves_on_ok adv i(1) ok by blast+
      from A[rule_format, OF oks(3) _ i(6) e] have o: "p_error u = None" "p_text q = p_text u"
        "array_tail num (p_text u) op_tok (xs @ [v]) (comma' \<noteq> None) (p_rest u) (p_rest q) node" by auto
      have es: "p_error s = None" "p_error p' = None" using o(1) adv by (auto simp: moves_on_def)
      then have p: "p' = p" "first \<or> comma \<noteq> None" using i(3) by auto
      from V[rule_format, OF oks(1) i(4) es(1)] obtain vs where vs: "p_text s = p_text p" "p_rest p = vs @ p_rest s" "jvalue num (p_text p) vs v"
        unfolding p(1) by blast
      obtain m where m: "p_rest s = (if comma' \<noteq> None then m # p_rest u else p_rest u)" "comma' \<noteq> None \<longrightarrow> tk_kind m = Comma"
        "p_text u = p_text s" using comma_split[OF i(5)] by blast
      from array_tail_item[OF o(3)[unfolded m(3) vs(1)] vs(3) vs(2)[unfolded m(1)] m(2)]
      show ?thesis using es(2) p o(2) m(3) vs(1) by simp
    qed
  qed
qed

lemma parser_sound: "value_sound num n \<and> object_sound num n \<and> array_sound num n"
proof (induction n)
  case 0
  show ?case by (simp add: parse_value.simps parse_object.simps parse_array.simps)
next
  case (Suc n)
  note V = Suc.IH[THEN conjunct1] and O = Suc.IH[THEN conjunct2, THEN conjunct1] and A = Suc.IH[THEN conjunct2, THEN conjunct2]
  show ?case by (intro conjI value_sound_step[OF O A] object_sound_step[OF V O] array_sound_step[OF V A])
qed

section \<open>No error for all of the grammar\<close>

lemma object_end:
  assumes "p_rest p = r # rest" "tk_kind r = RBrace" "0 < n"
  shows "parse_object num n op_tok es seen first None p =
    Some (NObject (mk_span (sp_start (tk_span op_tok)) (sp_end (tk_span r))) es True, p\<lparr>p_rest := rest\<rparr>)"
  using assms by (cases n) (simp_all add: parse_object.simps no_trailing_def p_bump_def)

lemma array_end:
  assumes "p_rest p = r # rest" "tk_kind r = RBracket" "0 < n"
  shows "parse_array num n op_tok xs first None p =
    Some (NArray (mk_span (sp_start (tk_span op_tok)) (sp_end (tk_span r))) xs True, p\<lparr>p_rest := rest\<rparr>)"
  using assms by (cases n) (simp_all add: parse_array.simps no_trailing_def p_bump_def)

lemma object_member:
  assumes "parser_ok p" "p_error p = None" "p_rest p = k # c # vs @ us" "string_lit (p_text p) k key" "key \<notin> seen" "tk_kind c = Colon"
    "first \<or> comma \<noteq> None" "parse_value num n (p\<lparr>p_rest := vs @ us\<rparr>) = Some (v, p\<lparr>p_rest := us\<rparr>)"
  shows "parse_object num (Suc n) op_tok es seen first comma p = (case take_comma (p\<lparr>p_rest := us\<rparr>) of (comma', u) \<Rightarrow>
    parse_object num n op_tok (es @ [Entry key (tk_span k) (Some (tk_span c)) v]) (insert key seen) False comma' u)"
proof -
  have s: "is_string (tk_kind k)" "tk_kind k \<noteq> RBrace" using assms(4) by (auto simp: string_lit_def)
  have "parse_key k seen first comma p = Some (key, Some (tk_span c), p\<lparr>p_rest := vs @ us\<rparr>)"
    using parse_key_clean[OF assms(1,3) s(1), of seen first comma key "Some (tk_span c)" "p\<lparr>p_rest := vs @ us\<rparr>"] assms by simp
  then show ?thesis using assms(3,8) s by (simp add: parse_object.simps)
qed

lemma array_item:
  assumes "p_rest p = t # ts" "tk_kind t \<notin> {RBracket, Colon, Comma, RBrace}" "first \<or> comma \<noteq> None"
    "parse_value num n p = Some (v, p\<lparr>p_rest := us\<rparr>)"
  shows "parse_array num (Suc n) op_tok xs first comma p = (case take_comma (p\<lparr>p_rest := us\<rparr>) of (comma', u) \<Rightarrow>
    parse_array num n op_tok (xs @ [v]) False comma' u)"
  using assms by (auto simp: parse_array.simps Let_def)

lemma take_comma_yes: "tk_kind m = Comma \<Longrightarrow> take_comma (p\<lparr>p_rest := m # us\<rparr>) = (Some (tk_span m), p\<lparr>p_rest := us\<rparr>)"
  by (simp add: take_comma_def p_bump_def)

lemma take_comma_no: "tk_kind r \<noteq> Comma \<Longrightarrow> take_comma (p\<lparr>p_rest := r # us\<rparr>) = (None, p\<lparr>p_rest := r # us\<rparr>)"
  by (simp add: take_comma_def)

definition reads_value :: "(string \<Rightarrow> ('f \<times> bool) option) \<Rightarrow> string \<Rightarrow> token list \<Rightarrow> 'f json_node \<Rightarrow> bool" where
  "reads_value num doc ts node \<longleftrightarrow> (\<forall>p us n. p_text p = doc \<longrightarrow> parser_ok p \<longrightarrow> p_error p = None \<longrightarrow> p_rest p = ts @ us \<longrightarrow>
     2 * length (ts @ us) + 1 \<le> n \<longrightarrow> parse_value num n p = Some (node, p\<lparr>p_rest := us\<rparr>))"

definition reads_members :: "(string \<Rightarrow> ('f \<times> bool) option) \<Rightarrow> string \<Rightarrow> token list \<Rightarrow> 'f entry list \<Rightarrow> bool" where
  "reads_members num doc ms es \<longleftrightarrow> (\<forall>p r us n op_tok es0 seen first comma. p_text p = doc \<longrightarrow> parser_ok p \<longrightarrow> p_error p = None \<longrightarrow>
     p_rest p = ms @ r # us \<longrightarrow> tk_kind r = RBrace \<longrightarrow> first \<or> comma \<noteq> None \<longrightarrow> distinct (map e_key es) \<longrightarrow> e_key ` set es \<inter> seen = {} \<longrightarrow>
     2 * length (ms @ r # us) + 1 \<le> n \<longrightarrow> parse_object num n op_tok es0 seen first comma p =
       Some (NObject (mk_span (sp_start (tk_span op_tok)) (sp_end (tk_span r))) (es0 @ es) True, p\<lparr>p_rest := us\<rparr>))"

definition reads_items :: "(string \<Rightarrow> ('f \<times> bool) option) \<Rightarrow> string \<Rightarrow> token list \<Rightarrow> 'f json_node list \<Rightarrow> bool" where
  "reads_items num doc its xs \<longleftrightarrow> (\<forall>p r us n op_tok xs0 first comma. p_text p = doc \<longrightarrow> parser_ok p \<longrightarrow> p_error p = None \<longrightarrow>
     p_rest p = its @ r # us \<longrightarrow> tk_kind r = RBracket \<longrightarrow> first \<or> comma \<noteq> None \<longrightarrow>
     2 * length (its @ r # us) + 2 \<le> n \<longrightarrow> parse_array num n op_tok xs0 first comma p =
       Some (NArray (mk_span (sp_start (tk_span op_tok)) (sp_end (tk_span r))) (xs0 @ xs) True, p\<lparr>p_rest := us\<rparr>))"

lemma reads_scalar:
  assumes "jvalue num doc [t] node" "tk_kind t \<notin> {LBrace, LBracket, RBrace, RBracket, Colon, Comma, Space}"
  shows "reads_value num doc [t] node"
  unfolding reads_value_def
proof (intro allI impI)
  fix p us n assume p: "p_text p = doc" "parser_ok p" "p_error p = None" "p_rest p = [t] @ us" "2 * length ([t] @ us) + 1 \<le> n"
  have u: "utf8_ok (p_text (p_bump p))" "token_ok (p_text (p_bump p)) t" using p by (auto simp: parser_ok_def)
  have "parse_scalar num t (p_bump p) = Some (node, p_bump p)"
    using parse_scalar_clean[OF u assms(2), of num node "p_bump p"] assms(1) p by simp
  then show "parse_value num n p = Some (node, p\<lparr>p_rest := us\<rparr>)"
    using p(4,5) assms(2) by (cases n) (auto simp: parse_value.simps p_bump_def)
qed

lemma reads_object:
  assumes "tk_kind l = LBrace" "tk_kind r = RBrace" "ms = [] \<and> es = [] \<or> reads_members num doc ms es \<and> distinct (map e_key es)"
  shows "reads_value num doc (l # ms @ [r]) (NObject (mk_span (sp_start (tk_span l)) (sp_end (tk_span r))) es True)"
  unfolding reads_value_def
proof (intro allI impI)
  fix p us n assume p: "p_text p = doc" "parser_ok p" "p_error p = None" "p_rest p = (l # ms @ [r]) @ us" "2 * length ((l # ms @ [r]) @ us) + 1 \<le> n"
  then obtain m where n: "n = Suc m" "2 * length (ms @ r # us) + 1 \<le> m" by (cases n) auto
  have b: "parser_ok (p_bump p)" "p_rest (p_bump p) = ms @ r # us" "p_text (p_bump p) = doc" "p_error (p_bump p) = None"
    using p parser_ok_next(1)[OF p(2)] by auto
  have "parse_object num m l [] {} True None (p_bump p) =
      Some (NObject (mk_span (sp_start (tk_span l)) (sp_end (tk_span r))) es True, (p_bump p)\<lparr>p_rest := us\<rparr>)"
    using assms(3)
  proof
    assume "ms = [] \<and> es = []"
    then show ?thesis using object_end[of "p_bump p" r us m] b assms(2) n(2) by auto
  next
    assume "reads_members num doc ms es \<and> distinct (map e_key es)"
    then show ?thesis unfolding reads_members_def using b assms(2) n(2) by simp
  qed
  then show "parse_value num n p = Some (NObject (mk_span (sp_start (tk_span l)) (sp_end (tk_span r))) es True, p\<lparr>p_rest := us\<rparr>)"
    using p(4) n(1) assms(1) by (simp add: parse_value.simps p_bump_def)
qed

lemma reads_array:
  assumes "tk_kind l = LBracket" "tk_kind r = RBracket" "its = [] \<and> xs = [] \<or> reads_items num doc its xs"
  shows "reads_value num doc (l # its @ [r]) (NArray (mk_span (sp_start (tk_span l)) (sp_end (tk_span r))) xs True)"
  unfolding reads_value_def
proof (intro allI impI)
  fix p us n assume p: "p_text p = doc" "parser_ok p" "p_error p = None" "p_rest p = (l # its @ [r]) @ us" "2 * length ((l # its @ [r]) @ us) + 1 \<le> n"
  then obtain m where n: "n = Suc m" "2 * length (its @ r # us) + 2 \<le> m" by (cases n) auto
  have b: "parser_ok (p_bump p)" "p_rest (p_bump p) = its @ r # us" "p_text (p_bump p) = doc" "p_error (p_bump p) = None"
    using p parser_ok_next(1)[OF p(2)] by auto
  have "parse_array num m l [] True None (p_bump p) =
      Some (NArray (mk_span (sp_start (tk_span l)) (sp_end (tk_span r))) xs True, (p_bump p)\<lparr>p_rest := us\<rparr>)"
    using assms(3)
  proof
    assume "its = [] \<and> xs = []"
    then show ?thesis using array_end[of "p_bump p" r us m] b assms(2) n(2) by auto
  next
    assume "reads_items num doc its xs"
    then show ?thesis unfolding reads_items_def using b assms(2) n(2) by simp
  qed
  then show "parse_value num n p = Some (NArray (mk_span (sp_start (tk_span l)) (sp_end (tk_span r))) xs True, p\<lparr>p_rest := us\<rparr>)"
    using p(4) n(1) assms(1) by (simp add: parse_value.simps p_bump_def)
qed

lemma reads_member_list:
  assumes "string_lit doc k key" "tk_kind c = Colon" "reads_value num doc vs v"
    "ms = [] \<and> es = [] \<or> (\<exists>m ms'. ms = m # ms' \<and> tk_kind m = Comma \<and> reads_members num doc ms' es)"
  shows "reads_members num doc (k # c # vs @ ms) (Entry key (tk_span k) (Some (tk_span c)) v # es)"
  unfolding reads_members_def
proof (intro allI impI)
  let ?e = "Entry key (tk_span k) (Some (tk_span c)) v"
  fix p r us n op_tok es0 seen first comma
  assume p: "p_text p = doc" "parser_ok p" "p_error p = None" "p_rest p = (k # c # vs @ ms) @ r # us" "tk_kind r = RBrace"
    and fc: "first \<or> comma \<noteq> (None :: span option)" and d: "distinct (map e_key (?e # es))" "e_key ` set (?e # es) \<inter> seen = {}"
    and f: "2 * length ((k # c # vs @ ms) @ r # us) + 1 \<le> n"
  then obtain n' where n: "n = Suc n'" "2 * length (vs @ ms @ r # us) + 1 \<le> n'" by (cases n) auto
  have ok: "parser_ok (p\<lparr>p_rest := vs @ ms @ r # us\<rparr>)" using parser_ok_drop[OF p(2), of "[k, c]"] p(4) by simp
  have v: "parse_value num n' (p\<lparr>p_rest := vs @ ms @ r # us\<rparr>) = Some (v, p\<lparr>p_rest := ms @ r # us\<rparr>)"
    using assms(3)[unfolded reads_value_def, rule_format, of "p\<lparr>p_rest := vs @ ms @ r # us\<rparr>" "ms @ r # us" n'] ok p n(2) by simp
  have step: "parse_object num n op_tok es0 seen first comma p = (case take_comma (p\<lparr>p_rest := ms @ r # us\<rparr>) of (comma', u) \<Rightarrow>
      parse_object num n' op_tok (es0 @ [?e]) (insert key seen) False comma' u)"
    unfolding n(1) using object_member[OF p(2,3) _ _ _ assms(2) fc v] p(1,4) assms(1) d by simp
  show "parse_object num n op_tok es0 seen first comma p =
      Some (NObject (mk_span (sp_start (tk_span op_tok)) (sp_end (tk_span r))) (es0 @ ?e # es) True, p\<lparr>p_rest := us\<rparr>)"
    using assms(4)
  proof
    assume "ms = [] \<and> es = []"
    then show ?thesis using object_end[of "p\<lparr>p_rest := r # us\<rparr>" r us n'] step p(5) n(2) by (simp add: take_comma_no)
  next
    assume "\<exists>m ms'. ms = m # ms' \<and> tk_kind m = Comma \<and> reads_members num doc ms' es"
    then obtain m ms' where m: "ms = m # ms'" "tk_kind m = Comma" "reads_members num doc ms' es" by blast
    have ok': "parser_ok (p\<lparr>p_rest := ms' @ r # us\<rparr>)" using parser_ok_drop[OF p(2), of "k # c # vs @ [m]"] p(4) m(1) by simp
    have "parse_object num n' op_tok (es0 @ [?e]) (insert key seen) False (Some (tk_span m)) (p\<lparr>p_rest := ms' @ r # us\<rparr>) =
        Some (NObject (mk_span (sp_start (tk_span op_tok)) (sp_end (tk_span r))) ((es0 @ [?e]) @ es) True, p\<lparr>p_rest := us\<rparr>)"
      using m(3)[unfolded reads_members_def, rule_format, of "p\<lparr>p_rest := ms' @ r # us\<rparr>" r us False "Some (tk_span m)" "insert key seen" n']
        ok' p(1,3,5) d n(2) m(1) by auto
    then show ?thesis using step m(1,2) by (simp add: take_comma_yes)
  qed
qed

lemma reads_item_list:
  assumes "jvalue num doc vs v" "reads_value num doc vs v"
    "its = [] \<and> xs = [] \<or> (\<exists>m its'. its = m # its' \<and> tk_kind m = Comma \<and> reads_items num doc its' xs)"
  shows "reads_items num doc (vs @ its) (v # xs)"
  unfolding reads_items_def
proof (intro allI impI)
  fix p r us n op_tok xs0 first comma
  assume p: "p_text p = doc" "parser_ok p" "p_error p = None" "p_rest p = (vs @ its) @ r # us" "tk_kind r = RBracket"
    and fc: "first \<or> comma \<noteq> (None :: span option)" and f: "2 * length ((vs @ its) @ r # us) + 2 \<le> n"
  then obtain n' where n: "n = Suc n'" "2 * length (vs @ its @ r # us) + 1 \<le> n'" by (cases n) auto
  obtain t ts where t: "vs = t # ts" "tk_kind t \<notin> {RBracket, Colon, Comma, RBrace}" using jvalue_hd[OF assms(1)] by auto
  have v: "parse_value num n' p = Some (v, p\<lparr>p_rest := its @ r # us\<rparr>)"
    using assms(2)[unfolded reads_value_def, rule_format, of p "its @ r # us" n'] p n(2) by simp
  have step: "parse_array num n op_tok xs0 first comma p = (case take_comma (p\<lparr>p_rest := its @ r # us\<rparr>) of (comma', u) \<Rightarrow>
      parse_array num n' op_tok (xs0 @ [v]) False comma' u)"
    unfolding n(1) using array_item[OF _ t(2) fc v] p(4) t(1) by simp
  show "parse_array num n op_tok xs0 first comma p =
      Some (NArray (mk_span (sp_start (tk_span op_tok)) (sp_end (tk_span r))) (xs0 @ v # xs) True, p\<lparr>p_rest := us\<rparr>)"
    using assms(3)
  proof
    assume "its = [] \<and> xs = []"
    then show ?thesis using array_end[of "p\<lparr>p_rest := r # us\<rparr>" r us n'] step p(5) n(2) by (simp add: take_comma_no)
  next
    assume "\<exists>m its'. its = m # its' \<and> tk_kind m = Comma \<and> reads_items num doc its' xs"
    then obtain m its' where m: "its = m # its'" "tk_kind m = Comma" "reads_items num doc its' xs" by blast
    have ok': "parser_ok (p\<lparr>p_rest := its' @ r # us\<rparr>)" using parser_ok_drop[OF p(2), of "vs @ [m]"] p(4) m(1) by simp
    have "parse_array num n' op_tok (xs0 @ [v]) False (Some (tk_span m)) (p\<lparr>p_rest := its' @ r # us\<rparr>) =
        Some (NArray (mk_span (sp_start (tk_span op_tok)) (sp_end (tk_span r))) ((xs0 @ [v]) @ xs) True, p\<lparr>p_rest := us\<rparr>)"
      using m(3)[unfolded reads_items_def, rule_format, of "p\<lparr>p_rest := its' @ r # us\<rparr>" r us False "Some (tk_span m)" n']
        ok' p(1,3,5) n(2) m(1) t(1) by auto
    then show ?thesis using step m(1,2) by (simp add: take_comma_yes)
  qed
qed

lemma grammar_reads:
  "jvalue num doc ts node \<Longrightarrow> reads_value num doc ts node"
  "jmembers num doc ms es \<Longrightarrow> reads_members num doc ms es"
  "jitems num doc its xs \<Longrightarrow> reads_items num doc its xs"
proof (induction rule: jvalue_jmembers_jitems.inducts)
  case (jstr t v)
  then show ?case by (intro reads_scalar jvalue_jmembers_jitems.jstr) (auto simp: string_lit_def)
next
  case (jnum t v w)
  then show ?case by (intro reads_scalar jvalue_jmembers_jitems.jnum) auto
next
  case (jbool t)
  then show ?case by (intro reads_scalar jvalue_jmembers_jitems.jbool) auto
next
  case (jnull t)
  then show ?case by (intro reads_scalar jvalue_jmembers_jitems.jnull) auto
next
  case (jobject0 l r)
  then show ?case using reads_object[of l r "[]" "[]"] by simp
next
  case (jobject l ms es r)
  then show ?case using reads_object[of l r ms es] by simp
next
  case (jarray0 l r)
  then show ?case using reads_array[of l r "[]" "[]"] by simp
next
  case (jarray l its xs r)
  then show ?case using reads_array[of l r its xs] by simp
next
  case (jmember k key c vs v)
  then show ?case using reads_member_list[of doc k key c num vs v "[]" "[]"] by simp
next
  case (jmembers k key c vs v m ms es)
  then show ?case using reads_member_list[of doc k key c num vs v "m # ms" es] by simp
next
  case (jitem vs v)
  then show ?case using reads_item_list[of num doc vs v "[]" "[]"] by simp
next
  case (jitems vs v m its xs)
  then show ?case using reads_item_list[of num doc vs v "m # its" xs] by simp
qed

section \<open>The documents without error\<close>



end
