(* ===== verification/Json_Context.thy ===== *)
theory Json_Context
  imports Json_Trees
begin

text \<open>
  The caret context of \<open>rivers-ui/src/json_text.rs\<close>, from which the config editor completes, spans by path, and the
  conversion between byte offsets and the UTF-16 offsets of the text area.
\<close>

section \<open>The context\<close>

datatype path_seg = SegKey string | SegIndex nat

datatype caret_slot = SlotKey string | SlotValue string | SlotNone

record context_rec =
  cx_path :: "path_seg list"
  cx_slot :: caret_slot
  cx_siblings :: "string list"
  cx_replace :: span
  cx_key_only :: bool
  cx_comma_before :: bool
  cx_comma_after :: bool

definition inside :: "span \<Rightarrow> bool \<Rightarrow> nat \<Rightarrow> bool" where
  "inside sp closed caret \<longleftrightarrow> sp_start sp < caret \<and> (caret < sp_end sp \<or> \<not> closed)"

definition touches :: "span \<Rightarrow> nat \<Rightarrow> bool" where
  "touches sp caret \<longleftrightarrow> sp_start sp \<le> caret \<and> caret \<le> sp_end sp"

definition trim_quotes :: "string \<Rightarrow> string" where
  "trim_quotes s = rev (dropWhile (\<lambda>c. c = quote_char) (rev s))"

text \<open>Whether a comma is missing between the last end before the caret, or the first start after it, and the caret.\<close>

definition lacks_comma :: "string \<Rightarrow> nat \<Rightarrow> nat \<Rightarrow> bool option" where
  "lacks_comma doc a b = map_option (\<lambda>s. CHR '','' \<notin> set s) (slice doc a b)"

definition comma_before :: "string \<Rightarrow> nat \<Rightarrow> nat list \<Rightarrow> bool option" where
  "comma_before doc caret ends =
     (let es = filter (\<lambda>e. e \<le> caret) ends in if es = [] then Some False else lacks_comma doc (Max (set es)) caret)"

definition comma_after :: "string \<Rightarrow> nat \<Rightarrow> nat list \<Rightarrow> bool option" where
  "comma_after doc caret starts =
     (let ss = filter (\<lambda>s. s \<ge> caret) starts in if ss = [] then Some False else lacks_comma doc caret (Min (set ss)))"

definition set_commas :: "string \<Rightarrow> nat \<Rightarrow> nat list \<Rightarrow> nat list \<Rightarrow> context_rec \<Rightarrow> context_rec option" where
  "set_commas doc caret ends starts cx =
     Option.bind (comma_before doc caret ends) (\<lambda>b. Option.bind (comma_after doc caret starts) (\<lambda>a.
       Some (cx\<lparr>cx_comma_before := b, cx_comma_after := a\<rparr>)))"

text \<open>The caret in a value that is not a container.\<close>

definition in_scalar :: "string \<Rightarrow> nat \<Rightarrow> path_seg \<Rightarrow> span \<Rightarrow> context_rec \<Rightarrow> context_rec option" where
  "in_scalar doc caret seg sp cx =
     map_option (\<lambda>pre. cx\<lparr>cx_path := cx_path cx @ [seg], cx_slot := SlotValue pre, cx_replace := sp\<rparr>) (slice doc (sp_start sp) caret)"

definition in_key :: "string \<Rightarrow> nat \<Rightarrow> 'f entry list \<Rightarrow> 'f entry \<Rightarrow> context_rec \<Rightarrow> context_rec option" where
  "in_key doc caret es e cx =
     map_option (\<lambda>pre. cx\<lparr>cx_slot := SlotKey (trim_quotes pre), cx_replace := e_key_span e, cx_key_only := e_colon e \<noteq> None,
       cx_siblings := map e_key (filter (\<lambda>e'. e_key_span e' \<noteq> e_key_span e) es)\<rparr>) (slice doc (sp_start (e_key_span e) + 1) caret)"

text \<open>The loops over entries and items; a container that does not hold the caret is passed over.\<close>

fun locate :: "string \<Rightarrow> nat \<Rightarrow> 'f json_node \<Rightarrow> context_rec \<Rightarrow> context_rec option"
  and locate_entries :: "string \<Rightarrow> nat \<Rightarrow> 'f entry list \<Rightarrow> 'f entry list \<Rightarrow> context_rec \<Rightarrow> context_rec option"
  and locate_items :: "string \<Rightarrow> nat \<Rightarrow> 'f json_node list \<Rightarrow> nat \<Rightarrow> 'f json_node list \<Rightarrow> context_rec \<Rightarrow> context_rec option"
where
  "locate doc caret (NObject sp es closed) cx = (if inside sp closed caret then locate_entries doc caret es es cx else Some cx)"
| "locate doc caret (NArray sp xs closed) cx = (if inside sp closed caret then locate_items doc caret xs 0 xs cx else Some cx)"
| "locate doc caret _ cx = Some cx"
| "locate_entries doc caret es [] cx =
     set_commas doc caret (map entry_end es) (map (\<lambda>e. sp_start (e_key_span e)) es)
       (cx\<lparr>cx_slot := SlotKey [], cx_siblings := map e_key es\<rparr>)"
| "locate_entries doc caret es (Entry key ks colon v # rest) cx =
     (let sp = node_span v
      in if sp_start ks < caret \<and> caret \<le> sp_end ks then in_key doc caret es (Entry key ks colon v) cx
         else if is_container v \<and> inside sp (node_closed v) caret
         then locate doc caret v (cx\<lparr>cx_path := cx_path cx @ [SegKey key]\<rparr>)
         else if \<not> is_container v \<and> touches sp caret then in_scalar doc caret (SegKey key) sp cx
         else if (case colon of Some c \<Rightarrow> sp_end c \<le> caret \<and> caret \<le> sp_start sp | None \<Rightarrow> False)
         then Some (cx\<lparr>cx_path := cx_path cx @ [SegKey key], cx_slot := SlotValue []\<rparr>)
         else locate_entries doc caret es rest cx)"
| "locate_items doc caret xs i [] cx =
     (let ends = map (\<lambda>x. sp_end (node_span x)) xs
      in set_commas doc caret ends (map (\<lambda>x. sp_start (node_span x)) xs)
           (cx\<lparr>cx_path := cx_path cx @ [SegIndex (length (filter (\<lambda>e. e \<le> caret) ends))], cx_slot := SlotValue []\<rparr>))"
| "locate_items doc caret xs i (x # rest) cx =
     (let sp = node_span x
      in if is_container x \<and> inside sp (node_closed x) caret
         then locate doc caret x (cx\<lparr>cx_path := cx_path cx @ [SegIndex i]\<rparr>)
         else if \<not> is_container x \<and> touches sp caret then in_scalar doc caret (SegIndex i) sp cx
         else locate_items doc caret xs (i + 1) rest cx)"

definition context_at :: "string \<Rightarrow> 'f parsed \<Rightarrow> nat \<Rightarrow> context_rec option" where
  "context_at doc r caret =
     (let caret = min caret (length doc);
          cx = \<lparr>cx_path = [], cx_slot = SlotNone, cx_siblings = [], cx_replace = span_here caret, cx_key_only = False,
                cx_comma_before = False, cx_comma_after = False\<rparr>
      in case pd_root r of Some root \<Rightarrow> locate doc caret root cx | None \<Rightarrow> Some cx)"

fun span_walk :: "'f json_node \<Rightarrow> span option \<Rightarrow> path_seg list \<Rightarrow> (span option \<times> span) option" where
  "span_walk node ks [] = Some (ks, node_span node)"
| "span_walk (NObject _ es _) ks (SegKey key # path) =
     (case find (\<lambda>e. e_key e = key) es of Some e \<Rightarrow> span_walk (e_value e) (Some (e_key_span e)) path | None \<Rightarrow> None)"
| "span_walk (NArray _ xs _) ks (SegIndex i # path) = (if i < length xs then span_walk (xs ! i) None path else None)"
| "span_walk _ ks (_ # path) = None"

definition span_at :: "'f json_node \<Rightarrow> path_seg list \<Rightarrow> (span option \<times> span) option" where
  "span_at root path = span_walk root None path"

section \<open>UTF-16 offsets\<close>

text \<open>The last character boundary not after an offset, and the UTF-16 length of a text.\<close>

fun floor_char_boundary :: "string \<Rightarrow> nat \<Rightarrow> nat" where
  "floor_char_boundary doc 0 = 0"
| "floor_char_boundary doc (Suc i) = (if boundary doc (Suc i) then Suc i else floor_char_boundary doc i)"

definition len_utf16 :: "char \<Rightarrow> nat" where
  "len_utf16 c = (if char_len c = 4 then 2 else 1)"

function utf16_units :: "string \<Rightarrow> nat" where
  "utf16_units [] = 0"
| "utf16_units (c # cs) = len_utf16 c + utf16_units (drop (char_len c - 1) cs)"
  by pat_completeness auto

termination utf16_units
  by (relation "measure length") auto

definition byte_to_utf16 :: "string \<Rightarrow> nat \<Rightarrow> nat" where
  "byte_to_utf16 doc byte = utf16_units (take (floor_char_boundary doc byte) doc) mod 2 ^ 32"

function utf16_walk :: "nat \<Rightarrow> nat \<Rightarrow> nat \<Rightarrow> string \<Rightarrow> nat" where
  "utf16_walk unit i units [] = i"
| "utf16_walk unit i units (c # cs) =
     (if units \<ge> unit then i
      else utf16_walk unit (i + char_len c) ((units + len_utf16 c) mod 2 ^ 32) (drop (char_len c - 1) cs))"
  by pat_completeness auto

termination utf16_walk
  by (relation "measure (\<lambda>(unit, i, units, cs). length cs)") auto

definition utf16_to_byte :: "string \<Rightarrow> nat \<Rightarrow> nat" where
  "utf16_to_byte doc unit = utf16_walk unit 0 0 doc"

section \<open>The context always exists\<close>

definition replaces :: "string \<Rightarrow> nat \<Rightarrow> context_rec \<Rightarrow> bool" where
  "replaces doc caret cx \<longleftrightarrow> span_ok doc (cx_replace cx) \<and> touches (cx_replace cx) caret"

lemma slice_total: "a \<le> b \<Longrightarrow> boundary doc a \<Longrightarrow> boundary doc b \<Longrightarrow> \<exists>s. slice doc a b = Some s"
  by (simp add: slice_def)

lemma set_commas_total:
  assumes "boundary doc caret" "\<forall>e \<in> set ends. boundary doc e" "\<forall>s \<in> set starts. boundary doc s"
  shows "\<exists>b a. set_commas doc caret ends starts cx = Some (cx\<lparr>cx_comma_before := b, cx_comma_after := a\<rparr>)"
proof -
  have "\<exists>b. comma_before doc caret ends = Some b"
  proof (cases "filter (\<lambda>e. e \<le> caret) ends = []")
    case False
    then have "Max (set (filter (\<lambda>e. e \<le> caret) ends)) \<in> set (filter (\<lambda>e. e \<le> caret) ends)"
      by (intro Max_in finite_set) (simp only: set_empty not_False_eq_True)
    then have "\<exists>s. slice doc (Max (set (filter (\<lambda>e. e \<le> caret) ends))) caret = Some s" using assms(1,2) by (intro slice_total) auto
    then show ?thesis using False by (auto simp: comma_before_def lacks_comma_def Let_def simp del: set_filter)
  qed (auto simp: comma_before_def)
  moreover have "\<exists>a. comma_after doc caret starts = Some a"
  proof (cases "filter (\<lambda>s. s \<ge> caret) starts = []")
    case False
    then have "Min (set (filter (\<lambda>s. s \<ge> caret) starts)) \<in> set (filter (\<lambda>s. s \<ge> caret) starts)"
      by (intro Min_in finite_set) (simp only: set_empty not_False_eq_True)
    then have "\<exists>s. slice doc caret (Min (set (filter (\<lambda>s. s \<ge> caret) starts))) = Some s" using assms(1,3) by (intro slice_total) auto
    then show ?thesis using False by (auto simp: comma_after_def lacks_comma_def Let_def simp del: set_filter)
  qed (auto simp: comma_after_def)
  ultimately obtain b a where "comma_before doc caret ends = Some b" "comma_after doc caret starts = Some a" by blast
  then show ?thesis by (intro exI[of _ b] exI[of _ a]) (simp add: set_commas_def)
qed

lemma in_scalar_total:
  assumes "boundary doc caret" "span_ok doc sp" "touches sp caret"
  shows "\<exists>c. in_scalar doc caret seg sp cx = Some c \<and> replaces doc caret c"
  using slice_total[of "sp_start sp" caret doc] assms by (auto simp: in_scalar_def replaces_def touches_def span_ok_def)

lemma in_key_total:
  assumes "utf8_ok doc" "boundary doc caret" "entry_ok doc e" "sp_start (e_key_span e) < caret" "caret \<le> sp_end (e_key_span e)"
  shows "\<exists>c. in_key doc caret es e cx = Some c \<and> replaces doc caret c"
proof -
  let ?a = "sp_start (e_key_span e)"
  have e: "span_ok doc (e_key_span e)" "doc ! ?a = quote_char" using assms(3) by (cases e; simp)+
  have "?a < length doc" "boundary doc ?a" using assms(2,4) boundary_le e(1) by (fastforce simp: span_ok_def)+
  then have "utf8_ok (quote_char # drop (Suc ?a) doc)" using boundary_utf8[OF assms(1), of ?a] e(2) by (simp add: Cons_nth_drop_Suc[symmetric])
  then have "boundary doc (?a + 1)" using boundary_utf8[OF assms(1)] \<open>?a < length doc\<close> by (simp add: utf8_ascii)
  then obtain pre where "slice doc (?a + 1) caret = Some pre" using slice_total assms(2,4) by fastforce
  then show ?thesis using e(1) assms(4,5) by (auto simp: in_key_def replaces_def touches_def)
qed

lemma node_ok_span: "node_ok doc v \<Longrightarrow> span_ok doc (node_span v)"
  by (cases v) auto

lemma entry_ok_bounds:
  "entry_ok doc e \<Longrightarrow> boundary doc (entry_end e)" "entry_ok doc e \<Longrightarrow> boundary doc (sp_start (e_key_span e))"
  by (cases e; auto simp: entry_end_def span_ok_def max_def dest: node_ok_span)+

lemma replaces_update [simp]:
  "replaces doc caret (cx\<lparr>cx_path := x\<rparr>) = replaces doc caret cx" "replaces doc caret (cx\<lparr>cx_slot := s\<rparr>) = replaces doc caret cx"
  "replaces doc caret (cx\<lparr>cx_siblings := y\<rparr>) = replaces doc caret cx" "replaces doc caret (cx\<lparr>cx_comma_before := b\<rparr>) = replaces doc caret cx"
  "replaces doc caret (cx\<lparr>cx_comma_after := b\<rparr>) = replaces doc caret cx"
  by (simp_all add: replaces_def)

lemma locate_total:
  fixes node :: "'f json_node" and es rest :: "'f entry list" and xs rest' :: "'f json_node list"
  assumes "utf8_ok doc" "boundary doc caret"
  shows "node_ok doc node \<Longrightarrow> replaces doc caret cx \<Longrightarrow> \<exists>c. locate doc caret node cx = Some c \<and> replaces doc caret c"
    and "list_all (entry_ok doc) es \<Longrightarrow> list_all (entry_ok doc) rest \<Longrightarrow> replaces doc caret cx \<Longrightarrow>
      \<exists>c. locate_entries doc caret es rest cx = Some c \<and> replaces doc caret c"
    and "list_all (node_ok doc) xs \<Longrightarrow> list_all (node_ok doc) rest' \<Longrightarrow> replaces doc caret cx \<Longrightarrow>
      \<exists>c. locate_items doc caret xs i rest' cx = Some c \<and> replaces doc caret c"
  using assms
proof (induction doc caret node cx and doc caret es rest cx and doc caret xs i rest' cx rule: locate_locate_entries_locate_items.induct)
  case (4 doc caret es cx)
  have "\<exists>b a. set_commas doc caret (map entry_end es) (map (\<lambda>e. sp_start (e_key_span e)) es) (cx\<lparr>cx_slot := SlotKey [], cx_siblings := map e_key es\<rparr>) =
      Some (cx\<lparr>cx_slot := SlotKey [], cx_siblings := map e_key es, cx_comma_before := b, cx_comma_after := a\<rparr>)"
    using 4 by (intro set_commas_total) (auto simp: list_all_iff intro: entry_ok_bounds)
  then show ?case using "4.prems"(3) by auto
next
  case (5 doc caret es key ks colon v rest cx)
  have e: "entry_ok doc (Entry key ks colon v)" "node_ok doc v" "list_all (entry_ok doc) rest" using "5.prems"(2) by auto
  show ?case
  proof (cases "sp_start ks < caret \<and> caret \<le> sp_end ks")
    case True
    then show ?thesis using in_key_total[OF "5.prems"(4,5) e(1)] by (simp add: Let_def)
  next
    case False
    then show ?thesis using 5 e in_scalar_total[OF "5.prems"(5) node_ok_span[OF e(2)]] by (auto simp: Let_def)
  qed
next
  case (6 doc caret xs i cx)
  let ?ends = "map (\<lambda>x. sp_end (node_span x)) xs"
  let ?cx = "cx\<lparr>cx_path := cx_path cx @ [SegIndex (length (filter (\<lambda>e. e \<le> caret) ?ends))], cx_slot := SlotValue []\<rparr>"
  have "\<exists>b a. set_commas doc caret ?ends (map (\<lambda>x. sp_start (node_span x)) xs) ?cx = Some (?cx\<lparr>cx_comma_before := b, cx_comma_after := a\<rparr>)"
    using 6 by (intro set_commas_total) (auto simp: list_all_iff span_ok_def dest!: bspec node_ok_span)
  then show ?case using "6.prems"(3) by (auto simp: Let_def)
next
  case (7 doc caret xs i x rest cx)
  have x: "node_ok doc x" "list_all (node_ok doc) rest" using "7.prems"(2) by auto
  show ?case using 7 x in_scalar_total[OF "7.prems"(5) node_ok_span[OF x(1)]] by (auto simp: Let_def)
qed auto



section \<open>Offsets round trip\<close>

lemma units_append:
  "utf8_ok cs \<Longrightarrow> boundary cs i \<Longrightarrow> utf16_units cs = utf16_units (take i cs) + utf16_units (drop i cs)"
proof (induction cs arbitrary: i rule: utf16_units.induct)
  case (2 c cs)
  let ?n = "char_len c - 1"
  have ok: "?n \<le> length cs" "utf8_ok (drop ?n cs)" "list_all is_cont (take ?n cs)" using "2.prems"(1) by (auto simp: utf8_ok.simps(2))
  show ?case
  proof (cases i)
    case (Suc j)
    have "?n \<le> j" using "2.prems"(2) Suc ok(1,3) by (fastforce simp: boundary_def list_all_length not_le[symmetric])
    then obtain k where j: "j = ?n + k" using le_Suc_ex by blast
    have "boundary (drop ?n cs) k" using "2.prems"(2) Suc ok(1) unfolding j by (auto simp: boundary_def)
    note IH = "2.IH"[OF ok(2) this]
    have "drop ?n (take j cs) = take k (drop ?n cs)" "drop j cs = drop k (drop ?n cs)" unfolding j by (simp_all add: drop_take add.commute)
    then have "utf16_units (take i (c # cs)) = len_utf16 c + utf16_units (take k (drop ?n cs))" "drop i (c # cs) = drop k (drop ?n cs)"
      unfolding Suc by (simp_all only: take_Suc_Cons drop_Suc_Cons utf16_units.simps(2))
    then show ?thesis using IH by (simp only: utf16_units.simps(2) add.assoc)
  qed simp
qed simp

lemma floor_boundary: "boundary doc i \<Longrightarrow> floor_char_boundary doc i = i"
  by (cases i) simp_all

lemma units_pos: "cs \<noteq> [] \<Longrightarrow> 0 < utf16_units cs"
  by (cases cs) (auto simp: len_utf16_def)

text \<open>The walk stops at the first character that starts at or after the offset it looks for.\<close>

lemma utf16_walk_boundary:
  assumes "utf8_ok doc"
  shows "boundary doc i \<Longrightarrow> boundary doc (utf16_walk unit i units (drop i doc))"
proof (induction "length doc - i" arbitrary: i units rule: less_induct)
  case less
  show ?case
  proof (cases "drop i doc")
    case Nil
    then show ?thesis using less.prems by simp
  next
    case (Cons c cs)
    have ok: "utf8_ok (c # cs)" "i < length doc" using boundary_utf8[OF assms, of i] less.prems Cons by (auto simp: not_le[symmetric])
    have n: "i + char_len c = (i + 1) + (char_len c - 1)" by simp
    have d: "drop (char_len c - 1) cs = drop (i + char_len c) doc"
      using Cons unfolding n by (metis drop_drop drop_Suc_Cons One_nat_def add.commute drop0)
    have len: "char_len c - 1 \<le> length cs" "utf8_ok (drop (i + char_len c) doc)" using ok(1) d by (auto simp: utf8_ok.simps(2))
    have "length cs + 1 = length doc - i" using Cons by (metis length_drop length_Cons Suc_eq_plus1)
    then have "i + char_len c \<le> length doc" using len(1) ok(2) by linarith
    then have b: "boundary doc (i + char_len c)" using boundary_utf8[OF assms] len(2) by blast
    have "length doc - (i + char_len c) < length doc - i" using ok(2) char_len_pos[of c] by linarith
    from less.hyps[OF this b] show ?thesis using less.prems Cons d by simp
  qed
qed

lemma utf16_walk_finds:
  "utf8_ok cs \<Longrightarrow> boundary cs j \<Longrightarrow> units + utf16_units (take j cs) < 2 ^ 32 \<Longrightarrow>
     utf16_walk (units + utf16_units (take j cs)) i units cs = i + j"
proof (induction "units + utf16_units (take j cs)" i units cs arbitrary: j rule: utf16_walk.induct)
  case (1 i units)
  then show ?case by (simp add: boundary_def)
next
  case (2 i units c cs)
  let ?n = "char_len c - 1"
  have ok: "?n \<le> length cs" "utf8_ok (drop ?n cs)" "list_all is_cont (take ?n cs)" using "2.prems"(1) by (auto simp: utf8_ok.simps(2))
  show ?case
  proof (cases j)
    case (Suc l)
    have "?n \<le> l" using "2.prems"(2) Suc ok(1,3) by (fastforce simp: boundary_def list_all_length not_le[symmetric])
    then obtain k where l: "l = ?n + k" using le_Suc_ex by blast
    have b: "boundary (drop ?n cs) k" using "2.prems"(2) Suc ok(1) unfolding l by (auto simp: boundary_def)
    have "drop ?n (take l cs) = take k (drop ?n cs)" unfolding l by (simp add: drop_take)
    then have t: "utf16_units (take j (c # cs)) = len_utf16 c + utf16_units (take k (drop ?n cs))"
      unfolding Suc by (simp only: take_Suc_Cons utf16_units.simps(2))
    have m: "(units + len_utf16 c) mod 2 ^ 32 = units + len_utf16 c" using "2.prems"(3) t by simp
    have less: "\<not> units \<ge> units + utf16_units (take j (c # cs))" using t by (simp add: len_utf16_def)
    have "utf16_walk (units + len_utf16 c + utf16_units (take k (drop ?n cs))) (i + char_len c) (units + len_utf16 c) (drop ?n cs) = (i + char_len c) + k"
      using "2.hyps"(1)[OF less, of k] "2.prems"(3) ok(2) b t m by (simp add: add.assoc)
    moreover have "(i + char_len c) + k = i + j" unfolding Suc l using char_len_pos[of c] by linarith
    moreover have "0 < len_utf16 c" by (simp add: len_utf16_def)
    ultimately show ?thesis using less m t by (simp add: add.assoc)
  qed simp
qed

text \<open>
  C37: offsets convert without loss. Every UTF-16 offset of the text area, even one inside a surrogate pair or beyond the text, becomes
  a byte offset between two characters, as slicing and the caret context need it; and a byte offset between two characters of a
  text shorter than $2^{32}$ units comes back from its UTF-16 offset unchanged.
\<close>

theorem utf16_roundtrip:
  assumes "utf8_ok doc"
  shows "boundary doc (utf16_to_byte doc unit) \<and>
    (boundary doc i \<longrightarrow> utf16_units doc < 2 ^ 32 \<longrightarrow> utf16_to_byte doc (byte_to_utf16 doc i) = i)"
proof (intro conjI impI)
  have "boundary doc 0" using boundary_utf8[OF assms] assms by simp
  from utf16_walk_boundary[OF assms this] show "boundary doc (utf16_to_byte doc unit)" by (simp add: utf16_to_byte_def)
next
  assume b: "boundary doc i" and "utf16_units doc < 2 ^ 32"
  then have "utf16_units (take i doc) < 2 ^ 32" using units_append[OF assms b] by simp
  then show "utf16_to_byte doc (byte_to_utf16 doc i) = i"
    using utf16_walk_finds[OF assms b, of 0 0] by (simp add: utf16_to_byte_def byte_to_utf16_def floor_boundary[OF b])
qed

theorem utf16_roundtrip_witness:
  "utf8_ok sample_doc \<and> boundary sample_doc 12 \<and> utf16_to_byte sample_doc (byte_to_utf16 sample_doc 12) = 12"
proof -
  have ok: "utf8_ok sample_doc" "boundary sample_doc 12" by code_simp+
  have "utf16_units sample_doc = 12" by code_simp
  then show ?thesis using utf16_roundtrip[OF ok(1), of 0 12] ok by simp
qed

end
