(* ===== verification/Run_Status.thy ===== *)
theory Run_Status
  imports Prelude "HOL-Library.Multiset"
begin

text \<open>
  Run-status sensors: the cursor (\<open>rivers-core/src/sensor.rs\<close>) and the tick that reads the runs past it
  (\<open>fetch\<close> in \<open>python/src/daemon/run_status.rs\<close>). Times are nanoseconds in an \<open>i64\<close> whose subtraction wraps in release
  builds. Of a run record the id and the end time are kept. The read and the failure details come from storage
  and are parameters.
\<close>

section \<open>The cursor\<close>

record ended_run =
  er_run_id :: string
  er_end_time :: "int option"

record run_status_cursor =
  cu_floor :: int
  cu_seen :: "(string \<times> int) list"

definition OVERLAP_NS :: int where
  "OVERLAP_NS = 60 * 1000000000"

definition RUNS_PER_TICK :: nat where
  "RUNS_PER_TICK = 5"

definition wrap64 :: "int \<Rightarrow> int" where
  "wrap64 x = (x + 2 ^ 63) mod 2 ^ 64 - 2 ^ 63"

definition cursor_init :: "int \<Rightarrow> run_status_cursor" where
  "cursor_init now = \<lparr>cu_floor = now, cu_seen = []\<rparr>"

definition since :: "run_status_cursor \<Rightarrow> int" where
  "since c = (if cu_seen c = [] then cu_floor c else max (wrap64 (Max (snd ` set (cu_seen c)) - OVERLAP_NS)) (cu_floor c))"

definition read_limit :: "run_status_cursor \<Rightarrow> nat" where
  "read_limit c = length (cu_seen c) + RUNS_PER_TICK"

definition select_new :: "run_status_cursor \<Rightarrow> ended_run list \<Rightarrow> ended_run list" where
  "select_new c rows = take RUNS_PER_TICK (filter (\<lambda>r. er_run_id r \<notin> fst ` set (cu_seen c)) rows)"

definition prune :: "run_status_cursor \<Rightarrow> run_status_cursor" where
  "prune c = c\<lparr>cu_seen := filter (\<lambda>s. since c \<le> snd s) (cu_seen c)\<rparr>"

definition advance :: "ended_run list \<Rightarrow> run_status_cursor \<Rightarrow> run_status_cursor" where
  "advance handled c =
     prune (c\<lparr>cu_seen := cu_seen c @ map (\<lambda>r. (er_run_id r, case er_end_time r of Some e \<Rightarrow> e | None \<Rightarrow> cu_floor c)) handled\<rparr>)"

definition idle :: "int \<Rightarrow> run_status_cursor \<Rightarrow> run_status_cursor" where
  "idle now c = prune (c\<lparr>cu_floor := max (cu_floor c) (wrap64 (now - OVERLAP_NS))\<rparr>)"

section \<open>A tick\<close>

text \<open>\<open>now\<close> is the clock after the read; \<open>failures\<close> gives the error of reading the failure details of a run, if any.\<close>

definition fetch ::
  "(int \<Rightarrow> nat \<Rightarrow> string + ended_run list) \<Rightarrow> (string \<Rightarrow> string option) \<Rightarrow> int \<Rightarrow> run_status_cursor \<Rightarrow>
   string + run_status_cursor \<times> ended_run list" where
  "fetch read failures now c =
     (case read (since c) (read_limit c) of
        Inl e \<Rightarrow> Inl e
      | Inr rows \<Rightarrow>
          (let new = select_new c rows
           in if new = [] then Inr (idle now c, [])
              else (case List.find (\<lambda>r. failures (er_run_id r) \<noteq> None) new of
                      Some r \<Rightarrow> Inl (the (failures (er_run_id r)))
                    | None \<Rightarrow> Inr (advance new c, new))))"

section \<open>Basic laws\<close>

lemma wrap64_id: "- (2 ^ 63) \<le> x \<Longrightarrow> x < 2 ^ 63 \<Longrightarrow> wrap64 x = x"
  by (simp add: wrap64_def)

definition seen_ok :: "run_status_cursor \<Rightarrow> bool" where
  "seen_ok c \<longleftrightarrow> (\<forall>s \<in> set (cu_seen c). 0 \<le> snd s \<and> snd s < 2 ^ 63)"

lemma since_eq:
  assumes "seen_ok c"
  shows "since c = Max (insert (cu_floor c) ((\<lambda>s. snd s - OVERLAP_NS) ` set (cu_seen c)))"
proof (cases "cu_seen c = []")
  case False
  let ?E = "snd ` set (cu_seen c)"
  have E: "finite ?E" "?E \<noteq> {}" using False by auto
  have m: "Max ?E \<in> ?E" using E by (rule Max_in)
  then have "0 \<le> Max ?E" "Max ?E < 2 ^ 63" using assms unfolding seen_ok_def by auto
  then have w: "wrap64 (Max ?E - OVERLAP_NS) = Max ?E - OVERLAP_NS" by (intro wrap64_id) (simp_all add: OVERLAP_NS_def)
  have "mono (\<lambda>x. x - OVERLAP_NS)" by (simp add: mono_def)
  then have "Max ?E - OVERLAP_NS = Max ((\<lambda>x. x - OVERLAP_NS) ` ?E)" using E by (rule mono_Max_commute)
  then show ?thesis using False w by (simp add: since_def image_image max.commute)
qed (simp add: since_def)

lemma since_le_iff: "seen_ok c \<Longrightarrow> since c \<le> x \<longleftrightarrow> cu_floor c \<le> x \<and> (\<forall>s \<in> set (cu_seen c). snd s - OVERLAP_NS \<le> x)"
  by (simp add: since_eq)

lemma since_prune:
  assumes "seen_ok c"
  shows "since (prune c) = since c" "seen_ok (prune c)" "cu_floor (prune c) = cu_floor c"
    "set (cu_seen (prune c)) = {s \<in> set (cu_seen c). since c \<le> snd s}"
proof -
  show ok: "seen_ok (prune c)" using assms by (simp add: seen_ok_def prune_def)
  show f: "cu_floor (prune c) = cu_floor c" and s: "set (cu_seen (prune c)) = {s \<in> set (cu_seen c). since c \<le> snd s}" by (auto simp: prune_def)
  have "since (prune c) \<le> x \<longleftrightarrow> since c \<le> x" for x
  proof
    assume l: "since (prune c) \<le> x"
    have kept: "snd s - OVERLAP_NS \<le> x" if "s \<in> set (cu_seen c)" "since c \<le> snd s" for s
      using l that s since_le_iff[OF ok, of x] by blast
    have fl: "cu_floor c \<le> x" using l f since_le_iff[OF ok, of x] by simp
    have "snd s - OVERLAP_NS \<le> x" if "s \<in> set (cu_seen c)" for s
    proof (cases "since c \<le> snd s")
      case True
      then show ?thesis using kept that by blast
    next
      case False
      have "since c \<in> insert (cu_floor c) ((\<lambda>s. snd s - OVERLAP_NS) ` set (cu_seen c))" unfolding since_eq[OF assms] by (rule Max_in) auto
      then consider "since c = cu_floor c" | u where "u \<in> set (cu_seen c)" "since c = snd u - OVERLAP_NS" by auto
      then show ?thesis
      proof cases
        case 1
        then show ?thesis using False fl by (simp add: OVERLAP_NS_def)
      next
        case 2
        have "since c \<le> snd u" using 2 by (simp add: OVERLAP_NS_def)
        then have "snd u - OVERLAP_NS \<le> x" using kept 2(1) by blast
        then show ?thesis using False 2 by (simp add: OVERLAP_NS_def)
      qed
    qed
    then show "since c \<le> x" using fl since_le_iff[OF assms, of x] by blast
  next
    assume "since c \<le> x"
    then show "since (prune c) \<le> x" using f s since_le_iff[OF ok, of x] since_le_iff[OF assms, of x] by simp
  qed
  then show "since (prune c) = since c" by (meson order_antisym order_refl)
qed

lemma since_advance:
  assumes "seen_ok c" "\<forall>r \<in> set new. \<exists>e. er_end_time r = Some e \<and> 0 \<le> e \<and> e < 2 ^ 63"
  shows "seen_ok (advance new c)" "cu_floor (advance new c) = cu_floor c"
    "since (advance new c) \<le> x \<longleftrightarrow> since c \<le> x \<and> (\<forall>r \<in> set new. the (er_end_time r) - OVERLAP_NS \<le> x)"
    "set (cu_seen (advance new c)) =
       {s \<in> set (cu_seen c) \<union> (\<lambda>r. (er_run_id r, the (er_end_time r))) ` set new. since (advance new c) \<le> snd s}"
proof -
  define c' where "c' = c\<lparr>cu_seen := cu_seen c @ map (\<lambda>r. (er_run_id r, case er_end_time r of Some e \<Rightarrow> e | None \<Rightarrow> cu_floor c)) new\<rparr>"
  have a: "advance new c = prune c'" by (simp add: advance_def c'_def)
  have s: "set (cu_seen c') = set (cu_seen c) \<union> (\<lambda>r. (er_run_id r, the (er_end_time r))) ` set new" "cu_floor c' = cu_floor c"
    using assms(2) by (force simp: c'_def image_iff)+
  have ok: "seen_ok c'" using assms unfolding seen_ok_def s by (auto simp: image_iff)
  note p = since_prune[OF ok]
  show "seen_ok (advance new c)" "cu_floor (advance new c) = cu_floor c" using p s(2) by (simp_all add: a)
  show "since (advance new c) \<le> x \<longleftrightarrow> since c \<le> x \<and> (\<forall>r \<in> set new. the (er_end_time r) - OVERLAP_NS \<le> x)"
    unfolding a p(1) since_le_iff[OF ok] since_le_iff[OF assms(1)] s ball_Un by simp
  show "set (cu_seen (advance new c)) =
       {s \<in> set (cu_seen c) \<union> (\<lambda>r. (er_run_id r, the (er_end_time r))) ` set new. since (advance new c) \<le> snd s}"
    unfolding a p(1,4) s ..
qed

lemma since_idle:
  assumes "seen_ok c" "0 \<le> now" "now < 2 ^ 63"
  shows "seen_ok (idle now c)" "since (idle now c) = max (since c) (now - OVERLAP_NS)"
    "set (cu_seen (idle now c)) = {s \<in> set (cu_seen c). since (idle now c) \<le> snd s}"
proof -
  define c' where "c' = c\<lparr>cu_floor := max (cu_floor c) (wrap64 (now - OVERLAP_NS))\<rparr>"
  have a: "idle now c = prune c'" by (simp add: idle_def c'_def)
  have w: "wrap64 (now - OVERLAP_NS) = now - OVERLAP_NS" using assms(2,3) by (intro wrap64_id) (simp_all add: OVERLAP_NS_def)
  have s: "cu_seen c' = cu_seen c" "cu_floor c' = max (cu_floor c) (now - OVERLAP_NS)" by (simp_all add: c'_def w)
  have ok: "seen_ok c'" using assms(1) unfolding seen_ok_def s .
  note p = since_prune[OF ok]
  show "seen_ok (idle now c)" using p by (simp add: a)
  have "since (idle now c) \<le> x \<longleftrightarrow> max (since c) (now - OVERLAP_NS) \<le> x" for x
    unfolding a p(1) since_le_iff[OF ok] s max.bounded_iff since_le_iff[OF assms(1)] by auto
  then show "since (idle now c) = max (since c) (now - OVERLAP_NS)" by (meson order_antisym order_refl)
  show "set (cu_seen (idle now c)) = {s \<in> set (cu_seen c). since (idle now c) \<le> snd s}" unfolding a p(1,4) s ..
qed

section \<open>What a read holds\<close>

text \<open>The storage query: the runs that ended at or after \<open>from\<close> in the order of their ends, the first \<open>lim\<close> of them.\<close>

definition reads :: "ended_run list \<Rightarrow> int \<Rightarrow> nat \<Rightarrow> ended_run list \<Rightarrow> bool" where
  "reads table from lim rows \<longleftrightarrow> (\<exists>full. mset full = mset (filter (\<lambda>r. case er_end_time r of Some e \<Rightarrow> from \<le> e | None \<Rightarrow> False) table) \<and>
     sorted (map (\<lambda>r. the (er_end_time r)) full) \<and> rows = take lim full)"

lemma filter_take_bound: "length xs \<le> length (filter P xs) + length (filter (\<lambda>x. \<not> P x) xs)"
  by (simp add: sum_length_filter_compl)

text \<open>With few rows that fail \<open>P\<close>, a long enough prefix holds the first ones that satisfy it.\<close>

lemma take_filter_prefix:
  assumes "length (filter (\<lambda>x. \<not> P x) xs) \<le> m"
  shows "take k (filter P (take (m + k) xs)) = take k (filter P xs)"
proof -
  have split: "filter P xs = filter P (take (m + k) xs) @ filter P (drop (m + k) xs)" by (metis append_take_drop_id filter_append)
  show ?thesis
  proof (cases "length xs \<le> m + k")
    case False
    have "length (filter (\<lambda>x. \<not> P x) (take (m + k) xs)) \<le> length (filter (\<lambda>x. \<not> P x) xs)"
      by (metis append_take_drop_id filter_append length_append le_add1)
    then have "k \<le> length (filter P (take (m + k) xs))"
      using filter_take_bound[of "take (m + k) xs" P] assms False by simp
    then show ?thesis unfolding split by simp
  qed simp
qed

section \<open>Runs of the sensor\<close>

text \<open>
  Runs commit and ticks happen in any order as the clock goes on. A run ends at the time its writer stamps and commits at most
  \<open>D\<close> later; the clock a tick reads after its query is at most \<open>L\<close> after that query.
\<close>

record sensor_world =
  sw_now :: int
  sw_rows :: "ended_run list"
  sw_handled :: "string list"
  sw_cursor :: run_status_cursor

abbreviation end_of :: "ended_run \<Rightarrow> int" where
  "end_of r \<equiv> the (er_end_time r)"

inductive sensor_step :: "int \<Rightarrow> int \<Rightarrow> sensor_world \<Rightarrow> sensor_world \<Rightarrow> bool" for D L where
  commit: "sw_now w \<le> t \<Longrightarrow> t < 2 ^ 63 \<Longrightarrow> er_end_time r = Some e \<Longrightarrow> 0 \<le> e \<Longrightarrow> e \<le> t \<Longrightarrow> t \<le> e + D \<Longrightarrow>
    er_run_id r \<notin> er_run_id ` set (sw_rows w) \<Longrightarrow> sensor_step D L w (w\<lparr>sw_now := t, sw_rows := r # sw_rows w\<rparr>)"
| tick: "sw_now w \<le> t \<Longrightarrow> t \<le> now \<Longrightarrow> now \<le> t + L \<Longrightarrow> now < 2 ^ 63 \<Longrightarrow>
    read (since (sw_cursor w)) (read_limit (sw_cursor w)) = Inr rows \<Longrightarrow>
    reads (sw_rows w) (since (sw_cursor w)) (read_limit (sw_cursor w)) rows \<Longrightarrow>
    fetch read failures now (sw_cursor w) = Inr (c, new) \<Longrightarrow>
    sensor_step D L w (w\<lparr>sw_now := t, sw_handled := sw_handled w @ map er_run_id new, sw_cursor := c\<rparr>)"

definition rows_ok :: "int \<Rightarrow> ended_run list \<Rightarrow> bool" where
  "rows_ok now rows \<longleftrightarrow> distinct (map er_run_id rows) \<and> (\<forall>r \<in> set rows. \<exists>e. er_end_time r = Some e \<and> 0 \<le> e \<and> e \<le> now)"

definition sensor_start :: "int \<Rightarrow> ended_run list \<Rightarrow> sensor_world" where
  "sensor_start t rows = \<lparr>sw_now = t, sw_rows = rows, sw_handled = [], sw_cursor = cursor_init t\<rparr>"

definition unhandled :: "int \<Rightarrow> sensor_world \<Rightarrow> ended_run list" where
  "unhandled t w = filter (\<lambda>r. t \<le> end_of r \<and> er_run_id r \<notin> set (sw_handled w)) (sw_rows w)"

definition sensor_inv :: "int \<Rightarrow> int \<Rightarrow> sensor_world \<Rightarrow> bool" where
  "sensor_inv t0 D w \<longleftrightarrow>
     rows_ok (sw_now w) (sw_rows w) \<and> sw_now w < 2 ^ 63 \<and> 0 \<le> sw_now w \<and> seen_ok (sw_cursor w) \<and>
     distinct (sw_handled w) \<and> set (sw_handled w) \<subseteq> er_run_id ` {r \<in> set (sw_rows w). t0 \<le> end_of r} \<and>
     (\<forall>r \<in> set (sw_rows w). (er_run_id r, end_of r) \<in> set (cu_seen (sw_cursor w)) \<longleftrightarrow>
        er_run_id r \<in> set (sw_handled w) \<and> since (sw_cursor w) \<le> end_of r) \<and>
     fst ` set (cu_seen (sw_cursor w)) \<subseteq> set (sw_handled w) \<and>
     set (cu_seen (sw_cursor w)) \<subseteq> (\<lambda>r. (er_run_id r, end_of r)) ` set (sw_rows w) \<and>
     (\<forall>r \<in> set (sw_rows w). t0 \<le> end_of r \<longrightarrow> er_run_id r \<in> set (sw_handled w) \<or> since (sw_cursor w) \<le> end_of r) \<and>
     t0 \<le> since (sw_cursor w) \<and> since (sw_cursor w) \<le> max t0 (sw_now w - D)"

lemma start_inv: "0 \<le> t \<Longrightarrow> t < 2 ^ 63 \<Longrightarrow> rows_ok t rows \<Longrightarrow> sensor_inv t D (sensor_start t rows)"
  by (simp add: sensor_inv_def sensor_start_def cursor_init_def since_def seen_ok_def)

lemma unhandled_window:
  assumes "sensor_inv t0 D w"
  shows "unhandled t0 w = unhandled (since (sw_cursor w)) w"
  unfolding unhandled_def using assms by (intro filter_cong) (auto simp: sensor_inv_def)

text \<open>A tick selects the first unhandled runs in the order of their ends: the limit of the read is large enough.\<close>

lemma tick_selects:
  assumes inv: "sensor_inv t0 D w" and rd: "reads (sw_rows w) (since (sw_cursor w)) (read_limit (sw_cursor w)) rows"
  shows "\<exists>F. mset F = mset (unhandled t0 w) \<and> sorted (map end_of F) \<and> select_new (sw_cursor w) rows = take RUNS_PER_TICK F"
proof -
  let ?c = "sw_cursor w" and ?R = "sw_rows w"
  define P where "P = (\<lambda>r :: ended_run. er_run_id r \<notin> fst ` set (cu_seen ?c))"
  obtain full where full: "mset full = mset (filter (\<lambda>r. case er_end_time r of Some e \<Rightarrow> since ?c \<le> e | None \<Rightarrow> False) ?R)"
    "sorted (map end_of full)" "rows = take (read_limit ?c) full" using rd unfolding reads_def by blast
  have ok: "\<And>r. r \<in> set ?R \<Longrightarrow> \<exists>e. er_end_time r = Some e" "distinct (map er_run_id ?R)" using inv by (auto simp: sensor_inv_def rows_ok_def)
  have win: "filter (\<lambda>r. case er_end_time r of Some e \<Rightarrow> since ?c \<le> e | None \<Rightarrow> False) ?R = filter (\<lambda>r. since ?c \<le> end_of r) ?R"
    using ok(1) by (intro filter_cong) force+
  have "distinct (map er_run_id (filter (\<lambda>r. since ?c \<le> end_of r) ?R))" using ok(2) by (simp add: distinct_map_filter)
  then have dist: "distinct (map er_run_id full)" using full(1) unfolding win by (metis mset_eq_imp_distinct_iff mset_map)
  have "length (filter (\<lambda>r. \<not> P r) full) = card (er_run_id ` set (filter (\<lambda>r. \<not> P r) full))"
    using distinct_map_filter[OF dist] distinct_card[of "map er_run_id (filter (\<lambda>r. \<not> P r) full)"] by simp
  also have "\<dots> \<le> card (fst ` set (cu_seen ?c))" by (rule card_mono) (auto simp: P_def)
  also have "\<dots> \<le> length (cu_seen ?c)" by (metis card_length list.set_map length_map)
  finally have "select_new ?c rows = take RUNS_PER_TICK (filter P full)"
    unfolding select_new_def full(3) read_limit_def P_def[symmetric] by (rule take_filter_prefix)
  moreover have "P r \<longleftrightarrow> er_run_id r \<notin> set (sw_handled w)" if "r \<in> set ?R" "since ?c \<le> end_of r" for r
    using inv that unfolding sensor_inv_def P_def by (metis (no_types, lifting) fst_conv image_eqI subsetD)
  then have "filter P (filter (\<lambda>r. since ?c \<le> end_of r) ?R) = unhandled (since ?c) w"
    unfolding unhandled_def filter_filter by (intro filter_cong) auto
  then have "mset (filter P full) = mset (unhandled t0 w)" using full(1) unfolding win unhandled_window[OF inv] by (metis mset_filter)
  ultimately show ?thesis using full(2) sorted_filter by blast
qed

lemma rows_ok_later: "rows_ok t rows \<Longrightarrow> t \<le> t' \<Longrightarrow> rows_ok t' rows"
  unfolding rows_ok_def by (meson order_trans)

lemma rows_ok_same: "rows_ok t rows \<Longrightarrow> r \<in> set rows \<Longrightarrow> r' \<in> set rows \<Longrightarrow> er_run_id r = er_run_id r' \<Longrightarrow> r = r'"
  by (auto simp: rows_ok_def distinct_map dest: inj_onD)

lemma commit_inv:
  assumes "sensor_inv t0 D w" "sw_now w \<le> t" "t < 2 ^ 63" "er_end_time r = Some e" "0 \<le> e" "e \<le> t" "t \<le> e + D"
    "er_run_id r \<notin> er_run_id ` set (sw_rows w)"
  shows "sensor_inv t0 D (w\<lparr>sw_now := t, sw_rows := r # sw_rows w\<rparr>)"
proof -
  have h: "er_run_id r \<notin> set (sw_handled w)" "er_run_id r \<notin> fst ` set (cu_seen (sw_cursor w))" using assms(1,8) by (auto simp: sensor_inv_def)
  have s: "since (sw_cursor w) \<le> max t0 (t - D)" "t0 \<le> e \<longrightarrow> since (sw_cursor w) \<le> e" using assms(1,2,7) by (auto simp: sensor_inv_def)
  have "rows_ok t (r # sw_rows w)" using rows_ok_later[of "sw_now w" _ t] assms by (auto simp: sensor_inv_def rows_ok_def)
  moreover have "(er_run_id r, e) \<notin> set (cu_seen (sw_cursor w))" using h(2) by force
  ultimately show ?thesis using assms(1-6) h s unfolding sensor_inv_def by auto
qed

lemma advance_inv:
  assumes inv: "sensor_inv t0 D w" and t: "sw_now w \<le> t" "t < 2 ^ 63" "D \<le> OVERLAP_NS"
    and F: "mset F = mset (unhandled t0 w)" "sorted (map end_of F)" "new = take RUNS_PER_TICK F"
  shows "sensor_inv t0 D (w\<lparr>sw_now := t, sw_handled := sw_handled w @ map er_run_id new, sw_cursor := advance new (sw_cursor w)\<rparr>)"
proof -
  let ?c = "sw_cursor w" and ?R = "sw_rows w" and ?H = "set (sw_handled w)"
  let ?c' = "advance new ?c"
  have rows: "rows_ok (sw_now w) ?R" and ok: "seen_ok ?c" using inv by (simp_all add: sensor_inv_def)
  have setF: "set F = {r \<in> set ?R. t0 \<le> end_of r \<and> er_run_id r \<notin> ?H}" using mset_eq_setD[OF F(1)] by (simp add: unhandled_def)
  have new: "set new \<subseteq> set F" unfolding F(3) by (rule set_take_subset)
  have ends: "\<forall>r \<in> set new. \<exists>e. er_end_time r = Some e \<and> 0 \<le> e \<and> e < 2 ^ 63" "\<forall>r \<in> set new. end_of r \<le> sw_now w"
    using new rows inv unfolding setF rows_ok_def sensor_inv_def by force+
  note adv = since_advance[OF ok ends(1)]
  have mono: "since ?c \<le> since ?c'" using adv(3)[of "since ?c'"] by simp
  have dist: "distinct (map er_run_id F)"
  proof -
    have "distinct (map er_run_id (unhandled t0 w))" unfolding unhandled_def using rows by (simp add: rows_ok_def distinct_map_filter)
    then show ?thesis using F(1) by (metis mset_eq_imp_distinct_iff mset_map)
  qed
  have later: "since ?c' \<le> end_of r" if "r \<in> set F" "r \<notin> set new" for r
  proof -
    have "r \<in> set (drop RUNS_PER_TICK F)" using that unfolding F(3) by (metis Un_iff append_take_drop_id set_append)
    moreover have "sorted (map end_of (take RUNS_PER_TICK F) @ map end_of (drop RUNS_PER_TICK F))"
      using F(2) by (metis append_take_drop_id map_append)
    ultimately have "\<forall>n \<in> set new. end_of n \<le> end_of r" unfolding F(3) by (auto simp: sorted_append)
    moreover have "since ?c \<le> end_of r" using inv that(1) unfolding setF sensor_inv_def by blast
    ultimately show ?thesis unfolding adv(3) by (auto simp: OVERLAP_NS_def)
  qed
  have seen: "(er_run_id r, end_of r) \<in> set (cu_seen ?c') \<longleftrightarrow> er_run_id r \<in> ?H \<union> er_run_id ` set new \<and> since ?c' \<le> end_of r" if r: "r \<in> set ?R" for r
  proof -
    have "(er_run_id r, end_of r) \<in> (\<lambda>r. (er_run_id r, end_of r)) ` set new \<longleftrightarrow> er_run_id r \<in> er_run_id ` set new"
      using rows_ok_same[OF rows r] new unfolding setF by (auto simp: image_iff)
    moreover have "(er_run_id r, end_of r) \<in> set (cu_seen ?c) \<longleftrightarrow> er_run_id r \<in> ?H \<and> since ?c \<le> end_of r" using inv r unfolding sensor_inv_def by blast
    ultimately show ?thesis unfolding adv(4) using mono by auto
  qed
  have "distinct (map er_run_id new)" using dist unfolding F(3) take_map[symmetric] by (rule distinct_take)
  moreover have "?H \<inter> er_run_id ` set new = {}" using new unfolding setF by blast
  ultimately have "distinct (sw_handled w @ map er_run_id new)" using inv by (simp add: sensor_inv_def)
  moreover have "since ?c' \<le> max t0 (t - D)"
    unfolding adv(3) using inv ends(2) t by (force simp: sensor_inv_def)
  moreover have "er_run_id ` set new \<subseteq> er_run_id ` {r \<in> set ?R. t0 \<le> end_of r}" using new unfolding setF by blast
  moreover have "fst ` set (cu_seen ?c') \<subseteq> ?H \<union> er_run_id ` set new" using inv unfolding adv(4) sensor_inv_def by (auto simp: image_iff)
  moreover have "set (cu_seen ?c') \<subseteq> (\<lambda>r. (er_run_id r, end_of r)) ` set ?R" using inv new unfolding adv(4) setF sensor_inv_def by blast
  moreover have "\<forall>r \<in> set ?R. t0 \<le> end_of r \<longrightarrow> er_run_id r \<in> ?H \<union> er_run_id ` set new \<or> since ?c' \<le> end_of r" using later setF by blast
  ultimately show ?thesis using inv rows_ok_later[OF rows t(1)] t mono adv(1) seen unfolding sensor_inv_def by simp
qed

lemma idle_inv:
  assumes inv: "sensor_inv t0 D w" and t: "sw_now w \<le> t" "t \<le> now" "now \<le> t + L" "now < 2 ^ 63" "D + L \<le> OVERLAP_NS"
    and none: "unhandled t0 w = []"
  shows "sensor_inv t0 D (w\<lparr>sw_now := t, sw_cursor := idle now (sw_cursor w)\<rparr>)"
proof -
  have n: "seen_ok (sw_cursor w)" "0 \<le> now" using inv t by (auto simp: sensor_inv_def)
  note id = since_idle[OF n t(4)]
  have all: "\<forall>r \<in> set (sw_rows w). t0 \<le> end_of r \<longrightarrow> er_run_id r \<in> set (sw_handled w)" using none by (auto simp: unhandled_def filter_empty_conv)
  have "\<forall>r \<in> set (sw_rows w). (er_run_id r, end_of r) \<in> set (cu_seen (idle now (sw_cursor w))) \<longleftrightarrow>
      er_run_id r \<in> set (sw_handled w) \<and> since (idle now (sw_cursor w)) \<le> end_of r"
    using inv unfolding id(3) id(2) sensor_inv_def by auto
  moreover have "since (idle now (sw_cursor w)) \<le> max t0 (t - D)" unfolding id(2) using inv t by (auto simp: sensor_inv_def)
  moreover have "rows_ok t (sw_rows w)" using inv rows_ok_later t(1) by (auto simp: sensor_inv_def)
  moreover have "t0 \<le> since (idle now (sw_cursor w))" unfolding id(2) using inv by (auto simp: sensor_inv_def)
  moreover have "set (cu_seen (idle now (sw_cursor w))) \<subseteq> set (cu_seen (sw_cursor w))" unfolding id(3) by blast
  ultimately show ?thesis using inv t all id(1) unfolding sensor_inv_def by auto
qed

lemma fetch_cases:
  assumes "fetch read failures now c = Inr (c', new)" "read (since c) (read_limit c) = Inr rows"
  shows "new = select_new c rows" "c' = (if new = [] then idle now c else advance new c)"
  using assms by (auto simp: fetch_def Let_def split: if_splits option.splits)

lemma step_inv:
  assumes "sensor_step D L w v" "sensor_inv t0 D w" "D + L \<le> OVERLAP_NS"
  shows "sensor_inv t0 D v"
  using assms(1,2)
proof (induction rule: sensor_step.induct)
  case (commit w t r e)
  then show ?case by (intro commit_inv)
next
  case (tick w t now read rows failures c new)
  note f = fetch_cases[OF tick.hyps(7,5)]
  obtain F where F: "mset F = mset (unhandled t0 w)" "sorted (map end_of F)" "new = take RUNS_PER_TICK F"
    using tick_selects[OF tick.prems tick.hyps(6)] f(1) by auto
  show ?case
  proof (cases "new = []")
    case True
    then have "F = []" using F(3) by (auto simp: RUNS_PER_TICK_def)
    then have "unhandled t0 w = []" using F(1) by simp
    then show ?thesis using idle_inv[OF tick.prems tick.hyps(1-4) assms(3)] f(2) True by simp
  next
    case False
    have "D \<le> OVERLAP_NS" "t < 2 ^ 63" using tick.hyps(2-4) assms(3) by auto
    then show ?thesis using advance_inv[OF tick.prems tick.hyps(1) _ _ F] f(2) False by simp
  qed
qed

lemma reach_inv:
  assumes "(sensor_step D L)\<^sup>*\<^sup>* (sensor_start t0 rows0) w" "0 \<le> t0" "t0 < 2 ^ 63" "rows_ok t0 rows0" "D + L \<le> OVERLAP_NS"
  shows "sensor_inv t0 D w"
  using assms(1) by (induction rule: rtranclp_induct) (use start_inv[OF assms(2-4)] step_inv assms(5) in blast)+

text \<open>
  C: a run-status sensor handles every run exactly once. However commits and ticks interleave, as long as the time a run takes to
  commit after its end and the time a tick takes from its query to its clock add up to no more than the overlap, no run is ever
  handled twice, only runs that ended since the first tick are handled, and each of these that has committed either has been
  handled or still lies in the window that the next tick reads.
\<close>

theorem sensor_exactly_once:
  assumes "(sensor_step D L)\<^sup>*\<^sup>* (sensor_start t0 rows0) w" "0 \<le> t0" "t0 < 2 ^ 63" "rows_ok t0 rows0" "D + L \<le> OVERLAP_NS"
  shows "distinct (sw_handled w) \<and> set (sw_handled w) \<subseteq> er_run_id ` {r \<in> set (sw_rows w). t0 \<le> end_of r} \<and>
    (\<forall>r \<in> set (sw_rows w). t0 \<le> end_of r \<longrightarrow> er_run_id r \<in> set (sw_handled w) \<or> since (sw_cursor w) \<le> end_of r)"
  using reach_inv[OF assms] by (simp add: sensor_inv_def)

definition sample_ended :: "string \<Rightarrow> int \<Rightarrow> ended_run" where
  "sample_ended i e = \<lparr>er_run_id = i, er_end_time = Some e\<rparr>"

text \<open>A run that ended before the first tick, one that commits after it, and a tick that handles the second.\<close>

definition sample_world :: sensor_world where
  "sample_world = \<lparr>sw_now = 300, sw_rows = [sample_ended ''b'' 200, sample_ended ''a'' 50], sw_handled = [''b''],
     sw_cursor = \<lparr>cu_floor = 100, cu_seen = [(''b'', 200)]\<rparr>\<rparr>"

lemma sample_reach: "(sensor_step 150 10)\<^sup>*\<^sup>* (sensor_start 100 [sample_ended ''a'' 50]) sample_world"
proof -
  let ?s = "sensor_start 100 [sample_ended ''a'' 50]"
  let ?m = "?s\<lparr>sw_now := 250, sw_rows := sample_ended ''b'' 200 # sw_rows ?s\<rparr>"
  let ?rows = "[sample_ended ''b'' 200]"
  have a: "sensor_step 150 10 ?s ?m"
    by (rule sensor_step.commit[where e = 200]) (auto simp: sensor_start_def sample_ended_def)
  have r: "reads (sw_rows ?m) (since (sw_cursor ?m)) (read_limit (sw_cursor ?m)) ?rows"
    unfolding reads_def by (intro exI[of _ ?rows]) (simp add: sensor_start_def sample_ended_def cursor_init_def since_def read_limit_def RUNS_PER_TICK_def)
  have f: "fetch (\<lambda>_ _. Inr ?rows) (\<lambda>_. None) 305 (sw_cursor ?m) = Inr (\<lparr>cu_floor = 100, cu_seen = [(''b'', 200)]\<rparr>, ?rows)"
    by (simp add: sensor_start_def fetch_def select_new_def advance_def prune_def since_def cursor_init_def sample_ended_def RUNS_PER_TICK_def
        OVERLAP_NS_def wrap64_def)
  have "sensor_step 150 10 ?m (?m\<lparr>sw_now := 300, sw_handled := sw_handled ?m @ map er_run_id ?rows, sw_cursor := \<lparr>cu_floor = 100, cu_seen = [(''b'', 200)]\<rparr>\<rparr>)"
    by (rule sensor_step.tick[where now = 305, OF _ _ _ _ _ r f]) (simp_all add: sensor_start_def)
  also have "?m\<lparr>sw_now := 300, sw_handled := sw_handled ?m @ map er_run_id ?rows, sw_cursor := \<lparr>cu_floor = 100, cu_seen = [(''b'', 200)]\<rparr>\<rparr> = sample_world"
    by (simp add: sample_world_def sensor_start_def sample_ended_def)
  finally show ?thesis using a by (meson converse_rtranclp_into_rtranclp r_into_rtranclp)
qed

lemma sample_rows_ok: "rows_ok 100 [sample_ended ''a'' 50]" "150 + 10 \<le> OVERLAP_NS"
  by (simp_all add: rows_ok_def sample_ended_def OVERLAP_NS_def)

theorem sensor_exactly_once_witness:
  "(sensor_step 150 10)\<^sup>*\<^sup>* (sensor_start 100 [sample_ended ''a'' 50]) sample_world \<and> distinct (sw_handled sample_world) \<and>
   (\<forall>r \<in> set (sw_rows sample_world). 100 \<le> end_of r \<longrightarrow> er_run_id r \<in> set (sw_handled sample_world) \<or> since (sw_cursor sample_world) \<le> end_of r)"
  using sensor_exactly_once[OF sample_reach _ _ sample_rows_ok] sample_reach by simp

text \<open>
  C: a tick makes progress. In every state the sensor reaches, a tick whose reads succeed handles as many of the committed runs
  still to be handled as one tick may, and the earliest of them: none left behind ended before one it handles. So a
  backlog of any size is worked off in the order of the ends, and a tick that handles nothing has nothing to handle.
\<close>

theorem sensor_progress:
  assumes "(sensor_step D L)\<^sup>*\<^sup>* (sensor_start t0 rows0) w" "0 \<le> t0" "t0 < 2 ^ 63" "rows_ok t0 rows0" "D + L \<le> OVERLAP_NS"
    and "read (since (sw_cursor w)) (read_limit (sw_cursor w)) = Inr rows"
    and "reads (sw_rows w) (since (sw_cursor w)) (read_limit (sw_cursor w)) rows"
    and "fetch read failures now (sw_cursor w) = Inr (c, new)"
  shows "set new \<subseteq> set (unhandled t0 w) \<and> length new = min RUNS_PER_TICK (length (unhandled t0 w)) \<and>
    (\<forall>r \<in> set new. \<forall>u \<in> set (unhandled t0 w) - set new. end_of r \<le> end_of u)"
proof -
  obtain F where F: "mset F = mset (unhandled t0 w)" "sorted (map end_of F)" "new = take RUNS_PER_TICK F"
    using tick_selects[OF reach_inv[OF assms(1-5)] assms(7)] fetch_cases(1)[OF assms(8,6)] by auto
  have s: "set F = set (unhandled t0 w)" "length F = length (unhandled t0 w)" using F(1) mset_eq_setD mset_eq_length by blast+
  have "sorted (map end_of new @ map end_of (drop RUNS_PER_TICK F))" using F(2,3) by (metis append_take_drop_id map_append)
  moreover have "set F = set new \<union> set (drop RUNS_PER_TICK F)" using F(3) by (metis append_take_drop_id set_append)
  ultimately show ?thesis using s F(3) by (auto simp: sorted_append)
qed

theorem sensor_progress_witness:
  "\<exists>c new. fetch (\<lambda>_ _. Inr [sample_ended ''b'' 200]) (\<lambda>_. None) 320 (sw_cursor sample_world) = Inr (c, new) \<and>
     length new = min RUNS_PER_TICK (length (unhandled 100 sample_world))"
proof -
  let ?rows = "[sample_ended ''b'' 200]"
  have s: "since (sw_cursor sample_world) = 100" by (simp add: sample_world_def since_def wrap64_def OVERLAP_NS_def)
  have r: "reads (sw_rows sample_world) (since (sw_cursor sample_world)) (read_limit (sw_cursor sample_world)) ?rows"
    unfolding reads_def s by (intro exI[of _ ?rows]) (simp add: sample_world_def sample_ended_def read_limit_def RUNS_PER_TICK_def)
  obtain c new where f: "fetch (\<lambda>_ _. Inr ?rows) (\<lambda>_. None) 320 (sw_cursor sample_world) = Inr (c, new)"
    by (simp add: fetch_def Let_def select_new_def sample_world_def sample_ended_def)
  then show ?thesis using sensor_progress[OF sample_reach _ _ sample_rows_ok refl r f] by auto
qed

text \<open>
  The clock of an idle tick is read after its query. A run that ends long before that clock and commits, within the overlap,
  between the query and the clock, falls behind the floor without having been read.
\<close>

lemma idle_after_read_loses_run:
  "let c = cursor_init 0; late = sample_ended ''late'' (5 * 1000000000)
   in reads [] (since c) (read_limit c) [] \<and>
      fetch (\<lambda>_ _. Inr []) (\<lambda>_. None) (66 * 1000000000) c = Inr (idle (66 * 1000000000) c, []) \<and>
      end_of late < since (idle (66 * 1000000000) c)"
  by (simp add: Let_def reads_def cursor_init_def since_def fetch_def select_new_def idle_def prune_def wrap64_def OVERLAP_NS_def sample_ended_def)

end
