(* ===== verification/Spec2Isabelle.thy ===== *)
theory Spec2Isabelle
  imports Condition_Pointwise Condition_Ticks Cache_Floors Cache_Liveness Pass_Recovery Pass_Dispatch Plan_Builders
    Run_Queue Staleness Storage_Retry Json_Grammar Json_Context Run_Status
begin

end
